(* ===== verification/Prelude.thy ===== *)
theory Prelude
  imports Main "HOL-Library.Finite_Map" "HOL-Library.Multiset" "HOL-Library.Monad_Syntax"
    "HOL-Library.Char_ord" "HOL-Library.List_Lexorder"
begin

text \<open>
  Shared ground of the development: the fragments of the Go language that every package
  of the repository uses, and generic lemmas about them.

  A Go slice is a list, an operation that can panic returns an \<open>option\<close> whose \<open>None\<close> is the
  panic, a Go string is a \<open>string\<close> (a list of bytes, compared bytewise as Go does), a Go
  \<open>map[string]T\<close> is a finite map, and \<open>for k := range m\<close> visits the keys in an order the
  language leaves open: the definitions that depend on it take the order as an argument.
\<close>

named_theorems slice_simps \<open>evaluation rules for Go slices\<close>

section \<open>Slices\<close>

text \<open>\<open>xs[lo:hi]\<close>: panics unless \<open>lo <= hi <= len(xs)\<close> (the slices here have \<open>cap = len\<close>).\<close>

definition go_slice :: "nat \<Rightarrow> nat \<Rightarrow> 'a list \<Rightarrow> 'a list option" where
  "go_slice lo hi xs = (if lo \<le> hi \<and> hi \<le> length xs then Some (drop lo (take hi xs)) else None)"

text \<open>\<open>copy(dst, src)\<close>: overwrites the first \<open>min (len dst) (len src)\<close> elements.\<close>

definition go_copy :: "'a list \<Rightarrow> 'a list \<Rightarrow> 'a list" where
  "go_copy dst src = take (length dst) src @ drop (length src) dst"

text \<open>\<open>a % b\<close> on non-negative operands: division by zero panics.\<close>

definition go_mod :: "nat \<Rightarrow> nat \<Rightarrow> nat option" where
  "go_mod a b = (if b = 0 then None else Some (a mod b))"

lemma go_slice_Some [slice_simps]:
  "lo \<le> hi \<Longrightarrow> hi \<le> length xs \<Longrightarrow> go_slice lo hi xs = Some (drop lo (take hi xs))"
  by (simp add: go_slice_def)

lemma go_slice_mid: "length a = lo \<Longrightarrow> lo + length b = hi \<Longrightarrow> go_slice lo hi (a @ b @ c) = Some b"
  by (auto simp: go_slice_def)

lemma go_mod_Some [slice_simps]: "0 < b \<Longrightarrow> go_mod a b = Some (a mod b)"
  by (simp add: go_mod_def)

lemma length_go_copy [simp]: "length (go_copy dst src) = length dst"
  by (simp add: go_copy_def)

lemma nth_go_copy:
  "i < length dst \<Longrightarrow> go_copy dst src ! i = (if i < length src then src ! i else dst ! i)"
  by (auto simp: go_copy_def nth_append min_def)

end
