(* ===== verification/Ring_Buffer.thy ===== *)
theory Ring_Buffer
  imports Prelude
begin

text \<open>
  The growable ring buffer behind every in-memory queue of the repository
  (\<open>simple-mq-2/queue.go\<close>; the same code is the core of the queues of \<open>push-mq\<close>,
  \<open>durable-mq\<close> and \<open>dist-mq\<close>), its representation invariant, and its refinement to a
  first-in-first-out list. A \<open>nil\<close> slot is \<open>None\<close>.
\<close>

section \<open>The first-in-first-out contract\<close>

text \<open>
  What a client of a queue relies on: \<open>add\<close> and \<open>pop\<close> never panic on a well-formed queue,
  keep it well-formed, and act on its contents as on a list.
\<close>

locale fifo =
  fixes add :: "'a \<Rightarrow> 'q \<Rightarrow> 'q option"
    and pop :: "'q \<Rightarrow> ('a option \<times> 'q) option"
    and inv :: "'q \<Rightarrow> bool"
    and contents :: "'q \<Rightarrow> 'a list"
  assumes add_ok: "inv q \<Longrightarrow> \<exists>q'. add x q = Some q' \<and> inv q' \<and> contents q' = contents q @ [x]"
    and pop_Nil: "inv q \<Longrightarrow> contents q = [] \<Longrightarrow> pop q = Some (None, q)"
    and pop_Cons: "inv q \<Longrightarrow> contents q = x # xs \<Longrightarrow>
      \<exists>q'. pop q = Some (Some x, q') \<and> inv q' \<and> contents q' = xs"

text \<open>
  A client issues a sequence of operations and sees what the pops return. On a list this is
  \<open>list_run\<close>; on a queue it is \<open>queue_run\<close>, where a panic makes the whole run \<open>None\<close>.
\<close>

datatype 'a queue_op = AddOp 'a | PopOp

fun list_run :: "'a queue_op list \<Rightarrow> 'a list \<Rightarrow> 'a option list" where
  "list_run [] xs = []"
| "list_run (AddOp x # ops) xs = list_run ops (xs @ [x])"
| "list_run (PopOp # ops) [] = None # list_run ops []"
| "list_run (PopOp # ops) (x # xs) = Some x # list_run ops xs"

fun queue_run :: "('a \<Rightarrow> 'q \<Rightarrow> 'q option) \<Rightarrow> ('q \<Rightarrow> ('a option \<times> 'q) option) \<Rightarrow>
    'a queue_op list \<Rightarrow> 'q \<Rightarrow> ('a option list \<times> 'q) option" where
  "queue_run add pop [] q = Some ([], q)"
| "queue_run add pop (AddOp x # ops) q = do { q' \<leftarrow> add x q; queue_run add pop ops q' }"
| "queue_run add pop (PopOp # ops) q =
     do { (r, q') \<leftarrow> pop q; (rs, q'') \<leftarrow> queue_run add pop ops q'; Some (r # rs, q'') }"

context fifo
begin

lemma run_refines:
  "inv q \<Longrightarrow> \<exists>q'. queue_run add pop ops q = Some (list_run ops (contents q), q') \<and> inv q'"
proof (induction ops "contents q" arbitrary: q rule: list_run.induct)
  case (2 x ops)
  then obtain q' where "add x q = Some q'" "inv q'" "contents q' = contents q @ [x]"
    using add_ok by blast
  then show ?case using "2.hyps" [of q'] by simp
next
  case (3 ops)
  then show ?case using "3.hyps"(1) [of q] pop_Nil [of q] by (fastforce simp flip: "3.hyps"(2))
next
  case (4 ops x xs)
  then obtain q' where "pop q = Some (Some x, q')" "inv q'" "contents q' = xs"
    using pop_Cons by metis
  then show ?case using "4.hyps"(1) [of q'] by (fastforce simp flip: "4.hyps"(2))
qed simp

end

section \<open>The ring buffer\<close>

record 'a ring =
  qcount :: nat
  qhead :: nat
  qbuf :: "'a option list"

definition initialCapacity :: nat where
  "initialCapacity = 10"

definition newRing :: "'a ring" where
  "newRing = \<lparr>qcount = 0, qhead = 0, qbuf = replicate initialCapacity None\<rparr>"

definition copyOver :: "'a option list \<Rightarrow> ('a, 'z) ring_scheme \<Rightarrow> ('a, 'z) ring_scheme option" where
  "copyOver newBuf q =
     (if qcount q > length newBuf then None
      else do {
        tl \<leftarrow> go_slice (qhead q) (length (qbuf q)) (qbuf q);
        let b = go_copy newBuf tl;
        let nItemsCopied = length tl;
        b' \<leftarrow> (if qcount q > nItemsCopied
               then do {
                 dst \<leftarrow> go_slice nItemsCopied (length b) b;
                 src \<leftarrow> go_slice 0 (qcount q - nItemsCopied) (qbuf q);
                 Some (take nItemsCopied b @ go_copy dst src)
               }
               else Some b);
        Some (q\<lparr>qbuf := b', qhead := 0\<rparr>)
      })"

definition grow :: "('a, 'z) ring_scheme \<Rightarrow> ('a, 'z) ring_scheme option" where
  "grow q = copyOver (replicate (length (qbuf q) * 2) None) q"

definition compact :: "('a, 'z) ring_scheme \<Rightarrow> ('a, 'z) ring_scheme option" where
  "compact q = copyOver (replicate (max (length (qbuf q) div 2) initialCapacity) None) q"

definition Add :: "'a \<Rightarrow> ('a, 'z) ring_scheme \<Rightarrow> ('a, 'z) ring_scheme option" where
  "Add msg q = do {
     ind \<leftarrow> go_mod (qhead q + qcount q) (length (qbuf q));
     let q1 = q\<lparr>qbuf := (qbuf q)[ind := Some msg], qcount := qcount q + 1\<rparr>;
     if qcount q1 \<ge> length (qbuf q1) then grow q1 else Some q1
   }"

definition Pop :: "('a, 'z) ring_scheme \<Rightarrow> ('a option \<times> ('a, 'z) ring_scheme) option" where
  "Pop q =
     (if qcount q = 0 then Some (None, q)
      else if qhead q \<ge> length (qbuf q) then None
      else do {
        let msg = qbuf q ! qhead q;
        h \<leftarrow> go_mod (qhead q + 1) (length (qbuf q));
        let q1 = q\<lparr>qhead := h, qcount := qcount q - 1\<rparr>;
        q2 \<leftarrow> (if qcount q1 * 4 \<le> length (qbuf q1) then compact q1 else Some q1);
        Some (msg, q2)
      })"

section \<open>Invariant and contents\<close>

text \<open>The live slots in delivery order.\<close>

definition ring_slots :: "('a, 'z) ring_scheme \<Rightarrow> 'a option list" where
  "ring_slots q = map (\<lambda>i. qbuf q ! ((qhead q + i) mod length (qbuf q))) [0..<qcount q]"

definition ring_contents :: "('a, 'z) ring_scheme \<Rightarrow> 'a list" where
  "ring_contents q = map the (ring_slots q)"

text \<open>
  The buffer has room for one more message, the head is in range, no live slot is \<open>nil\<close>,
  and the buffer is either at its initial capacity or less than four times as large as
  what it holds.
\<close>

definition ring_inv :: "('a, 'z) ring_scheme \<Rightarrow> bool" where
  "ring_inv q \<longleftrightarrow>
     qcount q < length (qbuf q) \<and> qhead q < length (qbuf q) \<and> None \<notin> set (ring_slots q) \<and>
     (length (qbuf q) = initialCapacity \<or>
      initialCapacity \<le> length (qbuf q) \<and> length (qbuf q) < 4 * qcount q)"

lemma length_ring_slots [simp]: "length (ring_slots q) = qcount q"
  by (simp add: ring_slots_def)

lemma length_ring_contents [simp]: "length (ring_contents q) = qcount q"
  by (simp add: ring_contents_def)

lemma ring_inv_slots: "ring_inv q \<Longrightarrow> ring_slots q = map Some (ring_contents q)"
proof -
  assume "ring_inv q"
  then have "\<forall>x \<in> set (ring_slots q). Some (the x) = x"
    by (metis option.collapse ring_inv_def)
  then show ?thesis
    by (simp add: ring_contents_def map_idI)
qed

lemma ring_contents_Some: "ring_slots q = map Some xs \<Longrightarrow> ring_contents q = xs"
  by (simp add: ring_contents_def)

text \<open>Moving the live window to the front of a buffer that is large enough never panics.\<close>

lemma wrapped_index:
  assumes "h < (n::nat)" "i < c" "c \<le> n"
  shows "(h + i) mod n = (if i < n - h then h + i else i - (n - h))"
proof -
  have "h + i - n < n" using assms by simp
  then show ?thesis using assms by (auto simp: mod_if)
qed

lemma copyOver_Some:
  assumes "qhead q < length (qbuf q)" "qcount q \<le> length (qbuf q)" "qcount q \<le> length nb"
  shows "\<exists>b. copyOver nb q = Some (q\<lparr>qbuf := b, qhead := 0\<rparr>) \<and> length b = length nb \<and>
    (\<forall>i < qcount q. b ! i = qbuf q ! ((qhead q + i) mod length (qbuf q)))"
proof -
  let ?n = "length (qbuf q) - qhead q"
  let ?t = "drop (qhead q) (qbuf q)"
  let ?b = "go_copy nb ?t"
  let ?b' = "if qcount q > ?n then take ?n ?b @ go_copy (drop ?n ?b) (take (qcount q - ?n) (qbuf q)) else ?b"
  have "copyOver nb q = Some (q\<lparr>qbuf := ?b', qhead := 0\<rparr>)"
    using assms by (auto simp: copyOver_def go_slice_def Let_def)
  moreover have "length ?b' = length nb"
    using assms by (auto simp: min_def)
  moreover have "?b' ! i = qbuf q ! ((qhead q + i) mod length (qbuf q))" if "i < qcount q" for i
    using assms that by (auto simp: wrapped_index [of _ _ _ "qcount q"] nth_append nth_go_copy min_def)
  ultimately show ?thesis by blast
qed

lemma copyOver_slots:
  assumes "qhead q < length (qbuf q)" "qcount q \<le> length (qbuf q)" "qcount q < length nb"
  shows "\<exists>q'. copyOver nb q = Some q' \<and> ring_slots q' = ring_slots q \<and> qcount q' = qcount q \<and>
    length (qbuf q') = length nb \<and> qhead q' = 0 \<and> ring.more q' = ring.more q"
  using copyOver_Some [OF assms(1,2) less_imp_le [OF assms(3)]] assms(3)
  by (fastforce simp: ring_slots_def)

lemma grow_slots:
  assumes "qhead q < length (qbuf q)" "qcount q = length (qbuf q)"
  shows "\<exists>q'. grow q = Some q' \<and> ring_slots q' = ring_slots q \<and> qcount q' = qcount q \<and>
    length (qbuf q') = 2 * length (qbuf q) \<and> qhead q' = 0 \<and> ring.more q' = ring.more q"
  using copyOver_slots [of q "replicate (length (qbuf q) * 2) None"] assms
  by (force simp: grow_def)

lemma compact_slots:
  assumes "qhead q < length (qbuf q)" "qcount q \<le> length (qbuf q)"
    "qcount q < max (length (qbuf q) div 2) initialCapacity"
  shows "\<exists>q'. compact q = Some q' \<and> ring_slots q' = ring_slots q \<and> qcount q' = qcount q \<and>
    length (qbuf q') = max (length (qbuf q) div 2) initialCapacity \<and> qhead q' = 0 \<and>
    ring.more q' = ring.more q"
  using copyOver_slots [OF assms(1,2), of "replicate (max (length (qbuf q) div 2) initialCapacity) None"]
    assms(3) by (simp add: compact_def)

lemma ring_slots_snoc:
  assumes "qcount q < length (qbuf q)"
  shows "ring_slots (q\<lparr>qbuf := (qbuf q)[(qhead q + qcount q) mod length (qbuf q) := Some x],
      qcount := Suc (qcount q)\<rparr>) = ring_slots q @ [Some x]"
proof -
  let ?n = "length (qbuf q)"
  have "(qhead q + qcount q) mod ?n \<noteq> (qhead q + i) mod ?n" if "i < qcount q" for i
  proof
    assume "(qhead q + qcount q) mod ?n = (qhead q + i) mod ?n"
    then have "?n dvd (qhead q + qcount q) - (qhead q + i)"
      using that by (metis add_le_cancel_left less_imp_le mod_eq_dvd_iff_nat)
    then have "?n dvd qcount q - i" by simp
    with that assms show False by (auto dest: dvd_imp_le)
  qed
  moreover have "(qhead q + qcount q) mod ?n < ?n"
    using assms by (intro mod_less_divisor) linarith
  ultimately show ?thesis
    by (auto simp: ring_slots_def intro!: nth_equalityI)
qed

lemma ring_slots_tl:
  assumes "0 < qcount q" "qhead q < length (qbuf q)"
  shows "ring_slots (q\<lparr>qhead := (qhead q + 1) mod length (qbuf q), qcount := qcount q - 1\<rparr>)
    = tl (ring_slots q)"
  using assms by (auto simp: ring_slots_def mod_simps nth_tl intro!: nth_equalityI)

lemma ring_slots_hd:
  "0 < qcount q \<Longrightarrow> qhead q < length (qbuf q) \<Longrightarrow> hd (ring_slots q) = qbuf q ! qhead q"
  by (simp add: ring_slots_def hd_map)

section \<open>The ring buffer is a first-in-first-out queue\<close>

lemma ring_inv_newRing: "ring_inv newRing" and ring_contents_newRing: "ring_contents newRing = []"
  by (simp_all add: ring_inv_def newRing_def ring_slots_def ring_contents_def initialCapacity_def)

lemma Add_contents:
  assumes "ring_inv q"
  shows "\<exists>q'. Add x q = Some q' \<and> ring_inv q' \<and> ring_contents q' = ring_contents q @ [x] \<and>
    ring.more q' = ring.more q"
proof -
  let ?q1 = "q\<lparr>qbuf := (qbuf q)[(qhead q + qcount q) mod length (qbuf q) := Some x],
      qcount := Suc (qcount q)\<rparr>"
  have slots: "ring_slots ?q1 = map Some (ring_contents q @ [x])"
    using assms by (simp add: ring_slots_snoc ring_inv_slots ring_inv_def)
  have nonempty: "0 < length (qbuf q)"
    using assms by (auto simp: ring_inv_def)
  show ?thesis
  proof (cases "Suc (qcount q) \<ge> length (qbuf q)")
    case True
    then have "Add x q = grow ?q1" and c: "Suc (qcount q) = length (qbuf q)"
      using assms nonempty by (auto simp: Add_def Let_def ring_inv_def slice_simps)
    moreover obtain q' where "grow ?q1 = Some q'" "ring_slots q' = ring_slots ?q1"
      "qcount q' = Suc (qcount q)" "length (qbuf q') = 2 * length (qbuf q)" "qhead q' = 0"
      "ring.more q' = ring.more q"
      using grow_slots [of ?q1] assms c by (force simp: ring_inv_def)
    ultimately show ?thesis
      using assms slots ring_contents_Some [of q' "ring_contents q @ [x]"]
      by (auto simp: ring_inv_def initialCapacity_def)
  next
    case False
    then have "Add x q = Some ?q1"
      using nonempty by (simp add: Add_def Let_def slice_simps)
    then show ?thesis
      using assms slots ring_contents_Some [OF slots] False by (auto simp: ring_inv_def)
  qed
qed

lemma Pop_Nil: "ring_contents q = [] \<Longrightarrow> Pop q = Some (None, q)"
  by (metis Pop_def length_ring_contents list.size(3))

lemma Pop_Cons:
  assumes "ring_inv q" "ring_contents q = x # xs"
  shows "\<exists>q'. Pop q = Some (Some x, q') \<and> ring_inv q' \<and> ring_contents q' = xs \<and>
    ring.more q' = ring.more q"
proof -
  let ?q1 = "q\<lparr>qhead := (qhead q + 1) mod length (qbuf q), qcount := qcount q - 1\<rparr>"
  have c: "0 < qcount q" using assms(2) by (metis length_Cons length_ring_contents zero_less_Suc)
  have h: "qhead q < length (qbuf q)" "0 < length (qbuf q)" and r: "qcount q < length (qbuf q)"
    using assms(1) by (auto simp: ring_inv_def)
  have h': "Suc (qhead q) mod length (qbuf q) < length (qbuf q)"
    using h(2) by (rule mod_less_divisor)
  have slots: "ring_slots ?q1 = map Some xs"
    using ring_slots_tl [OF c h(1)] ring_inv_slots [OF assms(1)] assms(2) by simp
  have hd: "qbuf q ! qhead q = Some x"
    using ring_slots_hd [OF c h(1)] ring_inv_slots [OF assms(1)] assms(2) by simp
  show ?thesis
  proof (cases "(qcount q - 1) * 4 \<le> length (qbuf q)")
    case True
    then have pop: "Pop q = map_option (\<lambda>q2. (Some x, q2)) (compact ?q1)"
      using c h hd by (auto simp: Pop_def Let_def slice_simps split: bind_splits)
    have room: "qcount q - 1 < max (length (qbuf q) div 2) initialCapacity"
      using assms(1) True c by (auto simp: ring_inv_def initialCapacity_def)
    obtain q' where "compact ?q1 = Some q'" "ring_slots q' = ring_slots ?q1"
      "qcount q' = qcount q - 1" "length (qbuf q') = max (length (qbuf q) div 2) initialCapacity"
      "qhead q' = 0" "ring.more q' = ring.more q"
      using compact_slots [of ?q1] r room h' by force
    then show ?thesis
      using assms(1) slots ring_contents_Some [of q' xs] room pop c
      by (auto simp: ring_inv_def initialCapacity_def max_def)
  next
    case False
    then have "Pop q = Some (Some x, ?q1)"
      using c h hd by (auto simp: Pop_def Let_def slice_simps)
    then show ?thesis
      using assms(1) slots ring_contents_Some [OF slots] False c h'
      by (auto simp: ring_inv_def)
  qed
qed

interpretation ring: fifo Add Pop ring_inv ring_contents
proof unfold_locales
  fix q :: "('a, 'z) ring_scheme" and x :: 'a and xs :: "'a list"
  assume inv: "ring_inv q"
  show "\<exists>q'. Add x q = Some q' \<and> ring_inv q' \<and> ring_contents q' = ring_contents q @ [x]"
    using Add_contents [OF inv] by blast
  show "Pop q = Some (None, q)" if "ring_contents q = []"
    using that by (rule Pop_Nil)
  show "\<exists>q'. Pop q = Some (Some x, q') \<and> ring_inv q' \<and> ring_contents q' = xs"
    if "ring_contents q = x # xs"
    using Pop_Cons [OF inv that] by blast
qed

section \<open>Properties\<close>

text \<open>
  C20. Starting from an empty queue, every sequence of \<open>Add\<close> and \<open>Pop\<close> runs without a panic
  (no index out of range, no \<open>copyOver\<close> overflow) and the pops return exactly what they
  would return on a first-in-first-out list; through every grow and compact the buffer
  keeps at least one free slot and never exceeds the larger of the initial capacity and
  four times the number of waiting messages.
\<close>

theorem ring_runs_as_list:
  "\<exists>q. queue_run Add Pop ops newRing = Some (list_run ops [], q) \<and>
     qcount q < length (qbuf q) \<and> length (qbuf q) \<le> max initialCapacity (4 * qcount q)"
  using ring.run_refines [OF ring_inv_newRing, of ops]
  by (auto simp: ring_contents_newRing ring_inv_def)

end
