(* ===== verification/Simple_MQ.thy ===== *)
theory Simple_MQ
  imports Ring_Buffer "HOL-Library.Sublist"
begin

text \<open>
  The two polling brokers. \<open>simple-mq\<close> keeps each queue as a slice of messages under one
  lock; \<open>simple-mq-2\<close> keeps it in the ring buffer, with the broker's lock only around the
  queue table. Both are at-most-once: a message leaves its queue when it is dequeued. The
  second is shown to answer every sequence of requests as the first does.
\<close>

record QueueMsg =
  MsgId :: string
  Payload :: string

section \<open>\<open>simple-mq\<close>\<close>

record SliceQueue =
  sname :: string
  messages :: "QueueMsg list"

type_synonym simple_broker = "(string, SliceQueue) fmap"

definition simple_NewBroker :: simple_broker where
  "simple_NewBroker = fmempty"

definition simple_enqueue :: "string \<Rightarrow> string \<Rightarrow> simple_broker \<Rightarrow> QueueMsg \<times> simple_broker" where
  "simple_enqueue name payload b =
     (let msg = \<lparr>MsgId = name @ ''/'', Payload = payload\<rparr> in
      case fmlookup b name of
        Some val \<Rightarrow> (msg, fmupd name (val\<lparr>messages := messages val @ [msg]\<rparr>) b)
      | None \<Rightarrow> (msg, fmupd name \<lparr>sname = name, messages = [msg]\<rparr> b))"

definition simple_dequeue :: "string \<Rightarrow> simple_broker \<Rightarrow> QueueMsg option \<times> simple_broker" where
  "simple_dequeue name b =
     (case fmlookup b name of
        Some val \<Rightarrow>
          (case messages val of
             msg # rest \<Rightarrow> (Some msg, fmupd name (val\<lparr>messages := rest\<rparr>) b)
           | [] \<Rightarrow> (None, b))
      | None \<Rightarrow> (None, b))"

section \<open>\<open>simple-mq-2\<close>\<close>

record RingQueue = "QueueMsg ring" +
  rname :: string

type_synonym ring_broker = "(string, RingQueue) fmap"

definition newQueue :: "string \<Rightarrow> RingQueue" where
  "newQueue name = ring.extend newRing \<lparr>rname = name\<rparr>"

definition ring_NewBroker :: ring_broker where
  "ring_NewBroker = fmempty"

definition getOrCreateQueue :: "string \<Rightarrow> ring_broker \<Rightarrow> RingQueue \<times> ring_broker" where
  "getOrCreateQueue name b =
     (case fmlookup b name of
        Some q \<Rightarrow> (q, b)
      | None \<Rightarrow> (let q = newQueue name in (q, fmupd name q b)))"

definition ring_Enqueue :: "string \<Rightarrow> string \<Rightarrow> ring_broker \<Rightarrow> (QueueMsg \<times> ring_broker) option" where
  "ring_Enqueue name payload b = do {
     let msg = \<lparr>MsgId = name @ ''/'', Payload = payload\<rparr>;
     let (q, b') = getOrCreateQueue name b;
     q' \<leftarrow> Add msg q;
     Some (msg, fmupd name q' b')
   }"

definition ring_Dequeue :: "string \<Rightarrow> ring_broker \<Rightarrow> (QueueMsg option \<times> ring_broker) option" where
  "ring_Dequeue name b = do {
     let (q, b') = getOrCreateQueue name b;
     (msg, q') \<leftarrow> Pop q;
     Some (msg, fmupd name q' b')
   }"

section \<open>The HTTP handlers\<close>

text \<open>
  A response is its status code and, where the handler writes one, the message it encodes
  as JSON. The body of a request is \<open>None\<close> when reading it fails.
\<close>

datatype request = EnqueueReq string "string option" | DequeueReq string

type_synonym response = "nat \<times> QueueMsg option"

definition simple_handleEnqueue ::
    "string \<Rightarrow> string option \<Rightarrow> simple_broker \<Rightarrow> response \<times> simple_broker" where
  "simple_handleEnqueue name body b =
     (case body of
        None \<Rightarrow> ((400, None), b)
      | Some payload \<Rightarrow> ((202, None), snd (simple_enqueue name payload b)))"

definition simple_handleDequeue :: "string \<Rightarrow> simple_broker \<Rightarrow> response \<times> simple_broker" where
  "simple_handleDequeue name b =
     (case simple_dequeue name b of
        (None, b') \<Rightarrow> ((204, None), b')
      | (Some msg, b') \<Rightarrow> ((200, Some msg), b'))"

definition ring_HandleEnqueue ::
    "string \<Rightarrow> string option \<Rightarrow> ring_broker \<Rightarrow> (response \<times> ring_broker) option" where
  "ring_HandleEnqueue name body b =
     (case body of
        None \<Rightarrow> Some ((400, None), b)
      | Some payload \<Rightarrow> do { (_, b') \<leftarrow> ring_Enqueue name payload b; Some ((202, None), b') })"

definition ring_HandleDequeue :: "string \<Rightarrow> ring_broker \<Rightarrow> (response \<times> ring_broker) option" where
  "ring_HandleDequeue name b = do {
     (r, b') \<leftarrow> ring_Dequeue name b;
     Some (case r of None \<Rightarrow> (204, None) | Some msg \<Rightarrow> (200, Some msg), b')
   }"

text \<open>A server answers a sequence of requests one after another.\<close>

fun simple_serve :: "request list \<Rightarrow> simple_broker \<Rightarrow> response list" where
  "simple_serve [] b = []"
| "simple_serve (EnqueueReq n body # rs) b =
     (let (r, b') = simple_handleEnqueue n body b in r # simple_serve rs b')"
| "simple_serve (DequeueReq n # rs) b =
     (let (r, b') = simple_handleDequeue n b in r # simple_serve rs b')"

fun ring_serve :: "request list \<Rightarrow> ring_broker \<Rightarrow> response list option" where
  "ring_serve [] b = Some []"
| "ring_serve (EnqueueReq n body # rs) b =
     do { (r, b') \<leftarrow> ring_HandleEnqueue n body b; xs \<leftarrow> ring_serve rs b'; Some (r # xs) }"
| "ring_serve (DequeueReq n # rs) b =
     do { (r, b') \<leftarrow> ring_HandleDequeue n b; xs \<leftarrow> ring_serve rs b'; Some (r # xs) }"

section \<open>Refinement\<close>

text \<open>The messages waiting under a name; a queue never used holds none.\<close>

definition simple_waiting :: "simple_broker \<Rightarrow> string \<Rightarrow> QueueMsg list" where
  "simple_waiting b n = (case fmlookup b n of None \<Rightarrow> [] | Some q \<Rightarrow> messages q)"

definition ring_waiting :: "ring_broker \<Rightarrow> string \<Rightarrow> QueueMsg list" where
  "ring_waiting b n = (case fmlookup b n of None \<Rightarrow> [] | Some q \<Rightarrow> ring_contents q)"

definition ring_broker_inv :: "ring_broker \<Rightarrow> bool" where
  "ring_broker_inv b \<longleftrightarrow> (\<forall>n q. fmlookup b n = Some q \<longrightarrow> ring_inv q \<and> rname q = n)"

lemma newQueue_simps [simp]:
  "ring_inv (newQueue n)" "ring_contents (newQueue n) = []" "rname (newQueue n) = n"
  by (simp_all add: newQueue_def ring.defs newRing_def ring_inv_def ring_slots_def
      ring_contents_def initialCapacity_def)

lemma rname_more: "ring.more q' = ring.more q \<Longrightarrow> rname q' = rname q"
  by (cases q; cases q') simp

lemma ring_broker_inv_upd:
  "ring_broker_inv b \<Longrightarrow> ring_inv q \<Longrightarrow> rname q = n \<Longrightarrow> ring_broker_inv (fmupd n q b)"
  by (simp add: ring_broker_inv_def)

lemma ring_waiting_upd [simp]: "ring_waiting (fmupd n q b) = (ring_waiting b)(n := ring_contents q)"
  by (auto simp: ring_waiting_def)

lemma simple_waiting_upd [simp]: "simple_waiting (fmupd n q b) = (simple_waiting b)(n := messages q)"
  by (auto simp: simple_waiting_def)

lemma getOrCreateQueue_ok:
  assumes "ring_broker_inv b"
  shows "\<exists>q b'. getOrCreateQueue n b = (q, b') \<and> ring_inv q \<and> rname q = n \<and>
    ring_contents q = ring_waiting b n \<and> ring_broker_inv b' \<and> ring_waiting b' = ring_waiting b"
proof (cases "fmlookup b n")
  case None
  then show ?thesis
    using assms by (auto simp: getOrCreateQueue_def ring_waiting_def Let_def fun_eq_iff
        intro!: ring_broker_inv_upd)
next
  case (Some q)
  then show ?thesis
    using assms by (auto simp: getOrCreateQueue_def ring_waiting_def ring_broker_inv_def)
qed

lemma ring_Enqueue_ok:
  assumes "ring_broker_inv b"
  shows "\<exists>b'. ring_Enqueue n p b = Some (\<lparr>MsgId = n @ ''/'', Payload = p\<rparr>, b') \<and> ring_broker_inv b' \<and>
    ring_waiting b' = (ring_waiting b)(n := ring_waiting b n @ [\<lparr>MsgId = n @ ''/'', Payload = p\<rparr>])"
proof -
  obtain q b1 where q: "getOrCreateQueue n b = (q, b1)" "ring_inv q" "rname q = n"
    "ring_contents q = ring_waiting b n" "ring_broker_inv b1" "ring_waiting b1 = ring_waiting b"
    using getOrCreateQueue_ok [OF assms] by blast
  obtain q' where "Add \<lparr>MsgId = n @ ''/'', Payload = p\<rparr> q = Some q'" "ring_inv q'" "rname q' = n"
    "ring_contents q' = ring_waiting b n @ [\<lparr>MsgId = n @ ''/'', Payload = p\<rparr>]"
    using Add_contents [OF q(2)] q(3,4) rname_more by metis
  then show ?thesis
    using q by (auto simp: ring_Enqueue_def Let_def intro!: ring_broker_inv_upd)
qed

lemma ring_Dequeue_ok:
  assumes "ring_broker_inv b"
  shows "\<exists>b'. ring_broker_inv b' \<and>
    (case ring_waiting b n of
       [] \<Rightarrow> ring_Dequeue n b = Some (None, b') \<and> ring_waiting b' = ring_waiting b
     | m # ms \<Rightarrow> ring_Dequeue n b = Some (Some m, b') \<and> ring_waiting b' = (ring_waiting b)(n := ms))"
proof -
  obtain q b1 where q: "getOrCreateQueue n b = (q, b1)" "ring_inv q" "rname q = n"
    "ring_contents q = ring_waiting b n" "ring_broker_inv b1" "ring_waiting b1 = ring_waiting b"
    using getOrCreateQueue_ok [OF assms] by blast
  show ?thesis
  proof (cases "ring_waiting b n")
    case Nil
    then show ?thesis
      using q Pop_Nil [of q] by (auto simp: ring_Dequeue_def fun_upd_idem intro!: ring_broker_inv_upd)
  next
    case (Cons m ms)
    then obtain q' where "Pop q = Some (Some m, q')" "ring_inv q'" "rname q' = n" "ring_contents q' = ms"
      using Pop_Cons [OF q(2), of m ms] q(3,4) rname_more by metis
    then show ?thesis
      using q Cons by (auto simp: ring_Dequeue_def intro!: ring_broker_inv_upd)
  qed
qed

lemma simple_enqueue_waiting:
  "simple_waiting (snd (simple_enqueue n p b)) =
     (simple_waiting b)(n := simple_waiting b n @ [\<lparr>MsgId = n @ ''/'', Payload = p\<rparr>])"
  by (auto simp: simple_enqueue_def simple_waiting_def Let_def split: option.splits)

lemma simple_dequeue_waiting:
  "(case simple_waiting b n of
      [] \<Rightarrow> simple_dequeue n b = (None, b)
    | m # ms \<Rightarrow> \<exists>b'. simple_dequeue n b = (Some m, b') \<and> simple_waiting b' = (simple_waiting b)(n := ms))"
  by (auto simp: simple_dequeue_def simple_waiting_def fun_eq_iff split: option.splits list.splits)

lemma serve_refines:
  "ring_broker_inv b2 \<Longrightarrow> ring_waiting b2 = simple_waiting b1 \<Longrightarrow>
     ring_serve rs b2 = Some (simple_serve rs b1)"
proof (induction rs b1 arbitrary: b2 rule: simple_serve.induct)
  case (2 n body rs b)
  then show ?case
    using ring_Enqueue_ok [OF 2(2), of n "the body"]
    by (cases body) (fastforce simp: ring_HandleEnqueue_def simple_handleEnqueue_def simple_enqueue_waiting)+
next
  case (3 n rs b)
  then show ?case
    using ring_Dequeue_ok [OF 3(2), of n] simple_dequeue_waiting [where b = b and n = n]
    by (fastforce simp: ring_HandleDequeue_def simple_handleDequeue_def split: list.splits)
qed simp

section \<open>Properties\<close>

text \<open>
  C21. \<open>simple-mq-2\<close> never panics and answers every sequence of enqueue and dequeue requests
  with exactly the responses of \<open>simple-mq\<close>.
\<close>

theorem ring_broker_serves_as_simple:
  "ring_serve rs ring_NewBroker = Some (simple_serve rs simple_NewBroker)"
  by (rule serve_refines)
    (simp_all add: ring_broker_inv_def ring_NewBroker_def simple_NewBroker_def ring_waiting_def
      simple_waiting_def fun_eq_iff)

text \<open>The payloads accepted into a queue by a sequence of requests, and those handed out of it.\<close>

fun accepted :: "string \<Rightarrow> request list \<Rightarrow> string list" where
  "accepted n [] = []"
| "accepted n (EnqueueReq m (Some p) # rs) = (if m = n then p # accepted n rs else accepted n rs)"
| "accepted n (_ # rs) = accepted n rs"

fun handed_out :: "string \<Rightarrow> request list \<Rightarrow> response list \<Rightarrow> string list" where
  "handed_out n (DequeueReq m # rs) ((_, Some msg) # xs) =
     (if m = n then Payload msg # handed_out n rs xs else handed_out n rs xs)"
| "handed_out n (_ # rs) (_ # xs) = handed_out n rs xs"
| "handed_out n _ _ = []"

lemma handed_out_prefix:
  "prefix (handed_out n rs (simple_serve rs b)) (map Payload (simple_waiting b n) @ accepted n rs)"
proof (induction rs b rule: simple_serve.induct)
  case (2 m body rs b)
  then show ?case
    by (cases body) (auto simp: simple_handleEnqueue_def simple_enqueue_waiting split: if_splits)
next
  case (3 m rs b)
  then show ?case
    using simple_dequeue_waiting [where b = b and n = m]
    by (auto simp: simple_handleDequeue_def split: list.splits if_splits)
qed simp

text \<open>
  C22. Delivery of \<open>simple-mq\<close> is at most once and in order: what is handed out of a queue is
  always a prefix of what was accepted into it, so no message is duplicated, reordered,
  invented or moved to another queue.
\<close>

theorem simple_at_most_once_fifo:
  "prefix (handed_out n rs (simple_serve rs simple_NewBroker)) (accepted n rs)"
  using handed_out_prefix [of n rs simple_NewBroker]
  by (simp add: simple_NewBroker_def simple_waiting_def)

end
