(* ===== verification/Model.thy ===== *)
theory Model
  imports Prelude
begin

text \<open>
  The subscriber policy that \<open>push-mq\<close>, \<open>durable-mq\<close> and \<open>dist-mq\<close> share, the outcome of
  one delivery attempt, and the order in which Go's \<open>range\<close> visits a map.
\<close>

section \<open>Subscriber policies\<close>

record SubPolicy =
  SubName :: string
  SubURL :: string
  NumberOfRetries :: int

type_synonym policies = "(string, SubPolicy) fmap"

text \<open>Every policy table of the program is keyed by the subscriber's name.\<close>

definition keyed :: "policies \<Rightarrow> bool" where
  "keyed m \<longleftrightarrow> (\<forall>n p. fmlookup m n = Some p \<longrightarrow> SubName p = n)"

lemma fmupd_same: "fmlookup m a = Some x \<Longrightarrow> fmupd a x m = m"
  by (rule fmap_ext) auto

lemma keyed_empty [simp]: "keyed fmempty"
  by (simp add: keyed_def)

lemma keyed_upd [simp, intro]: "keyed m \<Longrightarrow> keyed (fmupd (SubName p) p m)"
  by (simp add: keyed_def)

lemma keyed_drop [simp, intro]: "keyed m \<Longrightarrow> keyed (fmdrop n m)"
  by (simp add: keyed_def)

lemma keyed_filter [simp, intro]: "keyed m \<Longrightarrow> keyed (fmfilter P m)"
  by (simp add: keyed_def)

section \<open>One delivery attempt\<close>

text \<open>
  The subscribers are outside the program: an HTTP client answers a request to a URL with a
  status code, or not at all. The workers of the three brokers all count any 2xx as success.
\<close>

type_synonym http = "string \<Rightarrow> string \<Rightarrow> nat option"

definition sendMsg :: "http \<Rightarrow> SubPolicy \<Rightarrow> string \<Rightarrow> bool" where
  "sendMsg http sub payload =
     (case http (SubURL sub @ ''/queue/message'') payload of
        None \<Rightarrow> False
      | Some code \<Rightarrow> if code < 200 \<or> code \<ge> 300 then False else True)"

section \<open>Ranging over a map\<close>

text \<open>
  Go leaves the order of \<open>for k := range m\<close> open, and a fan-out of goroutines reports in any
  order. A definition that depends on such an order takes it as an argument: a function
  from the set of keys to the list of keys in the order visited.
\<close>

type_synonym order = "string fset \<Rightarrow> string list"

definition visits_all :: "order \<Rightarrow> bool" where
  "visits_all ord \<longleftrightarrow> (\<forall>K. distinct (ord K) \<and> fset_of_list (ord K) = K)"

lemma visits_allD:
  assumes "visits_all ord"
  shows "distinct (ord K)" "set (ord K) = fset K"
  using assms by (simp_all add: visits_all_def flip: fset_of_list.rep_eq)

lemma visits_all_sorted: "visits_all sorted_list_of_fset"
proof -
  have "fset_of_list (sorted_list_of_fset K) = K" for K :: "string fset"
    by (rule fset_eqI) (simp add: fset_of_list.rep_eq sorted_list_of_fset.rep_eq)
  then show ?thesis
    by (simp add: visits_all_def sorted_list_of_fset.rep_eq)
qed

text \<open>\<open>len(m)\<close> of a Go map, and its keys in an order.\<close>

definition maplen :: "('k, 'v) fmap \<Rightarrow> nat" where
  "maplen m = fcard (fmdom m)"

lemma maplen_0 [simp]: "maplen m = 0 \<longleftrightarrow> m = fmempty"
  by (metis fcard_0_eq fmdom_empty fmrestrict_fset_dom fmrestrict_fset_null maplen_def)

lemma maplen_empty [simp]: "maplen fmempty = 0"
  by simp

end
