(* ===== verification/Worker.thy ===== *)
theory Worker
  imports Ring_Buffer Model
begin

text \<open>
  The part of a queue that its worker goroutine sees, common to \<open>push-mq\<close>, \<open>durable-mq\<close> and
  \<open>dist-mq\<close>: the ring buffer, the one-slot wake-up channel \<open>hasWork\<close> and the closing
  channel \<open>isClosed\<close>; and the worker's control states.
\<close>

record 'm wqueue = "'m ring" +
  hasWork :: bool
  isClosed :: bool

text \<open>
  \<open>Add\<close> of the worker queues: the ring buffer's \<open>Add\<close>, then a non-blocking send on
  \<open>hasWork\<close>, which has a buffer of one and so is full afterwards in either case.
\<close>

definition AddWake :: "'m \<Rightarrow> ('m, 'z) wqueue_scheme \<Rightarrow> ('m, 'z) wqueue_scheme option" where
  "AddWake msg q = do { q' \<leftarrow> Add msg q; Some (q'\<lparr>hasWork := True\<rparr>) }"

text \<open>Closing a closed channel panics.\<close>

definition close_chan :: "('m, 'z) wqueue_scheme \<Rightarrow> ('m, 'z) wqueue_scheme option" where
  "close_chan q = (if isClosed q then None else Some (q\<lparr>isClosed := True\<rparr>))"

lemma ring_inv_wqueue_upd [simp]:
  "ring_inv (q\<lparr>hasWork := w\<rparr>) = ring_inv q" "ring_inv (q\<lparr>isClosed := c\<rparr>) = ring_inv q"
  "ring_contents (q\<lparr>hasWork := w\<rparr>) = ring_contents q"
  "ring_contents (q\<lparr>isClosed := c\<rparr>) = ring_contents q"
  by (simp_all add: ring_inv_def ring_contents_def ring_slots_def)

lemma wqueue_more:
  assumes "ring.more q' = ring.more q"
  shows "hasWork q' = hasWork q" "isClosed q' = isClosed q" "wqueue.more q' = wqueue.more q"
  by (cases q; cases q'; use assms in simp)+

lemma AddWake_ok:
  assumes "ring_inv q"
  shows "\<exists>q'. AddWake x q = Some q' \<and> ring_inv q' \<and> ring_contents q' = ring_contents q @ [x] \<and>
    hasWork q' \<and> isClosed q' = isClosed q \<and> wqueue.more q' = wqueue.more q"
proof -
  obtain q1 where q1: "Add x q = Some q1" "ring_inv q1" "ring_contents q1 = ring_contents q @ [x]"
    "ring.more q1 = ring.more q"
    using Add_contents [OF assms] by blast
  then show ?thesis
    by (simp add: AddWake_def wqueue_more [OF q1(4)])
qed

lemma Pop_wqueue:
  assumes "ring_inv q"
  obtains r q' where "Pop q = Some (r, q')" "ring_inv q'" "ring_contents q' = tl (ring_contents q)"
    "r = (case ring_contents q of [] \<Rightarrow> None | m # _ \<Rightarrow> Some m)"
    "hasWork q' = hasWork q" "isClosed q' = isClosed q" "wqueue.more q' = wqueue.more q"
proof (cases "ring_contents q")
  case Nil
  then show ?thesis using that [of None q] Pop_Nil [of q] assms by simp
next
  case (Cons m ms)
  obtain q' where q': "Pop q = Some (Some m, q')" "ring_inv q'" "ring_contents q' = ms"
    "ring.more q' = ring.more q"
    using Pop_Cons [OF assms Cons] by blast
  show ?thesis using that [OF q'(1,2)] q'(3) Cons wqueue_more [OF q'(4)] by simp
qed

interpretation wake: fifo AddWake Pop ring_inv ring_contents
proof unfold_locales
  fix q :: "('a, 'b) wqueue_scheme" and x :: 'a and xs :: "'a list"
  assume inv: "ring_inv q"
  show "\<exists>q'. AddWake x q = Some q' \<and> ring_inv q' \<and> ring_contents q' = ring_contents q @ [x]"
    using AddWake_ok [OF inv] by blast
  show "Pop q = Some (None, q)" if "ring_contents q = []"
    using that by (rule Pop_Nil)
  show "\<exists>q'. Pop q = Some (Some x, q') \<and> ring_inv q' \<and> ring_contents q' = xs"
    if "ring_contents q = x # xs"
    using inv that by (rule ring.pop_Cons)
qed

section \<open>Control states of a worker\<close>

text \<open>
  \<open>Popping\<close>: about to pop; \<open>Taken m\<close>: holds \<open>m\<close>, about to read the pending subscribers;
  \<open>Sending m p\<close>: the fan-out to \<open>p\<close> is in progress; \<open>Selecting\<close>: blocked in \<open>select\<close>;
  \<open>Exited\<close>: returned.
\<close>

datatype 'm pc = Popping | Taken 'm | Sending 'm policies | Selecting | Exited

end
