(* ===== verification/Push_MQ.thy ===== *)
theory Push_MQ
  imports Worker
begin

text \<open>
  \<open>push-mq\<close>: the in-memory publish/subscribe broker. Its queues, their workers and the broker
  are one state; each critical section of the code is one operation on it, so the
  interleavings of HTTP handlers and workers are the sequences of these operations.
\<close>

section \<open>Messages and queues\<close>

record PushMsg =
  pmsgId :: string
  ppayload :: string
  AckedSubs :: "string fset"
  RetryMap :: "(string, nat) fmap"

record PushQueue = "PushMsg wqueue" +
  pname :: string
  SubPolicies :: policies

definition push_NewQueue :: "string \<Rightarrow> PushQueue" where
  "push_NewQueue name =
     \<lparr>qcount = 0, qhead = 0, qbuf = replicate initialCapacity None,
      hasWork = False, isClosed = False, pname = name, SubPolicies = fmempty\<rparr>"

text \<open>The identifier comes from \<open>google/uuid\<close>; it is an argument.\<close>

definition push_NewQueueMsg :: "string \<Rightarrow> string \<Rightarrow> string \<Rightarrow> PushMsg" where
  "push_NewQueueMsg uuid queueName payload =
     \<lparr>pmsgId = queueName @ ''/'' @ uuid, ppayload = payload, AckedSubs = {||}, RetryMap = fmempty\<rparr>"

definition initializeDefaultSubMetadataFields :: "SubPolicy \<Rightarrow> SubPolicy" where
  "initializeDefaultSubMetadataFields md =
     (if NumberOfRetries md < 0 then md\<lparr>NumberOfRetries := 3\<rparr> else md)"

definition isValidSubMetadata :: "SubPolicy \<Rightarrow> bool" where
  "isValidSubMetadata md =
     (if SubName md = '''' then False
      else if SubURL md = '''' then False
      else if NumberOfRetries md > 100 then False
      else True)"

datatype push_error =
    QueueExists string | TooManyQueues nat | QueueNotFound string | InvalidSubMetadata

definition queue_AddSubscriber :: "SubPolicy \<Rightarrow> PushQueue \<Rightarrow> push_error + PushQueue" where
  "queue_AddSubscriber md q =
     (if \<not> isValidSubMetadata md then Inl InvalidSubMetadata
      else let md' = initializeDefaultSubMetadataFields md
           in Inr (q\<lparr>SubPolicies := fmupd (SubName md') md' (SubPolicies q)\<rparr>))"

definition queue_UpdateSubscriber :: "SubPolicy \<Rightarrow> PushQueue \<Rightarrow> push_error + PushQueue" where
  "queue_UpdateSubscriber md q =
     (if \<not> isValidSubMetadata md then Inl InvalidSubMetadata
      else let md' = initializeDefaultSubMetadataFields md
           in Inr (q\<lparr>SubPolicies := fmupd (SubName md') md' (SubPolicies q)\<rparr>))"

definition queue_RemoveSubscriber :: "string \<Rightarrow> PushQueue \<Rightarrow> PushQueue" where
  "queue_RemoveSubscriber subName q = q\<lparr>SubPolicies := fmdrop subName (SubPolicies q)\<rparr>"

section \<open>Processing one message\<close>

text \<open>
  The first critical section of \<open>ProcessMsg\<close>: the subscribers that have not settled. The
  table \<open>policyByName\<close> holds pointers, but no policy is ever changed in place.
\<close>

definition push_pending :: "PushQueue \<Rightarrow> PushMsg \<Rightarrow> policies" where
  "push_pending q msg = fmfilter (\<lambda>name. name |\<notin>| AckedSubs msg) (SubPolicies q)"

text \<open>
  The loop over the results, in the order they arrive: the names and whether each send
  succeeded. It returns the message and \<open>anySubsRemaining\<close>; looking up a name that is not
  in \<open>policyByName\<close> would be a nil dereference, a panic.
\<close>

definition retries :: "PushMsg \<Rightarrow> string \<Rightarrow> nat" where
  "retries msg name = (case fmlookup (RetryMap msg) name of None \<Rightarrow> 0 | Some n \<Rightarrow> n)"

fun push_collect :: "policies \<Rightarrow> (string \<times> bool) list \<Rightarrow> PushMsg \<Rightarrow> bool \<Rightarrow> (PushMsg \<times> bool) option" where
  "push_collect policyByName [] msg anySubsRemaining = Some (msg, anySubsRemaining)"
| "push_collect policyByName ((name, True) # results) msg anySubsRemaining =
     push_collect policyByName results (msg\<lparr>AckedSubs := finsert name (AckedSubs msg)\<rparr>) anySubsRemaining"
| "push_collect policyByName ((name, False) # results) msg anySubsRemaining =
     (let msg' = msg\<lparr>RetryMap := fmupd name (retries msg name + 1) (RetryMap msg)\<rparr> in
      case fmlookup policyByName name of
        None \<Rightarrow> None
      | Some policy \<Rightarrow>
          if int (retries msg' name) \<ge> NumberOfRetries policy
          then push_collect policyByName results
                 (msg'\<lparr>AckedSubs := finsert name (AckedSubs msg')\<rparr>) anySubsRemaining
          else push_collect policyByName results msg' True)"

text \<open>The results of one fan-out: one send per pending policy, reported in some order.\<close>

definition push_results :: "http \<Rightarrow> order \<Rightarrow> policies \<Rightarrow> PushMsg \<Rightarrow> (string \<times> bool) list" where
  "push_results http ord policyByName msg =
     map (\<lambda>n. let sub = the (fmlookup policyByName n) in (SubName sub, sendMsg http sub (ppayload msg)))
       (ord (fmdom policyByName))"

text \<open>The second half of \<open>ProcessMsg\<close>: collect the results and requeue what remains.\<close>

definition push_settle ::
    "http \<Rightarrow> order \<Rightarrow> policies \<Rightarrow> PushMsg \<Rightarrow> PushQueue \<Rightarrow> PushQueue option" where
  "push_settle http ord policyByName msg q = do {
     (msg', anySubsRemaining) \<leftarrow>
       push_collect policyByName (push_results http ord policyByName msg) msg False;
     if anySubsRemaining then AddWake msg' q else Some q
   }"

definition push_ProcessMsg :: "http \<Rightarrow> order \<Rightarrow> PushMsg \<Rightarrow> PushQueue \<Rightarrow> PushQueue option" where
  "push_ProcessMsg http ord msg q =
     (let policyByName = push_pending q msg in
      if maplen policyByName = 0 then Some q
      else push_settle http ord policyByName msg q)"

section \<open>The broker\<close>

text \<open>
  Queues are heap objects: the broker's table maps names to addresses, and a worker keeps
  its queue after the broker has dropped it.
\<close>

record push_state =
  queues :: "(string, nat) fmap"
  numQueues :: nat
  heap :: "(nat, PushQueue) fmap"
  workers :: "(nat, PushMsg pc) fmap"
  nextAddr :: nat

type_synonym push_result = "(push_error + push_state) option"

definition push_NewBroker :: push_state where
  "push_NewBroker = \<lparr>queues = fmempty, numQueues = 0, heap = fmempty, workers = fmempty, nextAddr = 0\<rparr>"

definition getQueue :: "string \<Rightarrow> push_state \<Rightarrow> push_error + nat" where
  "getQueue name s = (case fmlookup (queues s) name of None \<Rightarrow> Inl (QueueNotFound name) | Some a \<Rightarrow> Inr a)"

definition push_CreateQueue :: "string \<Rightarrow> push_state \<Rightarrow> push_result" where
  "push_CreateQueue name s =
     (if name |\<in>| fmdom (queues s) then Some (Inl (QueueExists name))
      else if numQueues s \<ge> 128 then Some (Inl (TooManyQueues (numQueues s)))
      else let a = nextAddr s in
        Some (Inr (s\<lparr>queues := fmupd name a (queues s), numQueues := numQueues s + 1,
          heap := fmupd a (push_NewQueue name) (heap s),
          workers := fmupd a Popping (workers s), nextAddr := a + 1\<rparr>)))"

definition push_DeleteQueue :: "string \<Rightarrow> push_state \<Rightarrow> push_state option" where
  "push_DeleteQueue name s =
     (case fmlookup (queues s) name of
        None \<Rightarrow> Some s
      | Some a \<Rightarrow> do {
          q \<leftarrow> fmlookup (heap s) a;
          q' \<leftarrow> close_chan q;
          Some (s\<lparr>queues := fmdrop name (queues s), numQueues := numQueues s - 1,
            heap := fmupd a q' (heap s)\<rparr>)
        })"

definition push_Enqueue :: "string \<Rightarrow> string \<Rightarrow> string \<Rightarrow> push_state \<Rightarrow> push_result" where
  "push_Enqueue uuid name payload s =
     (let msg = push_NewQueueMsg uuid name payload in
      case getQueue name s of
        Inl e \<Rightarrow> Some (Inl e)
      | Inr a \<Rightarrow> do {
          q \<leftarrow> fmlookup (heap s) a;
          q' \<leftarrow> AddWake msg q;
          Some (Inr (s\<lparr>heap := fmupd a q' (heap s)\<rparr>))
        })"

definition push_AddSubscriber :: "SubPolicy \<Rightarrow> string \<Rightarrow> push_state \<Rightarrow> push_result" where
  "push_AddSubscriber md queueName s =
     (case getQueue queueName s of
        Inl e \<Rightarrow> Some (Inl e)
      | Inr a \<Rightarrow> do {
          q \<leftarrow> fmlookup (heap s) a;
          Some (case queue_AddSubscriber md q of
              Inl e \<Rightarrow> Inl e
            | Inr q' \<Rightarrow> Inr (s\<lparr>heap := fmupd a q' (heap s)\<rparr>))
        })"

definition push_UpdateSubscriber :: "SubPolicy \<Rightarrow> string \<Rightarrow> push_state \<Rightarrow> push_result" where
  "push_UpdateSubscriber md queueName s =
     (case getQueue queueName s of
        Inl e \<Rightarrow> Some (Inl e)
      | Inr a \<Rightarrow> do {
          q \<leftarrow> fmlookup (heap s) a;
          Some (case queue_UpdateSubscriber md q of
              Inl e \<Rightarrow> Inl e
            | Inr q' \<Rightarrow> Inr (s\<lparr>heap := fmupd a q' (heap s)\<rparr>))
        })"

definition push_RemoveSubscriber :: "string \<Rightarrow> string \<Rightarrow> push_state \<Rightarrow> push_result" where
  "push_RemoveSubscriber subName queueName s =
     (case getQueue queueName s of
        Inl e \<Rightarrow> Some (Inl e)
      | Inr a \<Rightarrow> do {
          q \<leftarrow> fmlookup (heap s) a;
          Some (Inr (s\<lparr>heap := fmupd a (queue_RemoveSubscriber subName q) (heap s)\<rparr>))
        })"

section \<open>Workers and interleavings\<close>

text \<open>
  One step of the worker of the queue at address \<open>a\<close> (\<open>RunQueueWorker\<close>): up to its next
  critical section, channel operation or end of a fan-out. When both channels are ready
  \<open>select\<close> picks either; \<open>pick\<close> is its choice. A worker that cannot move stays where it is.
\<close>

definition push_worker :: "http \<Rightarrow> order \<Rightarrow> bool \<Rightarrow> nat \<Rightarrow> push_state \<Rightarrow> push_state option" where
  "push_worker http ord pick a s =
     (case (fmlookup (heap s) a, fmlookup (workers s) a) of
        (Some q, Some Popping) \<Rightarrow> do {
          (r, q') \<leftarrow> Pop q;
          Some (s\<lparr>heap := fmupd a q' (heap s),
            workers := fmupd a (case r of None \<Rightarrow> Selecting | Some m \<Rightarrow> Taken m) (workers s)\<rparr>)
        }
      | (Some q, Some (Taken m)) \<Rightarrow>
          (let policyByName = push_pending q m in
           Some (s\<lparr>workers :=
             fmupd a (if maplen policyByName = 0 then Popping else Sending m policyByName) (workers s)\<rparr>))
      | (Some q, Some (Sending m policyByName)) \<Rightarrow> do {
          q' \<leftarrow> push_settle http ord policyByName m q;
          Some (s\<lparr>heap := fmupd a q' (heap s), workers := fmupd a Popping (workers s)\<rparr>)
        }
      | (Some q, Some Selecting) \<Rightarrow>
          if hasWork q \<and> (pick \<or> \<not> isClosed q)
          then Some (s\<lparr>heap := fmupd a (q\<lparr>hasWork := False\<rparr>) (heap s),
                 workers := fmupd a Popping (workers s)\<rparr>)
          else if isClosed q then Some (s\<lparr>workers := fmupd a Exited (workers s)\<rparr>)
          else Some s
      | _ \<Rightarrow> Some s)"

datatype push_event =
    CreateEv string | DeleteEv string | EnqueueEv string string string
  | AddSubEv SubPolicy string | UpdateSubEv SubPolicy string | RemoveSubEv string string
  | WorkerEv http order bool nat

text \<open>A refused request leaves the state as it is; \<open>None\<close> is a panic.\<close>

definition accept :: "push_state \<Rightarrow> push_result \<Rightarrow> push_state option" where
  "accept s r = map_option (case_sum (\<lambda>_. s) (\<lambda>s'. s')) r"

fun push_step :: "push_event \<Rightarrow> push_state \<Rightarrow> push_state option" where
  "push_step (CreateEv n) s = accept s (push_CreateQueue n s)"
| "push_step (DeleteEv n) s = push_DeleteQueue n s"
| "push_step (EnqueueEv u n p) s = accept s (push_Enqueue u n p s)"
| "push_step (AddSubEv md n) s = accept s (push_AddSubscriber md n s)"
| "push_step (UpdateSubEv md n) s = accept s (push_UpdateSubscriber md n s)"
| "push_step (RemoveSubEv sub n) s = accept s (push_RemoveSubscriber sub n s)"
| "push_step (WorkerEv http ord pick a) s = push_worker http ord pick a s"

text \<open>Go's runtime visits every key of a map and every goroutine of a fan-out reports.\<close>

fun event_ok :: "push_event \<Rightarrow> bool" where
  "event_ok (WorkerEv http ord pick a) = visits_all ord"
| "event_ok _ = True"

inductive push_reachable :: "push_state \<Rightarrow> bool" where
  start: "push_reachable push_NewBroker"
| step: "push_reachable s \<Longrightarrow> event_ok e \<Longrightarrow> push_step e s = Some s' \<Longrightarrow> push_reachable s'"

fun push_run :: "push_event list \<Rightarrow> push_state \<Rightarrow> push_state option" where
  "push_run [] s = Some s"
| "push_run (e # es) s = do { s' \<leftarrow> push_step e s; push_run es s' }"

lemma push_run_reachable:
  "push_reachable s \<Longrightarrow> \<forall>e \<in> set es. event_ok e \<Longrightarrow> push_run es s = Some s' \<Longrightarrow> push_reachable s'"
  by (induction es arbitrary: s) (auto intro: push_reachable.step split: bind_splits)

section \<open>Settling the results of a fan-out\<close>

definition gives_up :: "policies \<Rightarrow> PushMsg \<Rightarrow> string \<Rightarrow> bool" where
  "gives_up pol msg n \<longleftrightarrow> int (retries msg n + 1) \<ge> NumberOfRetries (the (fmlookup pol n))"

lemma retries_upd [simp]:
  "retries (msg\<lparr>RetryMap := fmupd n k (RetryMap msg)\<rparr>) = (retries msg)(n := k)"
  "retries (msg\<lparr>AckedSubs := A\<rparr>) = retries msg"
  by (auto simp: retries_def)

lemma push_collect_spec:
  assumes "distinct (map fst rs)" "fst ` set rs \<subseteq> fset (fmdom pol)"
  shows "\<exists>msg'. push_collect pol rs msg b =
      Some (msg', b \<or> (\<exists>n. (n, False) \<in> set rs \<and> \<not> gives_up pol msg n)) \<and>
    (\<forall>n. n |\<in>| AckedSubs msg' \<longleftrightarrow>
       n |\<in>| AckedSubs msg \<or> (n, True) \<in> set rs \<or> (n, False) \<in> set rs \<and> gives_up pol msg n) \<and>
    (\<forall>n. retries msg' n = (if (n, False) \<in> set rs then retries msg n + 1 else retries msg n)) \<and>
    pmsgId msg' = pmsgId msg \<and> ppayload msg' = ppayload msg"
  using assms
proof (induction pol rs msg b rule: push_collect.induct)
  case (2 pol name rs msg b)
  then obtain msg' where "push_collect pol rs (msg\<lparr>AckedSubs := finsert name (AckedSubs msg)\<rparr>) b =
      Some (msg', b \<or> (\<exists>n. (n, False) \<in> set rs \<and> \<not> gives_up pol msg n))"
    "\<forall>n. n |\<in>| AckedSubs msg' \<longleftrightarrow>
       n = name \<or> n |\<in>| AckedSubs msg \<or> (n, True) \<in> set rs \<or> (n, False) \<in> set rs \<and> gives_up pol msg n"
    "\<forall>n. retries msg' n = (if (n, False) \<in> set rs then retries msg n + 1 else retries msg n)"
    "pmsgId msg' = pmsgId msg" "ppayload msg' = ppayload msg"
    by (auto simp: gives_up_def)
  then show ?case by auto
next
  case (3 pol name rs msg b)
  let ?m = "msg\<lparr>RetryMap := fmupd name (retries msg name + 1) (RetryMap msg)\<rparr>"
  have fresh: "(name, c) \<notin> set rs" for c
    using "3.prems"(1) by (force simp: image_iff)
  then have same: "(n, False) \<in> set rs \<Longrightarrow> gives_up pol ?m n = gives_up pol msg n" for n
    by (auto simp: gives_up_def)
  obtain policy where pol: "fmlookup pol name = Some policy"
    using "3.prems"(2) by (auto simp: fmlookup_dom_iff)
  show ?case
  proof (cases "gives_up pol msg name")
    case True
    then have "int (retries ?m name) \<ge> NumberOfRetries policy"
      using pol by (simp add: gives_up_def)
    then show ?thesis
      using "3.IH"(1) [OF refl pol] "3.prems" pol fresh same True
      by (fastforce simp: Let_def gives_up_def)
  next
    case False
    then have "\<not> int (retries ?m name) \<ge> NumberOfRetries policy"
      using pol by (simp add: gives_up_def)
    then show ?thesis
      using "3.IH"(2) [OF refl pol] "3.prems" pol fresh same False
      by (fastforce simp: Let_def gives_up_def)
  qed
qed simp

text \<open>A subscriber settles in a pass when its send succeeds or its attempts are used up.\<close>

definition settles :: "http \<Rightarrow> policies \<Rightarrow> PushMsg \<Rightarrow> string \<Rightarrow> bool" where
  "settles http pol msg n \<longleftrightarrow>
     sendMsg http (the (fmlookup pol n)) (ppayload msg) \<or> gives_up pol msg n"

lemma push_results_mem:
  assumes "keyed pol" "visits_all ord"
  shows "(n, b) \<in> set (push_results http ord pol msg) \<longleftrightarrow>
    n |\<in>| fmdom pol \<and> b = sendMsg http (the (fmlookup pol n)) (ppayload msg)"
  using assms
  by (force simp: push_results_def Let_def visits_allD fmlookup_dom_iff keyed_def image_iff)

lemma push_results_names:
  assumes "keyed pol" "visits_all ord"
  shows "map fst (push_results http ord pol msg) = ord (fmdom pol)"
proof -
  have "SubName (the (fmlookup pol n)) = n" if "n \<in> set (ord (fmdom pol))" for n
    using that assms by (auto simp: visits_allD keyed_def fmlookup_dom_iff)
  then show ?thesis
    by (simp add: push_results_def Let_def comp_def map_idI)
qed

lemma push_collect_results:
  assumes "keyed pol" "visits_all ord"
  shows "\<exists>msg'. push_collect pol (push_results http ord pol msg) msg False =
      Some (msg', \<exists>n. n |\<in>| fmdom pol \<and> \<not> settles http pol msg n) \<and>
    (\<forall>n. n |\<in>| AckedSubs msg' \<longleftrightarrow>
       n |\<in>| AckedSubs msg \<or> n |\<in>| fmdom pol \<and> settles http pol msg n) \<and>
    (\<forall>n. retries msg' n = (if n |\<in>| fmdom pol \<and>
       \<not> sendMsg http (the (fmlookup pol n)) (ppayload msg) then retries msg n + 1 else retries msg n)) \<and>
    pmsgId msg' = pmsgId msg \<and> ppayload msg' = ppayload msg"
proof -
  have "distinct (map fst (push_results http ord pol msg))"
    using assms by (simp add: push_results_names visits_allD)
  moreover have "fst ` set (push_results http ord pol msg) \<subseteq> fset (fmdom pol)"
    using push_results_names [OF assms] visits_allD(2) [OF assms(2)]
    by (metis list.set_map order_refl)
  ultimately show ?thesis
    using push_collect_spec [of "push_results http ord pol msg" pol msg False]
    by (auto simp: push_results_mem [OF assms] settles_def)
qed

section \<open>The invariant\<close>

text \<open>
  No subscriber of a message has failed more than 100 times, and one that has not settled
  has failed fewer than 100 times.
\<close>

definition msg_ok :: "PushMsg \<Rightarrow> bool" where
  "msg_ok m \<longleftrightarrow> (\<forall>n. retries m n \<le> 100 \<and> (n |\<notin>| AckedSubs m \<longrightarrow> retries m n < 100))"

definition policies_ok :: "policies \<Rightarrow> bool" where
  "policies_ok pol \<longleftrightarrow> keyed pol \<and>
     (\<forall>n p. fmlookup pol n = Some p \<longrightarrow>
        SubName p \<noteq> [] \<and> SubURL p \<noteq> [] \<and> 0 \<le> NumberOfRetries p \<and> NumberOfRetries p \<le> 100)"

fun pc_ok :: "PushMsg pc \<Rightarrow> bool" where
  "pc_ok (Taken m) = msg_ok m"
| "pc_ok (Sending m pol) = (msg_ok m \<and> policies_ok pol \<and> (\<forall>n. n |\<in>| fmdom pol \<longrightarrow> n |\<notin>| AckedSubs m))"
| "pc_ok _ = True"

definition cell_ok :: "PushQueue \<Rightarrow> PushMsg pc \<Rightarrow> bool" where
  "cell_ok q w \<longleftrightarrow> ring_inv q \<and> policies_ok (SubPolicies q) \<and>
     (\<forall>m \<in> set (ring_contents q). msg_ok m) \<and> pc_ok w \<and>
     (w = Selecting \<longrightarrow> ring_contents q \<noteq> [] \<longrightarrow> hasWork q) \<and> (w = Exited \<longrightarrow> isClosed q)"

definition heap_ok :: "push_state \<Rightarrow> nat \<Rightarrow> bool" where
  "heap_ok s a \<longleftrightarrow>
     (case (fmlookup (heap s) a, fmlookup (workers s) a) of
        (None, None) \<Rightarrow> True
      | (Some q, Some w) \<Rightarrow> a < nextAddr s \<and> cell_ok q w \<and>
          (\<not> isClosed q \<longrightarrow> fmlookup (queues s) (pname q) = Some a)
      | _ \<Rightarrow> False)"

definition push_inv :: "push_state \<Rightarrow> bool" where
  "push_inv s \<longleftrightarrow> numQueues s = fcard (fmdom (queues s)) \<and> numQueues s \<le> 128 \<and>
     (\<forall>n a. fmlookup (queues s) n = Some a \<longrightarrow>
        (\<exists>q. fmlookup (heap s) a = Some q \<and> pname q = n \<and> \<not> isClosed q)) \<and>
     (\<forall>a. heap_ok s a)"

lemma pname_more: "wqueue.more q' = wqueue.more q \<Longrightarrow> pname q' = pname q \<and> SubPolicies q' = SubPolicies q"
  by (cases q; cases q') simp

lemma push_inv_cell:
  assumes "push_inv s" "fmlookup (heap s) a = Some q"
  obtains w where "fmlookup (workers s) a = Some w" "cell_ok q w" "a < nextAddr s"
proof -
  have "heap_ok s a" using assms(1) by (simp add: push_inv_def)
  with assms(2) show ?thesis
    by (auto simp: heap_ok_def split: option.splits intro: that)
qed

lemma push_inv_queue:
  assumes "push_inv s" "fmlookup (queues s) n = Some a"
  obtains q w where "fmlookup (heap s) a = Some q" "fmlookup (workers s) a = Some w" "cell_ok q w"
    "pname q = n" "\<not> isClosed q"
  using assms push_inv_cell [OF assms(1)] unfolding push_inv_def by metis

text \<open>An operation on one queue and its worker keeps the invariant if it keeps the cell's.\<close>

lemma push_inv_upd:
  assumes "push_inv s" "fmlookup (heap s) a = Some q" "cell_ok q' w'"
    "pname q' = pname q" "isClosed q' = isClosed q"
  shows "push_inv (s\<lparr>heap := fmupd a q' (heap s), workers := fmupd a w' (workers s)\<rparr>)"
proof -
  have old: "heap_ok s b" for b using assms(1) by (simp add: push_inv_def)
  have "heap_ok (s\<lparr>heap := fmupd a q' (heap s), workers := fmupd a w' (workers s)\<rparr>) b" for b
    using old [of b] assms by (auto simp: heap_ok_def split: option.splits)
  moreover have "\<exists>r. fmlookup (fmupd a q' (heap s)) b = Some r \<and> pname r = n \<and> \<not> isClosed r"
    if "fmlookup (queues s) n = Some b" for n b
    using that assms unfolding push_inv_def by (metis fmupd_lookup option.inject)
  ultimately show ?thesis
    using assms(1) unfolding push_inv_def by (auto simp del: fmupd_lookup)
qed

lemma push_inv_upd_heap:
  assumes "push_inv s" "fmlookup (heap s) a = Some q" "fmlookup (workers s) a = Some w" "cell_ok q' w"
    "pname q' = pname q" "isClosed q' = isClosed q"
  shows "push_inv (s\<lparr>heap := fmupd a q' (heap s)\<rparr>)"
  using push_inv_upd [OF assms(1,2,4,5,6)] assms(3) by (simp add: fmupd_same)

lemma push_inv_upd_worker:
  assumes "push_inv s" "fmlookup (heap s) a = Some q" "cell_ok q w'"
  shows "push_inv (s\<lparr>workers := fmupd a w' (workers s)\<rparr>)"
  using push_inv_upd [OF assms(1,2,3) refl refl] assms(2) by (simp add: fmupd_same)

lemma policies_ok_upd:
  assumes "policies_ok pol" "isValidSubMetadata md"
  shows "policies_ok (let md' = initializeDefaultSubMetadataFields md in fmupd (SubName md') md' pol)"
  using assms
  by (auto simp: policies_ok_def isValidSubMetadata_def initializeDefaultSubMetadataFields_def
      keyed_def Let_def split: if_splits)

lemma policies_ok_drop: "policies_ok pol \<Longrightarrow> policies_ok (fmdrop n pol)"
  by (auto simp: policies_ok_def keyed_def)

lemma policies_ok_filter: "policies_ok pol \<Longrightarrow> policies_ok (fmfilter P pol)"
  by (auto simp: policies_ok_def keyed_def)

lemma ring_upd_policies [simp]:
  "ring_inv (q\<lparr>SubPolicies := p\<rparr>) = ring_inv q" "ring_contents (q\<lparr>SubPolicies := p\<rparr>) = ring_contents q"
  by (simp_all add: ring_inv_def ring_contents_def ring_slots_def)

lemma cell_ok_policies: "cell_ok q w \<Longrightarrow> policies_ok p \<Longrightarrow> cell_ok (q\<lparr>SubPolicies := p\<rparr>) w"
  by (simp add: cell_ok_def)

lemma msg_ok_new: "msg_ok (push_NewQueueMsg u n p)"
  by (simp add: msg_ok_def push_NewQueueMsg_def retries_def)

lemma cell_ok_AddWake:
  assumes "cell_ok q w" "msg_ok m" "w \<noteq> Exited"
  shows "\<exists>q'. AddWake m q = Some q' \<and> cell_ok q' w \<and> pname q' = pname q \<and> isClosed q' = isClosed q"
proof -
  have "ring_inv q" using assms(1) by (simp add: cell_ok_def)
  from AddWake_ok [OF this, of m]
  obtain q' where q': "AddWake m q = Some q'" "ring_inv q'" "ring_contents q' = ring_contents q @ [m]"
    "hasWork q'" "isClosed q' = isClosed q" "wqueue.more q' = wqueue.more q"
    by (elim exE conjE)
  have same: "pname q' = pname q" "SubPolicies q' = SubPolicies q"
    using pname_more [OF q'(6)] by simp_all
  then have "cell_ok q' w"
    using assms q'(2-4) by (simp add: cell_ok_def)
  with q'(1,5) same(1) show ?thesis by blast
qed

text \<open>The second half of \<open>ProcessMsg\<close> never panics and keeps the retry bound.\<close>

lemma msg_ok_collect:
  assumes "msg_ok m" "policies_ok pol" "\<forall>n. n |\<in>| fmdom pol \<longrightarrow> n |\<notin>| AckedSubs m"
    "\<forall>n. n |\<in>| AckedSubs m' \<longleftrightarrow> n |\<in>| AckedSubs m \<or> n |\<in>| fmdom pol \<and> settles http pol m n"
    "\<forall>n. retries m' n = (if n |\<in>| fmdom pol \<and>
       \<not> sendMsg http (the (fmlookup pol n)) (ppayload m) then retries m n + 1 else retries m n)"
  shows "msg_ok m'"
  unfolding msg_ok_def
proof (intro allI conjI impI)
  fix n
  have lt: "n |\<in>| fmdom pol \<Longrightarrow> retries m n < 100" using assms(1,3) by (auto simp: msg_ok_def)
  then show "retries m' n \<le> 100" using assms(1,5) by (auto simp: msg_ok_def)
  assume "n |\<notin>| AckedSubs m'"
  then have n: "n |\<notin>| AckedSubs m" "n |\<in>| fmdom pol \<Longrightarrow> \<not> settles http pol m n"
    using assms(4) by auto
  show "retries m' n < 100"
  proof (cases "n |\<in>| fmdom pol")
    case True
    then obtain p where p: "fmlookup pol n = Some p" by (auto simp: fmlookup_dom_iff)
    then have "int (retries m n + 1) < NumberOfRetries p" "NumberOfRetries p \<le> 100"
      using n(2) True assms(2) by (auto simp: settles_def gives_up_def policies_ok_def)
    then show ?thesis using assms(5) lt True by auto
  next
    case False
    then show ?thesis using assms(1,5) n(1) by (auto simp: msg_ok_def)
  qed
qed

lemma push_settle_ok:
  assumes "cell_ok q (Sending m pol)" "visits_all ord"
  shows "\<exists>q'. push_settle http ord pol m q = Some q' \<and> cell_ok q' Popping \<and> pname q' = pname q \<and>
    isClosed q' = isClosed q"
proof -
  have ok: "msg_ok m" "policies_ok pol" "\<forall>n. n |\<in>| fmdom pol \<longrightarrow> n |\<notin>| AckedSubs m"
    using assms(1) by (auto simp: cell_ok_def)
  then have "keyed pol" by (simp add: policies_ok_def)
  then obtain m' where m': "push_collect pol (push_results http ord pol m) m False =
      Some (m', \<exists>n. n |\<in>| fmdom pol \<and> \<not> settles http pol m n)"
    "\<forall>n. n |\<in>| AckedSubs m' \<longleftrightarrow> n |\<in>| AckedSubs m \<or> n |\<in>| fmdom pol \<and> settles http pol m n"
    "\<forall>n. retries m' n = (if n |\<in>| fmdom pol \<and>
       \<not> sendMsg http (the (fmlookup pol n)) (ppayload m) then retries m n + 1 else retries m n)"
    using push_collect_results [OF _ assms(2), of pol http m] by blast
  have "msg_ok m'" using msg_ok_collect [OF ok m'(2,3)] .
  moreover have cell: "cell_ok q Popping" using assms(1) by (simp add: cell_ok_def)
  ultimately obtain q' where "AddWake m' q = Some q'" "cell_ok q' Popping" "pname q' = pname q"
    "isClosed q' = isClosed q"
    using cell_ok_AddWake by blast
  with cell show ?thesis by (simp add: push_settle_def m'(1))
qed

section \<open>Every step keeps the invariant and none panics\<close>

lemma push_inv_init: "push_inv push_NewBroker"
  by (simp add: push_inv_def push_NewBroker_def heap_ok_def)

lemma cell_ok_new: "cell_ok (push_NewQueue n) Popping"
  by (simp add: cell_ok_def push_NewQueue_def ring_inv_def ring_contents_def ring_slots_def
      initialCapacity_def policies_ok_def)

lemma push_CreateQueue_inv:
  assumes "push_inv s"
  shows "\<exists>s'. accept s (push_CreateQueue n s) = Some s' \<and> push_inv s'"
proof (cases "n |\<in>| fmdom (queues s) \<or> numQueues s \<ge> 128")
  case True
  with assms show ?thesis by (auto simp: push_CreateQueue_def accept_def)
next
  case False
  let ?a = "nextAddr s"
  let ?s = "s\<lparr>queues := fmupd n ?a (queues s), numQueues := numQueues s + 1,
    heap := fmupd ?a (push_NewQueue n) (heap s), workers := fmupd ?a Popping (workers s), nextAddr := ?a + 1\<rparr>"
  have old: "heap_ok s b" for b using assms by (simp add: push_inv_def)
  have fresh: "fmlookup (heap s) ?a = None"
    using old [of ?a] by (auto simp: heap_ok_def split: option.splits)
  have "heap_ok ?s b" for b
    using old [of b] False cell_ok_new [of n]
    by (auto simp: heap_ok_def push_NewQueue_def fmlookup_dom_iff split: option.splits)
  moreover have "\<exists>r. fmlookup (heap ?s) b = Some r \<and> pname r = m \<and> \<not> isClosed r"
    if "fmlookup (queues ?s) m = Some b" for m b
    using that assms fresh by (fastforce simp: push_inv_def push_NewQueue_def split: if_splits)
  ultimately have "push_inv ?s"
    using assms False by (simp add: push_inv_def fcard_finsert_if)
  then show ?thesis
    using False by (simp add: push_CreateQueue_def accept_def Let_def)
qed

lemma push_DeleteQueue_inv:
  assumes "push_inv s"
  shows "\<exists>s'. push_DeleteQueue n s = Some s' \<and> push_inv s'"
proof (cases "fmlookup (queues s) n")
  case None
  with assms show ?thesis by (simp add: push_DeleteQueue_def)
next
  case (Some a)
  obtain q w where q: "fmlookup (heap s) a = Some q" "fmlookup (workers s) a = Some w" "cell_ok q w"
    "pname q = n" "\<not> isClosed q"
    using push_inv_queue [OF assms Some] .
  let ?s = "s\<lparr>queues := fmdrop n (queues s), numQueues := numQueues s - 1,
    heap := fmupd a (q\<lparr>isClosed := True\<rparr>) (heap s)\<rparr>"
  have old: "heap_ok s b" for b using assms by (simp add: push_inv_def)
  have cell: "cell_ok (q\<lparr>isClosed := True\<rparr>) w" using q(3) by (simp add: cell_ok_def)
  have "heap_ok ?s b" for b
    using old [of b] Some q cell by (auto simp: heap_ok_def split: option.splits)
  moreover have "\<exists>r. fmlookup (heap ?s) b = Some r \<and> pname r = m \<and> \<not> isClosed r"
    if "fmlookup (queues ?s) m = Some b" for m b
    using that assms q(1,4) by (fastforce simp: push_inv_def split: if_splits)
  moreover have "n |\<in>| fmdom (queues s)" using Some by (simp add: fmlookup_dom_iff)
  then have "fcard (fmdom (queues s) - {|n|}) = fcard (fmdom (queues s)) - 1"
    by (simp add: fcard_fminus_finsert)
  ultimately have "push_inv ?s"
    using assms by (simp add: push_inv_def le_diff_conv)
  then show ?thesis
    using q Some by (simp add: push_DeleteQueue_def close_chan_def)
qed

lemma push_Enqueue_inv:
  assumes "push_inv s"
  shows "\<exists>s'. accept s (push_Enqueue u n p s) = Some s' \<and> push_inv s'"
proof (cases "fmlookup (queues s) n")
  case None
  with assms show ?thesis by (simp add: push_Enqueue_def getQueue_def accept_def)
next
  case (Some a)
  obtain q w where q: "fmlookup (heap s) a = Some q" "fmlookup (workers s) a = Some w" "cell_ok q w"
    "pname q = n" "\<not> isClosed q"
    using push_inv_queue [OF assms Some] .
  have "w \<noteq> Exited" using q(3,5) by (auto simp: cell_ok_def)
  then obtain q' where q': "AddWake (push_NewQueueMsg u n p) q = Some q'" "cell_ok q' w"
    "pname q' = pname q" "isClosed q' = isClosed q"
    using cell_ok_AddWake [OF q(3) msg_ok_new] by blast
  have "push_inv (s\<lparr>heap := fmupd a q' (heap s)\<rparr>)"
    using push_inv_upd_heap [OF assms q(1,2) q'(2-4)] .
  then show ?thesis
    using Some q(1) q'(1) by (simp add: push_Enqueue_def getQueue_def accept_def)
qed

lemma push_inv_policies:
  assumes "push_inv s" "fmlookup (queues s) n = Some a"
  obtains q where "fmlookup (heap s) a = Some q" "policies_ok (SubPolicies q)"
    "\<forall>pol. policies_ok pol \<longrightarrow> push_inv (s\<lparr>heap := fmupd a (q\<lparr>SubPolicies := pol\<rparr>) (heap s)\<rparr>)"
proof -
  obtain q w where q: "fmlookup (heap s) a = Some q" "fmlookup (workers s) a = Some w" "cell_ok q w"
    using push_inv_queue [OF assms] by blast
  have "push_inv (s\<lparr>heap := fmupd a (q\<lparr>SubPolicies := pol\<rparr>) (heap s)\<rparr>)" if "policies_ok pol" for pol
    by (rule push_inv_upd_heap [OF assms(1) q(1,2) cell_ok_policies [OF q(3) that]]) simp_all
  moreover have "policies_ok (SubPolicies q)" using q(3) by (simp add: cell_ok_def)
  ultimately show ?thesis using that [OF q(1)] by blast
qed

lemmas subscriber_defs = push_AddSubscriber_def push_UpdateSubscriber_def push_RemoveSubscriber_def
  queue_AddSubscriber_def queue_UpdateSubscriber_def queue_RemoveSubscriber_def getQueue_def accept_def

lemma push_subscriber_inv:
  assumes inv: "push_inv s"
  shows "\<exists>s'. accept s (push_AddSubscriber md n s) = Some s' \<and> push_inv s'"
    and "\<exists>s'. accept s (push_UpdateSubscriber md n s) = Some s' \<and> push_inv s'"
    and "\<exists>s'. accept s (push_RemoveSubscriber sub n s) = Some s' \<and> push_inv s'"
proof (atomize(full), cases "fmlookup (queues s) n")
  case None
  with inv show "(\<exists>s'. accept s (push_AddSubscriber md n s) = Some s' \<and> push_inv s') \<and>
    (\<exists>s'. accept s (push_UpdateSubscriber md n s) = Some s' \<and> push_inv s') \<and>
    (\<exists>s'. accept s (push_RemoveSubscriber sub n s) = Some s' \<and> push_inv s')"
    by (simp add: subscriber_defs)
next
  case (Some a)
  obtain q where q: "fmlookup (heap s) a = Some q" "policies_ok (SubPolicies q)"
    "\<forall>pol. policies_ok pol \<longrightarrow> push_inv (s\<lparr>heap := fmupd a (q\<lparr>SubPolicies := pol\<rparr>) (heap s)\<rparr>)"
    by (rule push_inv_policies [OF inv Some])
  have "isValidSubMetadata md \<Longrightarrow> push_inv (s\<lparr>heap := fmupd a (q\<lparr>SubPolicies :=
      let md' = initializeDefaultSubMetadataFields md in fmupd (SubName md') md' (SubPolicies q)\<rparr>) (heap s)\<rparr>)"
    using q(3) policies_ok_upd [OF q(2)] by blast
  with inv q(1) q(3) [rule_format, OF policies_ok_drop [OF q(2)]] Some
  show "(\<exists>s'. accept s (push_AddSubscriber md n s) = Some s' \<and> push_inv s') \<and>
    (\<exists>s'. accept s (push_UpdateSubscriber md n s) = Some s' \<and> push_inv s') \<and>
    (\<exists>s'. accept s (push_RemoveSubscriber sub n s) = Some s' \<and> push_inv s')"
    by (simp add: subscriber_defs Let_def)
qed

lemma push_worker_inv:
  assumes "push_inv s" "visits_all ord"
  shows "\<exists>s'. push_worker http ord pick a s = Some s' \<and> push_inv s'"
proof (cases "fmlookup (heap s) a")
  case None
  with assms(1) show ?thesis by (simp add: push_worker_def)
next
  case (Some q)
  obtain w where w: "fmlookup (workers s) a = Some w" "cell_ok q w"
    using push_inv_cell [OF assms(1) Some] by blast
  note upd = push_inv_upd [OF assms(1) Some] and updw = push_inv_upd_worker [OF assms(1) Some]
  show ?thesis
  proof (cases w)
    case Popping
    have "ring_inv q" using w(2) by (simp add: cell_ok_def)
    then obtain r q' where q': "Pop q = Some (r, q')" "ring_inv q'" "ring_contents q' = tl (ring_contents q)"
      "r = (case ring_contents q of [] \<Rightarrow> None | m # _ \<Rightarrow> Some m)"
      "hasWork q' = hasWork q" "isClosed q' = isClosed q" "wqueue.more q' = wqueue.more q"
      by (rule Pop_wqueue)
    have same: "pname q' = pname q" "SubPolicies q' = SubPolicies q"
      using pname_more [OF q'(7)] by simp_all
    have "cell_ok q' (case r of None \<Rightarrow> Selecting | Some m \<Rightarrow> Taken m)"
      using w(2) q'(2-5) same(2)
      by (cases "ring_contents q") (simp_all add: cell_ok_def)
    then show ?thesis
      using upd [OF _ same(1) q'(6)] Some w(1) Popping by (simp add: push_worker_def q'(1))
  next
    case (Taken m)
    then have "cell_ok q (if maplen (push_pending q m) = 0 then Popping else Sending m (push_pending q m))"
      using w(2) by (auto simp: cell_ok_def push_pending_def policies_ok_filter)
    then show ?thesis
      using updw Some w(1) Taken by (simp add: push_worker_def Let_def)
  next
    case (Sending m pol)
    then obtain q' where "push_settle http ord pol m q = Some q'" "cell_ok q' Popping" "pname q' = pname q"
      "isClosed q' = isClosed q"
      using push_settle_ok [OF _ assms(2)] w(2) by blast
    then show ?thesis
      using upd Some w(1) Sending by (simp add: push_worker_def)
  next
    case Selecting
    then have "cell_ok (q\<lparr>hasWork := False\<rparr>) Popping" "isClosed q \<Longrightarrow> cell_ok q Exited"
      using w(2) by (simp_all add: cell_ok_def)
    then show ?thesis
      using upd [of "q\<lparr>hasWork := False\<rparr>" Popping] updw Some w(1) Selecting assms(1)
      by (simp add: push_worker_def)
  next
    case Exited
    then show ?thesis using assms(1) Some w(1) by (simp add: push_worker_def)
  qed
qed

lemma push_step_inv:
  assumes "push_inv s" "event_ok e"
  shows "\<exists>s'. push_step e s = Some s' \<and> push_inv s'"
  using assms
  by (cases e) (simp_all add: push_CreateQueue_inv push_DeleteQueue_inv push_Enqueue_inv
      push_subscriber_inv push_worker_inv)

lemma push_reachable_inv: "push_reachable s \<Longrightarrow> push_inv s"
  by (induction rule: push_reachable.induct) (use push_inv_init push_step_inv in fastforce)+

section \<open>Every queue drains\<close>

text \<open>
  A worker left alone with its queue: it pops and processes, the subscribers answering each
  fan-out as the next element of \<open>https\<close> says.
\<close>

fun push_drain :: "http list \<Rightarrow> order \<Rightarrow> PushQueue \<Rightarrow> PushQueue option" where
  "push_drain [] ord q = Some q"
| "push_drain (http # https) ord q = do {
     (r, q') \<leftarrow> Pop q;
     case r of
       None \<Rightarrow> Some q'
     | Some m \<Rightarrow> do { q'' \<leftarrow> push_ProcessMsg http ord m q'; push_drain https ord q'' }
   }"

definition attempts_left :: "policies \<Rightarrow> PushMsg \<Rightarrow> string \<Rightarrow> nat" where
  "attempts_left pol m n = nat (NumberOfRetries (the (fmlookup pol n))) - retries m n"

text \<open>How many more passes a message can need: one, or the most attempts any subscriber has left.\<close>

definition passes_left :: "policies \<Rightarrow> PushMsg \<Rightarrow> nat" where
  "passes_left pol m =
     Max (insert 1 (attempts_left pol m ` {n. n |\<in>| fmdom pol \<and> n |\<notin>| AckedSubs m}))"

lemma finite_unsettled: "finite {n. n |\<in>| fmdom pol \<and> n |\<notin>| AckedSubs m}"
  by (rule finite_subset [of _ "fset (fmdom pol)"]) auto

lemma passes_left_ge:
  "1 \<le> passes_left pol m"
  "n |\<in>| fmdom pol \<Longrightarrow> n |\<notin>| AckedSubs m \<Longrightarrow> attempts_left pol m n \<le> passes_left pol m"
  unfolding passes_left_def using finite_unsettled [of pol m] by (auto intro!: Max_ge)

lemma passes_left_le:
  assumes "1 \<le> k" "\<And>n. n |\<in>| fmdom pol \<Longrightarrow> n |\<notin>| AckedSubs m \<Longrightarrow> attempts_left pol m n \<le> k"
  shows "passes_left pol m \<le> k"
  unfolding passes_left_def using assms finite_unsettled [of pol m] by (auto intro!: Max.boundedI)

lemma push_pass:
  assumes "policies_ok pol" "visits_all ord" "ring_inv q" "SubPolicies q = pol"
  shows "\<exists>q'. push_ProcessMsg http ord m q = Some q' \<and> ring_inv q' \<and> SubPolicies q' = pol \<and>
    (ring_contents q' = ring_contents q \<or>
     (\<exists>m'. ring_contents q' = ring_contents q @ [m'] \<and> passes_left pol m' < passes_left pol m))"
proof (cases "maplen (push_pending q m) = 0")
  case True
  then show ?thesis using assms by (simp add: push_ProcessMsg_def)
next
  case False
  let ?p = "push_pending q m"
  have look: "fmlookup ?p n = (if n |\<notin>| AckedSubs m then fmlookup pol n else None)" for n
    by (simp add: push_pending_def assms(4))
  have "keyed ?p" using assms by (simp add: push_pending_def policies_ok_def)
  from push_collect_results [OF this assms(2), of http m] obtain m' where
    m': "push_collect ?p (push_results http ord ?p m) m False =
      Some (m', \<exists>n. n |\<in>| fmdom ?p \<and> \<not> settles http ?p m n)"
    "\<forall>n. n |\<in>| AckedSubs m' \<longleftrightarrow> n |\<in>| AckedSubs m \<or> n |\<in>| fmdom ?p \<and> settles http ?p m n"
    "\<forall>n. retries m' n = (if n |\<in>| fmdom ?p \<and>
       \<not> sendMsg http (the (fmlookup ?p n)) (ppayload m) then retries m n + 1 else retries m n)"
    by blast
  have unsettled: "attempts_left pol m n = Suc (attempts_left pol m' n)" "1 \<le> attempts_left pol m' n"
    if "n |\<in>| fmdom pol" "n |\<notin>| AckedSubs m'" for n
  proof -
    have n: "n |\<notin>| AckedSubs m" "fmlookup ?p n = fmlookup pol n" "n |\<in>| fmdom ?p"
      using that m'(2) look [of n] by (auto simp: fmlookup_dom_iff)
    then have "\<not> settles http ?p m n" using that m'(2) by auto
    then show "attempts_left pol m n = Suc (attempts_left pol m' n)" "1 \<le> attempts_left pol m' n"
      using n m'(3) by (auto simp: settles_def gives_up_def attempts_left_def)
  qed
  show ?thesis
  proof (cases "\<exists>n. n |\<in>| fmdom ?p \<and> \<not> settles http ?p m n")
    case rem: True
    then obtain n where n: "n |\<in>| fmdom pol" "n |\<notin>| AckedSubs m" "n |\<notin>| AckedSubs m'"
      using m'(2) look by (metis fmlookup_dom_iff option.distinct(1))
    have "passes_left pol m' \<le> passes_left pol m - 1"
    proof (rule passes_left_le)
      show "1 \<le> passes_left pol m - 1"
        using passes_left_ge(2) [OF n(1,2)] unsettled [OF n(1,3)] by simp
    next
      fix k assume k: "k |\<in>| fmdom pol" "k |\<notin>| AckedSubs m'"
      then have "k |\<notin>| AckedSubs m" using m'(2) by auto
      then show "attempts_left pol m' k \<le> passes_left pol m - 1"
        using passes_left_ge(2) [OF k(1), of m] unsettled [OF k] by simp
    qed
    then have less: "passes_left pol m' < passes_left pol m"
      using passes_left_ge(1) [of pol m] by linarith
    from AddWake_ok [OF assms(3), of m'] obtain q' where
      q': "AddWake m' q = Some q'" "ring_inv q'" "ring_contents q' = ring_contents q @ [m']"
        "wqueue.more q' = wqueue.more q"
      by (elim exE conjE)
    have "push_collect ?p (push_results http ord ?p m) m False = Some (m', True)"
      using m'(1) unfolding rem [THEN eq_True [THEN iffD2]] .
    then have "push_ProcessMsg http ord m q = Some q'"
      using False q'(1) by (simp add: push_ProcessMsg_def push_settle_def Let_def)
    moreover have "SubPolicies q' = pol"
      using pname_more [OF q'(4)] assms(4) by simp
    ultimately show ?thesis using q'(2,3) less by blast
  next
    case norem: False
    have "push_collect ?p (push_results http ord ?p m) m False = Some (m', False)"
      using m'(1) unfolding norem [THEN eq_False [THEN iffD2]] .
    then show ?thesis
      using False assms(3,4) by (simp add: push_ProcessMsg_def push_settle_def Let_def)
  qed
qed

lemma push_drain_empty:
  assumes "policies_ok pol" "visits_all ord"
  shows "ring_inv q \<Longrightarrow> SubPolicies q = pol \<Longrightarrow>
    (\<Sum>m \<leftarrow> ring_contents q. passes_left pol m) \<le> length https \<Longrightarrow>
    \<exists>q'. push_drain https ord q = Some q' \<and> ring_contents q' = []"
proof (induction https arbitrary: q)
  case Nil
  then have "ring_contents q = []"
    using passes_left_ge(1) [of pol "hd (ring_contents q)"] by (cases "ring_contents q") simp_all
  then show ?case by simp
next
  case (Cons http https)
  from Cons.prems(1) obtain r q1 where q1: "Pop q = Some (r, q1)" "ring_inv q1"
    "ring_contents q1 = tl (ring_contents q)" "r = (case ring_contents q of [] \<Rightarrow> None | m # _ \<Rightarrow> Some m)"
    "wqueue.more q1 = wqueue.more q"
    by (rule Pop_wqueue)
  show ?case
  proof (cases "ring_contents q")
    case Nil
    then show ?thesis using q1 by simp
  next
    case c: (Cons m ms)
    have "SubPolicies q1 = pol" using pname_more [OF q1(5)] Cons.prems(2) by simp
    from push_pass [OF assms q1(2) this, of http m] obtain q2 where
      q2: "push_ProcessMsg http ord m q1 = Some q2" "ring_inv q2" "SubPolicies q2 = pol"
        "ring_contents q2 = ms \<or> (\<exists>m'. ring_contents q2 = ms @ [m'] \<and> passes_left pol m' < passes_left pol m)"
      using q1(3) c by auto
    have "(\<Sum>m \<leftarrow> ring_contents q2. passes_left pol m) \<le> length https"
      using q2(4) Cons.prems(3) c passes_left_ge(1) [of pol m] by auto
    from Cons.IH [OF q2(2,3) this] show ?thesis
      using q1(1,4) q2(1) c by simp
  qed
qed

section \<open>Properties\<close>

text \<open>
  C23. In every state reachable by any interleaving of requests and workers, no operation
  panics: no out-of-range index or nil dereference in a queue or a worker, no closing of a
  closed channel.
\<close>

theorem push_never_panics: "push_reachable s \<Longrightarrow> event_ok e \<Longrightarrow> push_step e s \<noteq> None"
  using push_step_inv [OF push_reachable_inv] by fastforce

text \<open>A short run for the witnesses: a queue whose worker has gone to sleep gets a message.\<close>

definition wake_run :: "push_event list" where
  "wake_run = [CreateEv ''q'', WorkerEv (\<lambda>_ _. None) sorted_list_of_fset True 0, EnqueueEv ''u'' ''q'' ''p'']"

definition wake_msg :: PushMsg where
  "wake_msg = push_NewQueueMsg ''u'' ''q'' ''p''"

definition wake_queue :: PushQueue where
  "wake_queue = (push_NewQueue ''q'')\<lparr>qbuf := Some wake_msg # replicate 9 None, qcount := 1, hasWork := True\<rparr>"

definition wake_state :: push_state where
  "wake_state = \<lparr>queues = fmupd ''q'' 0 fmempty, numQueues = 1, heap = fmupd 0 wake_queue fmempty,
     workers = fmupd 0 Selecting fmempty, nextAddr = 1\<rparr>"

lemma fmupd_twice [simp]: "fmupd a x (fmupd a y m) = fmupd a x m"
  by (rule fmap_ext) simp

lemma replicate_10: "replicate 10 x = x # replicate 9 x"
  by (simp add: numeral_eq_Suc)

lemma wake_state_simps:
  "heap wake_state = fmupd 0 wake_queue fmempty" "workers wake_state = fmupd 0 Selecting fmempty"
  by (simp_all add: wake_state_def)

lemma wake_run: "push_run wake_run push_NewBroker = Some wake_state"
  by (simp add: wake_run_def wake_state_def wake_queue_def wake_msg_def push_NewBroker_def accept_def
      push_CreateQueue_def push_worker_def push_Enqueue_def getQueue_def push_NewQueue_def Pop_def
      AddWake_def Add_def go_mod_def initialCapacity_def Let_def replicate_10)

lemma wake_state_reachable: "push_reachable wake_state"
  by (rule push_run_reachable [OF push_reachable.start _ wake_run])
    (simp add: wake_run_def visits_all_sorted)

lemma wake_queue_contents: "ring_contents wake_queue = [wake_msg]"
  by (simp add: wake_queue_def ring_contents_def ring_slots_def push_NewQueue_def)

theorem push_never_panics_witness:
  "push_reachable wake_state \<and> event_ok (DeleteEv ''q'') \<and> push_step (DeleteEv ''q'') wake_state \<noteq> None"
  using push_never_panics [OF wake_state_reachable, of "DeleteEv ''q''"]
  by (simp add: wake_state_reachable)

text \<open>
  C24. In every reachable state the counter \<open>numQueues\<close> is the number of queues in the table,
  and there are at most 128 of them.
\<close>

theorem push_queue_limit:
  "push_reachable s \<Longrightarrow> numQueues s = fcard (fmdom (queues s)) \<and> fcard (fmdom (queues s)) \<le> 128"
  using push_reachable_inv [of s] by (simp add: push_inv_def)

theorem push_queue_limit_witness:
  "push_reachable wake_state \<and> numQueues wake_state = fcard (fmdom (queues wake_state)) \<and>
     fcard (fmdom (queues wake_state)) \<le> 128"
  using push_queue_limit [OF wake_state_reachable] wake_state_reachable by simp

text \<open>
  C25. No wake-up is lost: in every reachable state, an open queue that holds a message has a
  worker that has not exited, and if that worker is blocked in \<open>select\<close>, the wake-up channel
  is full and its next step takes the wake-up and goes back to popping.
\<close>

theorem push_no_lost_wakeup:
  assumes "push_reachable s" "fmlookup (heap s) a = Some q" "ring_contents q \<noteq> []" "\<not> isClosed q"
  shows "\<exists>w. fmlookup (workers s) a = Some w \<and> w \<noteq> Exited \<and>
    (w = Selecting \<longrightarrow> hasWork q \<and> push_worker http ord pick a s =
       Some (s\<lparr>heap := fmupd a (q\<lparr>hasWork := False\<rparr>) (heap s), workers := fmupd a Popping (workers s)\<rparr>))"
proof -
  obtain w where "fmlookup (workers s) a = Some w" "cell_ok q w"
    by (rule push_inv_cell [OF push_reachable_inv [OF assms(1)] assms(2)])
  then show ?thesis using assms(2-4) by (auto simp: cell_ok_def push_worker_def)
qed

theorem push_no_lost_wakeup_witness:
  "push_reachable wake_state \<and> fmlookup (workers wake_state) 0 = Some Selecting \<and>
   ring_contents wake_queue \<noteq> [] \<and> \<not> isClosed wake_queue \<and>
   push_worker (\<lambda>_ _. None) sorted_list_of_fset False 0 wake_state =
     Some (wake_state\<lparr>heap := fmupd 0 (wake_queue\<lparr>hasWork := False\<rparr>) (heap wake_state),
       workers := fmupd 0 Popping (workers wake_state)\<rparr>)"
proof -
  have h: "fmlookup (heap wake_state) 0 = Some wake_queue" "fmlookup (workers wake_state) 0 = Some Selecting"
    by (simp_all add: wake_state_simps)
  have c: "ring_contents wake_queue \<noteq> []" "\<not> isClosed wake_queue"
    by (simp_all add: wake_queue_contents) (simp add: wake_queue_def push_NewQueue_def)
  show ?thesis
    using push_no_lost_wakeup [OF wake_state_reachable h(1) c, of "\<lambda>_ _. None" sorted_list_of_fset False]
      h(2) c wake_state_reachable by simp
qed

text \<open>
  C26. One fan-out settles its results exactly and whatever the order they arrive in: a
  pending subscriber is marked settled if its send succeeded or its failures reach
  \<open>NumberOfRetries\<close>, every failed send is counted once, nothing else of the message changes.
  If some pending subscriber has not settled, the updated message is put at the end of the
  queue and the worker's wake-up is set; otherwise the queue is left as it is.
\<close>

theorem push_settles_exactly:
  assumes "keyed pol" "visits_all ord" "ring_inv q"
  shows "\<exists>msg' q'. push_collect pol (push_results http ord pol msg) msg False =
      Some (msg', \<exists>n. n |\<in>| fmdom pol \<and> \<not> settles http pol msg n) \<and>
    (\<forall>n. n |\<in>| AckedSubs msg' \<longleftrightarrow>
       n |\<in>| AckedSubs msg \<or> n |\<in>| fmdom pol \<and> settles http pol msg n) \<and>
    (\<forall>n. retries msg' n = (if n |\<in>| fmdom pol \<and>
       \<not> sendMsg http (the (fmlookup pol n)) (ppayload msg) then retries msg n + 1 else retries msg n)) \<and>
    pmsgId msg' = pmsgId msg \<and> ppayload msg' = ppayload msg \<and>
    push_settle http ord pol msg q = Some q' \<and>
    (if \<exists>n. n |\<in>| fmdom pol \<and> \<not> settles http pol msg n
     then ring_inv q' \<and> ring_contents q' = ring_contents q @ [msg'] \<and> hasWork q' \<and>
       isClosed q' = isClosed q \<and> wqueue.more q' = wqueue.more q
     else q' = q)"
proof -
  obtain msg' where m: "push_collect pol (push_results http ord pol msg) msg False =
      Some (msg', \<exists>n. n |\<in>| fmdom pol \<and> \<not> settles http pol msg n)"
    and rest: "\<forall>n. n |\<in>| AckedSubs msg' \<longleftrightarrow> n |\<in>| AckedSubs msg \<or> n |\<in>| fmdom pol \<and> settles http pol msg n"
      "\<forall>n. retries msg' n = (if n |\<in>| fmdom pol \<and>
        \<not> sendMsg http (the (fmlookup pol n)) (ppayload msg) then retries msg n + 1 else retries msg n)"
      "pmsgId msg' = pmsgId msg" "ppayload msg' = ppayload msg"
    using push_collect_results [OF assms(1,2), of http msg] by (elim exE conjE) rule
  show ?thesis
  proof (cases "\<exists>n. n |\<in>| fmdom pol \<and> \<not> settles http pol msg n")
    case True
    obtain q' where "AddWake msg' q = Some q'" "ring_inv q'" "ring_contents q' = ring_contents q @ [msg']"
      "hasWork q'" "isClosed q' = isClosed q" "wqueue.more q' = wqueue.more q"
      using AddWake_ok [OF assms(3), of msg'] by (elim exE conjE) rule
    with True m rest show ?thesis by (intro exI [of _ msg'] exI [of _ q']) (simp add: push_settle_def)
  next
    case False
    with m rest show ?thesis by (intro exI [of _ msg'] exI [of _ q]) (simp add: push_settle_def)
  qed
qed

definition wake_policies :: policies where
  "wake_policies = fmupd ''s'' \<lparr>SubName = ''s'', SubURL = ''u'', NumberOfRetries = 2\<rparr> fmempty"

lemma wake_policies_ok: "policies_ok wake_policies"
  by (auto simp: wake_policies_def policies_ok_def keyed_def split: if_splits)

theorem push_settles_exactly_witness:
  "keyed wake_policies \<and> visits_all sorted_list_of_fset \<and> ring_inv wake_queue \<and>
   (\<exists>msg' q'. push_settle (\<lambda>_ _. Some 500) sorted_list_of_fset wake_policies wake_msg wake_queue = Some q' \<and>
      ring_contents q' = [wake_msg, msg'] \<and> retries msg' ''s'' = 1)"
proof -
  have k: "keyed wake_policies" using wake_policies_ok by (simp add: policies_ok_def)
  have i: "ring_inv wake_queue"
    by (rule push_inv_cell [OF push_reachable_inv [OF wake_state_reachable], of 0 wake_queue])
      (simp_all add: wake_state_simps cell_ok_def)
  have r: "retries wake_msg ''s'' = 0" and look: "fmdom wake_policies = {|''s''|}"
    "the (fmlookup wake_policies ''s'') = \<lparr>SubName = ''s'', SubURL = ''u'', NumberOfRetries = 2\<rparr>"
    by (simp_all add: wake_msg_def push_NewQueueMsg_def retries_def wake_policies_def)
  then have "\<not> settles (\<lambda>_ _. Some 500) wake_policies wake_msg ''s''"
    by (simp add: settles_def gives_up_def sendMsg_def)
  then have rem: "(\<exists>n. n |\<in>| fmdom wake_policies \<and> \<not> settles (\<lambda>_ _. Some 500) wake_policies wake_msg n) = True"
    by (simp add: look(1))
  obtain msg' q' where m: "push_settle (\<lambda>_ _. Some 500) sorted_list_of_fset wake_policies wake_msg wake_queue = Some q'"
    "ring_contents q' = ring_contents wake_queue @ [msg']"
    "\<forall>n. retries msg' n = (if n |\<in>| fmdom wake_policies \<and>
       \<not> sendMsg (\<lambda>_ _. Some 500) (the (fmlookup wake_policies n)) (ppayload wake_msg)
       then retries wake_msg n + 1 else retries wake_msg n)"
    using push_settles_exactly [OF k visits_all_sorted i, of "\<lambda>_ _. Some 500" wake_msg] unfolding rem if_True
    by (elim exE conjE) rule
  have "retries msg' ''s'' = 1"
    using m(3) r look by (simp add: sendMsg_def)
  with m(1,2) k i visits_all_sorted show ?thesis by (simp add: wake_queue_contents)
qed

text \<open>
  C27. However subscribers answer, whatever policies are changed meanwhile, no message waiting
  in a queue has been refused by a subscriber more than 100 times, and one that is still
  owed the message fewer than 100 times: retries are bounded.
\<close>

theorem push_retries_bounded:
  assumes "push_reachable s" "fmlookup (heap s) a = Some q" "m \<in> set (ring_contents q)"
  shows "retries m n \<le> 100 \<and> (n |\<notin>| AckedSubs m \<longrightarrow> retries m n < 100)"
  using push_inv_cell [OF push_reachable_inv [OF assms(1)] assms(2)] assms(3)
  by (auto simp: cell_ok_def msg_ok_def)

theorem push_retries_bounded_witness:
  "push_reachable wake_state \<and> fmlookup (heap wake_state) 0 = Some wake_queue \<and>
   wake_msg \<in> set (ring_contents wake_queue) \<and> retries wake_msg ''s'' \<le> 100"
  using push_retries_bounded [OF wake_state_reachable, of 0 wake_queue wake_msg "''s''"] wake_queue_contents
  by (simp add: wake_state_simps wake_state_reachable)

text \<open>
  C28. A queue drains: if no new message arrives and its policies stay as they are, then
  however the subscribers answer, the worker empties the queue within as many passes as the
  waiting messages have attempts left.
\<close>

theorem push_queue_drains:
  assumes "policies_ok (SubPolicies q)" "visits_all ord" "ring_inv q"
    "(\<Sum>m \<leftarrow> ring_contents q. passes_left (SubPolicies q) m) \<le> length https"
  shows "\<exists>q'. push_drain https ord q = Some q' \<and> ring_contents q' = []"
  by (rule push_drain_empty [OF assms(1,2,3) refl assms(4)])

theorem push_queue_drains_witness:
  "\<exists>q'. push_drain [\<lambda>_ _. None, \<lambda>_ _. Some 500] sorted_list_of_fset (wake_queue\<lparr>SubPolicies := wake_policies\<rparr>)
     = Some q' \<and> ring_contents q' = []"
proof (rule push_queue_drains)
  let ?q = "wake_queue\<lparr>SubPolicies := wake_policies\<rparr>"
  show "policies_ok (SubPolicies ?q)" by (simp add: wake_policies_ok)
  show "visits_all sorted_list_of_fset" by (rule visits_all_sorted)
  show "ring_inv ?q"
    by (simp add: wake_queue_def ring_inv_def ring_slots_def push_NewQueue_def initialCapacity_def)
  have "passes_left wake_policies wake_msg \<le> 2"
    by (rule passes_left_le) (auto simp: wake_policies_def attempts_left_def)
  then show "(\<Sum>m \<leftarrow> ring_contents ?q. passes_left (SubPolicies ?q) m) \<le>
      length ([\<lambda>_ _. None, \<lambda>_ _. Some 500] :: http list)"
    by (simp add: wake_queue_contents)
qed

end
