(* ===== verification/Strconv.thy ===== *)
theory Strconv
  imports Prelude "HOL-Library.Word"
begin

text \<open>
  Go's number formatting and parsing as the program uses it: decimal integers in JSON and in
  segment file names (\<open>%020d\<close>, \<open>strconv.ParseUint\<close>, \<open>strconv.ParseInt\<close>), and the
  hexadecimal checksum (\<open>%08x\<close>). A byte is a \<open>char\<close> throughout; \<open>code c\<close> is its value.
\<close>

type_synonym bytes = "char list"

definition code :: "char \<Rightarrow> nat" where
  "code c = of_char c"

lemma code_less [simp]: "code c < 256"
  by (simp add: code_def)

lemma code_char_of [simp]: "n < 256 \<Longrightarrow> code (char_of n) = n"
  by (simp add: code_def)

lemma char_of_code [simp]: "char_of (code c) = c"
  by (simp add: code_def)

lemma code_inject [simp]: "code c = code d \<longleftrightarrow> c = d"
  by (metis char_of_code)

section \<open>Decimal\<close>

definition digit :: "nat \<Rightarrow> char" where
  "digit n = char_of (48 + n)"

definition is_digit :: "char \<Rightarrow> bool" where
  "is_digit c \<longleftrightarrow> 48 \<le> code c \<and> code c \<le> 57"

lemma code_digit [simp]: "n < 10 \<Longrightarrow> code (digit n) = 48 + n"
  by (simp add: digit_def)

lemma is_digit_digit [simp]: "n < 10 \<Longrightarrow> is_digit (digit n)"
  by (simp add: is_digit_def)

fun dec_nat :: "nat \<Rightarrow> string" where
  "dec_nat n = (if n < 10 then [digit n] else dec_nat (n div 10) @ [digit (n mod 10)])"

declare dec_nat.simps [simp del]

definition dec_int :: "int \<Rightarrow> string" where
  "dec_int i = (if i < 0 then ''-'' @ dec_nat (nat (- i)) else dec_nat (nat i))"

text \<open>The value of a string of digits; \<open>None\<close> if it is empty or holds anything else.\<close>

definition digits_val :: "string \<Rightarrow> nat option" where
  "digits_val s =
     (if s = [] \<or> \<not> list_all is_digit s then None
      else Some (foldl (\<lambda>v c. 10 * v + (code c - 48)) 0 s))"

definition ParseUint64 :: "string \<Rightarrow> nat option" where
  "ParseUint64 s =
     (case digits_val s of None \<Rightarrow> None | Some n \<Rightarrow> if n < 2 ^ 64 then Some n else None)"

definition ParseInt64 :: "string \<Rightarrow> int option" where
  "ParseInt64 s =
     (let (neg, t) = (case s of
          [] \<Rightarrow> (False, [])
        | c # cs \<Rightarrow> if c = CHR ''-'' then (True, cs) else if c = CHR ''+'' then (False, cs) else (False, s)) in
      case digits_val t of
        None \<Rightarrow> None
      | Some n \<Rightarrow>
          if neg then (if n \<le> 2 ^ 63 then Some (- int n) else None)
          else (if n < 2 ^ 63 then Some (int n) else None))"

lemma dec_nat_digits: "list_all is_digit (dec_nat n)"
  by (induction n rule: dec_nat.induct) (simp add: dec_nat.simps)

lemma dec_nat_nonempty [simp]: "dec_nat n \<noteq> []"
  by (simp add: dec_nat.simps)

lemma dec_nat_val: "foldl (\<lambda>v c. 10 * v + (code c - 48)) 0 (dec_nat n) = n"
proof (induction n rule: dec_nat.induct)
  case (1 n)
  then show ?case by (cases "n < 10") (simp_all add: dec_nat.simps [of n])
qed

lemma digits_val_dec_nat [simp]: "digits_val (dec_nat n) = Some n"
  by (simp add: digits_val_def dec_nat_digits dec_nat_val)

lemma hd_dec_nat: "is_digit (hd (dec_nat n))"
  using dec_nat_digits [of n] by (cases "dec_nat n") simp_all

lemma dec_nat_sign [simp]: "hd (dec_nat n) \<noteq> CHR ''-''" "hd (dec_nat n) \<noteq> CHR ''+''"
  using hd_dec_nat [of n] by (auto simp: is_digit_def code_def)

lemma ParseInt64_dec_int:
  assumes "- (2 ^ 63) \<le> i" "i < 2 ^ 63"
  shows "ParseInt64 (dec_int i) = Some i"
proof (cases "i < 0")
  case True
  then show ?thesis using assms by (simp add: ParseInt64_def dec_int_def)
next
  case False
  obtain c cs where c: "dec_nat (nat i) = c # cs" by (metis dec_nat_nonempty list.exhaust)
  have "c \<noteq> CHR ''-''" "c \<noteq> CHR ''+''" using dec_nat_sign [of "nat i"] c by simp_all
  moreover have "digits_val (c # cs) = Some (nat i)" by (simp flip: c)
  ultimately show ?thesis using assms False by (simp add: ParseInt64_def dec_int_def c)
qed

lemma ParseUint64_dec_nat: "n < 2 ^ 64 \<Longrightarrow> ParseUint64 (dec_nat n) = Some n"
  by (simp add: ParseUint64_def)

section \<open>Padding\<close>

text \<open>\<open>fmt.Sprintf("%020d", n)\<close>: at least twenty digits, padded with zeros on the left.\<close>

definition pad0 :: "nat \<Rightarrow> string \<Rightarrow> string" where
  "pad0 w s = replicate (w - length s) (CHR ''0'') @ s"

lemma foldl_zeros:
  "foldl (\<lambda>v c. 10 * v + (code c - 48)) 0 (replicate k (CHR ''0'') @ s) =
   foldl (\<lambda>v c. 10 * v + (code c - 48)) 0 s"
  by (induction k) (simp_all add: code_def)

lemma digits_val_pad0 [simp]: "digits_val (pad0 w (dec_nat n)) = Some n"
proof -
  have "list_all is_digit (replicate k (CHR ''0''))" for k
    by (simp add: list_all_iff is_digit_def code_def)
  then show ?thesis
    by (simp add: digits_val_def pad0_def dec_nat_digits foldl_zeros dec_nat_val del: foldl_append)
qed

lemma ParseUint64_pad0: "n < 2 ^ 64 \<Longrightarrow> ParseUint64 (pad0 w (dec_nat n)) = Some n"
  by (simp add: ParseUint64_def)

section \<open>Hexadecimal\<close>

definition hex_digit :: "nat \<Rightarrow> char" where
  "hex_digit n = (if n < 10 then char_of (48 + n) else char_of (87 + n))"

text \<open>\<open>fmt.Sprintf("%08x", w)\<close> of a 32-bit word: eight digits, most significant first.\<close>

definition hex8 :: "32 word \<Rightarrow> string" where
  "hex8 w = map (\<lambda>i. hex_digit (unat w div 16 ^ i mod 16)) [7, 6, 5, 4, 3, 2, 1, 0]"

section \<open>Trimming and splitting\<close>

text \<open>The code points Unicode calls white space, in UTF-8.\<close>

definition spaces :: "bytes list" where
  "spaces = map (map char_of) ([[9], [10], [11], [12], [13], [32], [194, 133], [194, 160], [225, 154, 128]] @
     map (\<lambda>b. [226, 128, b]) [128, 129, 130, 131, 132, 133, 134, 135, 136, 137, 138, 168, 169, 175] @
     [[226, 129, 159], [227, 128, 128::nat]])"

function trim_left :: "bytes list \<Rightarrow> bytes \<Rightarrow> bytes" where
  "trim_left ws s =
     (case find (\<lambda>p. p \<noteq> [] \<and> take (length p) s = p) ws of
        None \<Rightarrow> s
      | Some p \<Rightarrow> trim_left ws (drop (length p) s))"
  by pat_completeness auto
termination
proof (relation "measure (length \<circ> snd)", goal_cases)
  case (2 ws s p)
  then have "p \<noteq> []" "take (length p) s = p" by (auto simp: find_Some_iff)
  then show ?case by (cases s) auto
qed simp

declare trim_left.simps [simp del]

definition TrimSpace :: "bytes \<Rightarrow> bytes" where
  "TrimSpace s = rev (trim_left (map rev spaces) (rev (trim_left spaces s)))"

text \<open>\<open>strings.Split\<close> at a single byte.\<close>

fun Split :: "char \<Rightarrow> bytes \<Rightarrow> bytes list" where
  "Split c [] = [[]]"
| "Split c (x # s) = (if x = c then [] # Split c s else (case Split c s of [] \<Rightarrow> [[x]] | p # ps \<Rightarrow> (x # p) # ps))"

end
