(* ===== verification/Json.thy ===== *)
theory Json
  imports Strconv
begin

text \<open>
  Go's \<open>encoding/json\<close> as the program uses it: the text \<open>json.Marshal\<close> writes for structs of
  strings, integers, maps and slices, and the parser behind \<open>json.Unmarshal\<close>, with Go's
  escaping, its treatment of invalid UTF-8, its nesting limit and its case-insensitive
  field names. The main result is that parsing what was printed gives the value back.
\<close>

datatype json =
    JNull | JBool bool | JNum string | JStr string
  | JArr "json list" | JObj "(string \<times> json) list"

section \<open>UTF-8\<close>

text \<open>
  The length of the UTF-8 sequence at the head of a string whose first byte is not ASCII,
  as \<open>utf8.DecodeRuneInString\<close> accepts it; 0 if it is invalid.
\<close>

definition between :: "nat \<Rightarrow> nat \<Rightarrow> char \<Rightarrow> bool" where
  "between lo hi c \<longleftrightarrow> lo \<le> code c \<and> code c \<le> hi"

fun rune_len :: "bytes \<Rightarrow> nat" where
  "rune_len (a # b # s) =
     (if between 194 223 a then (if between 128 191 b then 2 else 0)
      else if (code a = 224 \<and> between 160 191 b) \<or> (between 225 236 a \<and> between 128 191 b) \<or>
              (code a = 237 \<and> between 128 159 b) \<or> (between 238 239 a \<and> between 128 191 b)
      then (case s of c # _ \<Rightarrow> if between 128 191 c then 3 else 0 | [] \<Rightarrow> 0)
      else if (code a = 240 \<and> between 144 191 b) \<or> (between 241 243 a \<and> between 128 191 b) \<or>
              (code a = 244 \<and> between 128 143 b)
      then (case s of c # d # _ \<Rightarrow> if between 128 191 c \<and> between 128 191 d then 4 else 0 | _ \<Rightarrow> 0)
      else 0)"
| "rune_len _ = 0"

text \<open>\<open>utf8.AppendRune\<close> for a code point that is not a surrogate.\<close>

definition utf8 :: "nat \<Rightarrow> bytes" where
  "utf8 r =
     (if r < 128 then [char_of r]
      else if r < 2048 then [char_of (192 + r div 64), char_of (128 + r mod 64)]
      else if r < 65536 then
        [char_of (224 + r div 4096), char_of (128 + r div 64 mod 64), char_of (128 + r mod 64)]
      else [char_of (240 + r div 262144), char_of (128 + r div 4096 mod 64),
            char_of (128 + r div 64 mod 64), char_of (128 + r mod 64)])"

definition replacement :: bytes where
  "replacement = utf8 65533"

section \<open>Printing\<close>

text \<open>One ASCII byte inside a string, with HTML escaping as \<open>json.Marshal\<close> does it.\<close>

definition esc_ascii :: "char \<Rightarrow> bytes" where
  "esc_ascii c =
     (if c = CHR 0x22 then [CHR 0x5C, CHR 0x22]
      else if c = CHR 0x5C then [CHR 0x5C, CHR 0x5C]
      else if code c = 8 then [CHR 0x5C, CHR ''b'']
      else if code c = 12 then [CHR 0x5C, CHR ''f'']
      else if code c = 10 then [CHR 0x5C, CHR ''n'']
      else if code c = 13 then [CHR 0x5C, CHR ''r'']
      else if code c = 9 then [CHR 0x5C, CHR ''t'']
      else if code c < 32 \<or> c = CHR ''<'' \<or> c = CHR ''>'' \<or> c = CHR ''&''
      then [CHR 0x5C, CHR ''u'', CHR ''0'', CHR ''0'', hex_digit (code c div 16), hex_digit (code c mod 16)]
      else [c])"

text \<open>U+2028 and U+2029 are escaped too; an invalid byte is replaced by the escape of U+FFFD.\<close>

function esc :: "bytes \<Rightarrow> bytes" where
  "esc [] = []"
| "esc (c # s) =
     (if code c < 128 then esc_ascii c @ esc s
      else if rune_len (c # s) = 0 then CHR 0x5C # ''ufffd'' @ esc s
      else let r = take (rune_len (c # s)) (c # s) in
        (if map code r = [226, 128, 168] then CHR 0x5C # ''u2028''
         else if map code r = [226, 128, 169] then CHR 0x5C # ''u2029''
         else r) @ esc (drop (rune_len (c # s)) (c # s)))"
  by pat_completeness auto
termination
  by (relation "measure length") auto

definition print_str :: "bytes \<Rightarrow> bytes" where
  "print_str s = CHR 0x22 # esc s @ [CHR 0x22]"

text \<open>Elements separated by commas.\<close>

fun commas :: "bytes list \<Rightarrow> bytes" where
  "commas [] = []"
| "commas [x] = x"
| "commas (x # y # xs) = x @ CHR '','' # commas (y # xs)"

primrec print_json :: "json \<Rightarrow> bytes" where
  "print_json JNull = ''null''"
| "print_json (JBool b) = (if b then ''true'' else ''false'')"
| "print_json (JNum n) = n"
| "print_json (JStr s) = print_str s"
| "print_json (JArr xs) = ''['' @ commas (map print_json xs) @ '']''"
| "print_json (JObj kvs) =
     CHR 0x7B # commas (map (\<lambda>(k, v). print_str k @ CHR '':'' # v) (map (map_prod id print_json) kvs)) @ [CHR 0x7D]"

section \<open>Parsing\<close>

definition is_ws :: "char \<Rightarrow> bool" where
  "is_ws c \<longleftrightarrow> code c \<in> {32, 9, 10, 13}"

definition skip_ws :: "bytes \<Rightarrow> bytes" where
  "skip_ws s = dropWhile is_ws s"

definition hex_val :: "char \<Rightarrow> nat option" where
  "hex_val c =
     (if 48 \<le> code c \<and> code c \<le> 57 then Some (code c - 48)
      else if 97 \<le> code c \<and> code c \<le> 102 then Some (code c - 87)
      else if 65 \<le> code c \<and> code c \<le> 70 then Some (code c - 55)
      else None)"

fun hex4 :: "bytes \<Rightarrow> (nat \<times> bytes) option" where
  "hex4 (a # b # c # d # s) = do {
     w \<leftarrow> hex_val a; x \<leftarrow> hex_val b; y \<leftarrow> hex_val c; z \<leftarrow> hex_val d;
     Some (4096 * w + 256 * x + 16 * y + z, s) }"
| "hex4 _ = None"

text \<open>The simple escapes: the byte after the backslash and what it stands for.\<close>

definition simple_esc :: "char \<Rightarrow> char option" where
  "simple_esc e =
     (if e = CHR 0x22 \<or> e = CHR 0x5C \<or> e = CHR ''/'' then Some e
      else if e = CHR ''b'' then Some (char_of (8::nat))
      else if e = CHR ''f'' then Some (char_of (12::nat))
      else if e = CHR ''n'' then Some (char_of (10::nat))
      else if e = CHR ''r'' then Some (char_of (13::nat))
      else if e = CHR ''t'' then Some (char_of (9::nat))
      else None)"

definition emit :: "bytes \<Rightarrow> (bytes \<times> bytes) option \<Rightarrow> (bytes \<times> bytes) option" where
  "emit b = map_option (map_prod ((@) b) id)"

text \<open>A second \<open>\uXXXX\<close> that completes a surrogate pair, and the code point it makes.\<close>

definition low_surrogate :: "nat \<Rightarrow> bytes \<Rightarrow> (nat \<times> bytes) option" where
  "low_surrogate hi s =
     (case s of
        c # e # t \<Rightarrow>
          if c = CHR 0x5C \<and> e = CHR ''u'' \<and> hi < 56320 then
            (case hex4 t of
               Some (lo, u) \<Rightarrow> if 56320 \<le> lo \<and> lo < 57344
                 then Some (65536 + (hi - 55296) * 1024 + (lo - 56320), u) else None
             | None \<Rightarrow> None)
          else None
      | _ \<Rightarrow> None)"

lemma hex4_shorter: "hex4 s = Some (v, t) \<Longrightarrow> length t < length s"
  by (cases s rule: hex4.cases) (auto split: bind_splits)

lemma low_surrogate_shorter: "low_surrogate hi s = Some (v, t) \<Longrightarrow> length t < length s"
  by (auto simp: low_surrogate_def split: list.splits if_splits option.splits prod.splits
      dest!: hex4_shorter)

text \<open>The rest of a string literal after its opening quote: its value and what follows it.\<close>

function parse_str :: "bytes \<Rightarrow> (bytes \<times> bytes) option" where
  "parse_str [] = None"
| "parse_str (c # s) =
     (if c = CHR 0x22 then Some ([], s)
      else if c = CHR 0x5C then
        (case s of
           [] \<Rightarrow> None
         | e # t \<Rightarrow>
             if e = CHR ''u'' then
               (case hex4 t of
                  None \<Rightarrow> None
                | Some (r, u) \<Rightarrow>
                    if 55296 \<le> r \<and> r < 57344 then
                      (case low_surrogate r u of
                         Some (r', u') \<Rightarrow> emit (utf8 r') (parse_str u')
                       | None \<Rightarrow> emit replacement (parse_str u))
                    else emit (utf8 r) (parse_str u))
             else (case simple_esc e of None \<Rightarrow> None | Some d \<Rightarrow> emit [d] (parse_str t)))
      else if code c < 32 then None
      else if code c < 128 then emit [c] (parse_str s)
      else if rune_len (c # s) = 0 then emit replacement (parse_str s)
      else emit (take (rune_len (c # s)) (c # s)) (parse_str (drop (rune_len (c # s)) (c # s))))"
  by pat_completeness auto
termination
  by (relation "measure length") (auto dest!: hex4_shorter low_surrogate_shorter)

declare esc.simps(2) [simp del] parse_str.simps(2) [simp del]

section \<open>Strings round-trip\<close>

function valid_utf8 :: "bytes \<Rightarrow> bool" where
  "valid_utf8 [] = True"
| "valid_utf8 (c # s) =
     (if code c < 128 then valid_utf8 s
      else if rune_len (c # s) = 0 then False
      else valid_utf8 (drop (rune_len (c # s)) (c # s)))"
  by pat_completeness auto
termination
  by (relation "measure length") auto

declare valid_utf8.simps(2) [simp del]

lemma rune_len_le: "rune_len s \<le> length s"
  by (cases s rule: rune_len.cases) (auto split: list.splits)

lemma rune_len_take:
  assumes "rune_len s \<noteq> 0"
  shows "rune_len (take (rune_len s) s @ t) = rune_len s"
  using assms
  by (cases s rule: rune_len.cases) (auto split: list.splits if_splits)

lemma hex_val_digit: "n < 16 \<Longrightarrow> hex_val (hex_digit n) = Some n"
  by (auto simp: hex_val_def hex_digit_def)

lemma emit_Some [simp]: "emit b (Some (x, y)) = Some (b @ x, y)"
  by (simp add: emit_def)

lemma code_eqI: "code c = n \<Longrightarrow> c = char_of n"
  by auto

lemma parse_esc_ascii: "code c < 128 \<Longrightarrow> parse_str (esc_ascii c @ t) = emit [c] (parse_str t)"
proof -
  assume c: "code c < 128"
  have "utf8 (code c) = [c]" using c by (simp add: utf8_def)
  moreover have "hex_val (hex_digit (code c div 16)) = Some (code c div 16)"
    "hex_val (hex_digit (code c mod 16)) = Some (code c mod 16)"
    using c by (simp_all add: hex_val_digit)
  moreover have "hex_val (CHR ''0'') = Some 0" by (simp add: hex_val_def code_def)
  ultimately show ?thesis
    using c by (auto simp: esc_ascii_def parse_str.simps simple_esc_def dest: code_eqI)
qed

lemma parse_u4:
  assumes "hex4 (h1 # h2 # h3 # [h4]) = Some (r, [])" "\<not> (55296 \<le> r \<and> r < 57344)"
  shows "parse_str (CHR 0x5C # CHR ''u'' # h1 # h2 # h3 # h4 # t) = emit (utf8 r) (parse_str t)"
  using assms by (auto simp: parse_str.simps split: bind_splits)

lemma parse_line_separator:
  "parse_str (CHR 0x5C # ''u2028'' @ t) = emit (utf8 8232) (parse_str t)"
  "parse_str (CHR 0x5C # ''u2029'' @ t) = emit (utf8 8233) (parse_str t)"
  by (simp_all add: parse_str.simps hex_val_def code_def)

lemma map_code_eq: "map code r = ns \<Longrightarrow> r = map char_of ns"
  by (auto simp: comp_def)

lemma parse_esc: "valid_utf8 s \<Longrightarrow> parse_str (esc s @ CHR 0x22 # t) = Some (s, t)"
proof (induction s rule: esc.induct)
  case 1
  then show ?case by (simp add: parse_str.simps)
next
  case (2 c s)
  let ?n = "rune_len (c # s)"
  show ?case
  proof (cases "code c < 128")
    case True
    with "2.IH"(1) "2.prems" show ?thesis
      by (simp add: esc.simps valid_utf8.simps parse_esc_ascii)
  next
    case False
    then have n: "?n \<noteq> 0" and v: "valid_utf8 (drop ?n (c # s))"
      using "2.prems" by (auto simp: valid_utf8.simps split: if_splits)
    define r where "r = take ?n (c # s)"
    have IH: "parse_str (esc (drop ?n (c # s)) @ CHR 0x22 # t) = Some (drop ?n (c # s), t)"
      using "2.IH"(3) False n v r_def by blast
    obtain r' where r': "r = c # r'" using n by (cases ?n) (simp_all add: r_def)
    have q: "c \<noteq> CHR 0x22" "c \<noteq> CHR 0x5C" "\<not> code c < 32"
      using False by (auto simp: code_def)
    have len: "length r = ?n" using rune_len_le [of "c # s"] by (simp add: r_def)
    have rl: "rune_len (r @ u) = length r" for u
      unfolding len unfolding r_def by (rule rune_len_take [OF n])
    have raw: "parse_str (r @ u) = emit r (parse_str u)" for u
      using rl [of u] q False by (simp add: r' parse_str.simps)
    have sep: "parse_str (CHR 0x5C # ''u2028'' @ u) = emit r (parse_str u)" if "map code r = [226, 128, 168]" for u
      using map_code_eq [OF that] by (simp add: parse_line_separator(1) [simplified] utf8_def)
    have sep': "parse_str (CHR 0x5C # ''u2029'' @ u) = emit r (parse_str u)" if "map code r = [226, 128, 169]" for u
      using map_code_eq [OF that] by (simp add: parse_line_separator(2) [simplified] utf8_def)
    have "esc (c # s) @ CHR 0x22 # t = (if map code r = [226, 128, 168] then CHR 0x5C # ''u2028''
         else if map code r = [226, 128, 169] then CHR 0x5C # ''u2029'' else r) @
         esc (drop ?n (c # s)) @ CHR 0x22 # t"
      using False n by (simp add: esc.simps Let_def r_def)
    then have "parse_str (esc (c # s) @ CHR 0x22 # t) = emit r (Some (drop ?n (c # s), t))"
      using raw sep sep' IH by simp
    then show ?thesis by (simp add: r_def)
  qed
qed

section \<open>Values\<close>

definition num_int :: "bytes \<Rightarrow> (bytes \<times> bytes) option" where
  "num_int s =
     (case s of
        c # r \<Rightarrow> if c = CHR ''0'' then Some ([c], r)
          else if is_digit c then Some (takeWhile is_digit s, dropWhile is_digit s) else None
      | [] \<Rightarrow> None)"

text \<open>Digits that must be there, after a prefix that has been read.\<close>

definition num_digits :: "bytes \<Rightarrow> bytes \<Rightarrow> (bytes \<times> bytes) option" where
  "num_digits pre s =
     (if takeWhile is_digit s = [] then None
      else Some (pre @ takeWhile is_digit s, dropWhile is_digit s))"

definition num_frac :: "bytes \<Rightarrow> (bytes \<times> bytes) option" where
  "num_frac s =
     (case s of c # r \<Rightarrow> if c = CHR ''.'' then num_digits [c] r else Some ([], s) | [] \<Rightarrow> Some ([], s))"

definition num_exp :: "bytes \<Rightarrow> (bytes \<times> bytes) option" where
  "num_exp s =
     (case s of
        c # r \<Rightarrow>
          if c = CHR ''e'' \<or> c = CHR ''E'' then
            (case r of
               g # t \<Rightarrow> if g = CHR ''+'' \<or> g = CHR ''-'' then num_digits [c, g] t else num_digits [c] r
             | [] \<Rightarrow> None)
          else Some ([], s)
      | [] \<Rightarrow> Some ([], s))"

definition parse_num :: "bytes \<Rightarrow> (bytes \<times> bytes) option" where
  "parse_num s = do {
     let (sg, s1) = (case s of c # r \<Rightarrow> if c = CHR ''-'' then ([c], r) else ([], s) | [] \<Rightarrow> ([], s));
     (i, s2) \<leftarrow> num_int s1;
     (f, s3) \<leftarrow> num_frac s2;
     (e, s4) \<leftarrow> num_exp s3;
     Some (sg @ i @ f @ e, s4)
   }"

definition literal :: "bytes \<Rightarrow> json \<Rightarrow> bytes \<Rightarrow> (json \<times> bytes) option" where
  "literal t v s = (if take (length t) s = t then Some (v, drop (length t) s) else None)"

lemma skip_ws_shorter: "length (skip_ws s) \<le> length s"
  by (simp add: skip_ws_def length_dropWhile_le)

lemma emit_shorter: "emit b x = Some (v, r) \<Longrightarrow> \<exists>v'. x = Some (v', r)"
  by (auto simp: emit_def)

lemma parse_str_shorter: "parse_str s = Some (v, r) \<Longrightarrow> length r < length s"
proof (induction s arbitrary: v r rule: measure_induct_rule [of length])
  case (less s)
  have IH: "length r < n" if "parse_str t = Some (w, r)" "length t < length s" "length t \<le> n" for t w n
    using less.IH [OF that(2,1)] that(3) by simp
  show ?case
  proof (cases s)
    case (Cons c t)
    then show ?thesis
      using less.prems
      by (auto simp: parse_str.simps(2) [of c t] split: if_splits list.splits option.splits prod.splits
          dest!: emit_shorter hex4_shorter low_surrogate_shorter intro!: IH)
  qed (use less.prems in simp)
qed

text \<open>
  The parser proper. \<open>d\<close> is how many levels of nesting are left (Go allows 10000). In
  \<open>parse_members\<close> and \<open>parse_elems\<close> the test that the rest is shorter is for termination
  only; \<open>parse_good\<close> shows that it always succeeds.
\<close>

function parse_value :: "nat \<Rightarrow> bytes \<Rightarrow> (json \<times> bytes) option"
  and parse_members :: "nat \<Rightarrow> bytes \<Rightarrow> ((bytes \<times> json) list \<times> bytes) option"
  and parse_elems :: "nat \<Rightarrow> bytes \<Rightarrow> (json list \<times> bytes) option"
where
  "parse_value d s =
     (case skip_ws s of
        [] \<Rightarrow> None
      | c # r \<Rightarrow>
          if c = CHR 0x7B then
            (if d = 0 then None
             else (case skip_ws r of
                [] \<Rightarrow> None
              | e # t \<Rightarrow> if e = CHR 0x7D then Some (JObj [], t)
                  else map_option (map_prod JObj id) (parse_members (d - 1) (e # t))))
          else if c = CHR ''['' then
            (if d = 0 then None
             else (case skip_ws r of
                [] \<Rightarrow> None
              | e # t \<Rightarrow> if e = CHR '']'' then Some (JArr [], t)
                  else map_option (map_prod JArr id) (parse_elems (d - 1) (e # t))))
          else if c = CHR 0x22 then map_option (map_prod JStr id) (parse_str r)
          else if c = CHR ''t'' then literal ''true'' (JBool True) (c # r)
          else if c = CHR ''f'' then literal ''false'' (JBool False) (c # r)
          else if c = CHR ''n'' then literal ''null'' JNull (c # r)
          else map_option (map_prod JNum id) (parse_num (c # r)))"
| "parse_members d s =
     (case s of
        [] \<Rightarrow> None
      | c # r \<Rightarrow>
          if c \<noteq> CHR 0x22 then None
          else (case parse_str r of
              None \<Rightarrow> None
            | Some (k, r1) \<Rightarrow>
                (case skip_ws r1 of
                   [] \<Rightarrow> None
                 | c1 # r2 \<Rightarrow>
                     if c1 \<noteq> CHR '':'' then None
                     else (case parse_value d r2 of
                         None \<Rightarrow> None
                       | Some (v, r3) \<Rightarrow>
                           (case skip_ws r3 of
                              [] \<Rightarrow> None
                            | c2 # r4 \<Rightarrow>
                                if c2 = CHR 0x7D then Some ([(k, v)], r4)
                                else if c2 = CHR '','' \<and> length r4 < length s
                                then map_option (map_prod ((#) (k, v)) id) (parse_members d (skip_ws r4))
                                else None)))))"
| "parse_elems d s =
     (case parse_value d s of
        None \<Rightarrow> None
      | Some (v, r) \<Rightarrow>
          (case skip_ws r of
             [] \<Rightarrow> None
           | c # t \<Rightarrow>
               if c = CHR '']'' then Some ([v], t)
               else if c = CHR '','' \<and> length t < length s
               then map_option (map_prod ((#) v) id) (parse_elems d t)
               else None))"
  by pat_completeness auto
termination
proof (relation "measures [case_sum fst (case_sum fst fst),
      case_sum (length \<circ> snd) (case_sum (length \<circ> snd) (length \<circ> snd)),
      case_sum (\<lambda>_. 0) (case_sum (\<lambda>_. 0) (\<lambda>_. 1))]", goal_cases)
  case (4 d s c r a k r1 c1 r2)
  have "length (c1 # r2) \<le> length r1" "length r1 < length r"
    using skip_ws_shorter [of r1] 4 by (auto dest: parse_str_shorter)
  then show ?case using 4 by simp
next
  case (5 d s c r a k r1 c1 r2 b v r3 c2 r4)
  then show ?case using skip_ws_shorter [of r4] by simp
qed auto

declare parse_value.simps [simp del] parse_members.simps [simp del] parse_elems.simps [simp del]

text \<open>Whatever is parsed, the strings of the result are valid UTF-8.\<close>

fun json_text :: "json \<Rightarrow> bool" where
  "json_text (JStr s) = valid_utf8 s"
| "json_text (JArr xs) = (\<forall>x\<in>set xs. json_text x)"
| "json_text (JObj kvs) = (\<forall>(k, v)\<in>set kvs. valid_utf8 k \<and> json_text v)"
| "json_text _ = True"

lemma valid_rune:
  assumes "rune_len s \<noteq> 0" "\<not> code (hd s) < 128" "valid_utf8 t"
  shows "valid_utf8 (take (rune_len s) s @ t)"
proof -
  define r where "r = take (rune_len s) s"
  have s: "s \<noteq> []" using assms(1) by auto
  then obtain c r' where r: "r = c # r'" "c = hd s"
    using assms(1) by (cases s; cases "rune_len s") (simp_all add: r_def)
  have l: "length r = rune_len s" using rune_len_le [of s] by (simp add: r_def)
  have rl: "rune_len (r @ t) = length r"
    using rune_len_take [OF assms(1), of t] l by (simp add: r_def)
  have "drop (rune_len s) (r @ t) = t" by (simp add: l [symmetric])
  then show ?thesis
    using assms r rl l unfolding r_def [symmetric] by (simp add: valid_utf8.simps)
qed

lemma valid_ascii: "code c < 128 \<Longrightarrow> valid_utf8 (c # t) = valid_utf8 t"
  by (simp add: valid_utf8.simps)

lemma rune_len_utf8:
  assumes "128 \<le> r" "r < 1114112" "\<not> (55296 \<le> r \<and> r < 57344)"
  shows "rune_len (utf8 r) = length (utf8 r) \<and> \<not> code (hd (utf8 r)) < 128"
proof -
  consider "r < 2048" | "2048 \<le> r" "r < 65536" | "65536 \<le> r" by linarith
  then show ?thesis
  proof cases
    case 1
    define q m where "q = r div 64" and "m = r mod 64"
    have "2 \<le> q" "q < 32" "m < 64" using 1 assms(1) by (simp_all add: q_def m_def)
    moreover have "utf8 r = [char_of (192 + q), char_of (128 + m)]"
      using 1 assms(1) by (simp add: utf8_def q_def m_def)
    ultimately show ?thesis by (simp add: between_def)
  next
    case 2
    define q b m where "q = r div 4096" and "b = r div 64 mod 64" and "m = r mod 64"
    have "r div 64 div 64 = q" by (simp add: q_def flip: div_mult2_eq)
    then have r: "r = 4096 * q + 64 * b + m"
      using div_mult_mod_eq [of r 64] div_mult_mod_eq [of "r div 64" 64] unfolding b_def m_def by linarith
    have bm: "b < 64" "m < 64" by (simp_all add: b_def m_def)
    then have q: "q < 16" "q = 0 \<Longrightarrow> 32 \<le> b" "q = 13 \<Longrightarrow> b < 32" using 2 assms(3) r by linarith+
    have u: "utf8 r = [char_of (224 + q), char_of (128 + b), char_of (128 + m)]"
      using 2 by (simp add: utf8_def q_def b_def m_def)
    consider "q = 0" | "q = 13" | "0 < q" "q < 13" | "13 < q" by linarith
    then show ?thesis using bm q u by cases (simp_all add: between_def)
  next
    case 3
    define q b d m where "q = r div 262144" and "b = r div 4096 mod 64" and "d = r div 64 mod 64" and "m = r mod 64"
    have "r div 64 div 64 div 64 = q" "r div 64 div 64 mod 64 = b" by (simp_all add: q_def b_def flip: div_mult2_eq)
    then have r: "r = 262144 * q + 4096 * b + 64 * d + m"
      using div_mult_mod_eq [of r 64] div_mult_mod_eq [of "r div 64" 64] div_mult_mod_eq [of "r div 64 div 64" 64]
      unfolding d_def m_def by linarith
    have bm: "b < 64" "d < 64" "m < 64" by (simp_all add: b_def d_def m_def)
    then have q: "q < 5" "q = 0 \<Longrightarrow> 16 \<le> b" "q = 4 \<Longrightarrow> b < 16" using 3 assms(2) r by linarith+
    have u: "utf8 r = [char_of (240 + q), char_of (128 + b), char_of (128 + d), char_of (128 + m)]"
      using 3 by (simp add: utf8_def q_def b_def d_def m_def)
    consider "q = 0" | "q = 4" | "0 < q" "q < 4" using q(1) by linarith
    then show ?thesis using bm q u by cases (simp_all add: between_def)
  qed
qed

lemma length_utf8: "0 < length (utf8 r)"
  by (simp add: utf8_def)

lemma valid_utf8_utf8:
  assumes "r < 1114112" "\<not> (55296 \<le> r \<and> r < 57344)" "valid_utf8 t"
  shows "valid_utf8 (utf8 r @ t)"
proof (cases "r < 128")
  case True
  then show ?thesis using assms(3) by (simp add: utf8_def valid_ascii)
next
  case False
  then have r: "rune_len (utf8 r) = length (utf8 r)" "\<not> code (hd (utf8 r)) < 128"
    using rune_len_utf8 [of r] assms by simp_all
  then show ?thesis using valid_rune [of "utf8 r" t] length_utf8 [of r] assms(3) by simp
qed

lemma hex_val_less: "hex_val c = Some n \<Longrightarrow> n < 16"
  by (auto simp: hex_val_def split: if_splits)

lemma hex4_less: "hex4 s = Some (v, t) \<Longrightarrow> v < 65536"
  by (cases s rule: hex4.cases) (auto split: bind_splits dest!: hex_val_less)

lemma low_surrogate_range: "low_surrogate hi s = Some (v, t) \<Longrightarrow> 55296 \<le> hi \<Longrightarrow> 65536 \<le> v \<and> v < 1114112"
  by (auto simp: low_surrogate_def split: list.splits if_splits option.splits prod.splits)

lemma hex4_both: "hex4 s = Some (v, t) \<Longrightarrow> length t < length s \<and> v < 65536"
  using hex4_shorter hex4_less by blast

lemma low_surrogate_both:
  "low_surrogate hi s = Some (v, t) \<Longrightarrow> length t < length s \<and> (55296 \<le> hi \<longrightarrow> 65536 \<le> v \<and> v < 1114112)"
  using low_surrogate_shorter low_surrogate_range by blast

lemma valid_simple_esc: "simple_esc e = Some d \<Longrightarrow> code d < 128"
  by (auto simp: simple_esc_def code_def split: if_splits)

lemma valid_replacement: "valid_utf8 t \<Longrightarrow> valid_utf8 (replacement @ t)"
  unfolding replacement_def by (rule valid_utf8_utf8) simp_all

lemma emit_valid:
  assumes "emit b x = Some (v, r)" "\<And>w. x = Some (w, r) \<Longrightarrow> valid_utf8 w" "\<And>w. valid_utf8 w \<Longrightarrow> valid_utf8 (b @ w)"
  shows "valid_utf8 v"
  using assms by (auto simp: emit_def)

lemma parse_str_valid: "parse_str s = Some (v, r) \<Longrightarrow> valid_utf8 v"
proof (induction s arbitrary: v r rule: measure_induct_rule [of length])
  case (less s)
  have IH: "valid_utf8 v" if "emit b (parse_str t) = Some (v, r)" "length t < length s"
      "\<And>w. valid_utf8 w \<Longrightarrow> valid_utf8 (b @ w)" for b t
    by (rule emit_valid [OF that(1)]) (use less.IH [OF that(2)] that(3) in auto)
  show ?case
  proof (cases s)
    case (Cons c t)
    show ?thesis
      using less.prems Cons
      by (auto simp: parse_str.simps(2) [of c t] valid_ascii valid_simple_esc valid_replacement
          split: if_splits list.splits option.splits prod.splits
          dest!: hex4_both low_surrogate_both elim!: IH intro!: valid_utf8_utf8 valid_rune)
  qed (use less.prems in simp)
qed

lemma literal_good: "literal t v s = Some (w, r) \<Longrightarrow> t \<noteq> [] \<Longrightarrow> length r < length s \<and> w = v"
  by (cases s) (auto simp: literal_def split: if_splits)

lemma parse_num_shorter: "parse_num s = Some (v, r) \<Longrightarrow> length r < length s"
proof -
  assume p: "parse_num s = Some (v, r)"
  define s1 where "s1 = (case s of c # r \<Rightarrow> if c = CHR ''-'' then r else s | [] \<Rightarrow> s)"
  have s1: "length s1 \<le> length s" by (auto simp: s1_def split: list.splits)
  have i: "num_int x = Some (y, z) \<Longrightarrow> length z < length x" for x y z
    by (auto simp: num_int_def le_imp_less_Suc length_dropWhile_le split: list.splits if_splits)
  have g: "num_digits a x = Some (y, z) \<Longrightarrow> length z \<le> length x" for a x y z
    by (auto simp: num_digits_def length_dropWhile_le split: if_splits)
  have f: "num_frac x = Some (y, z) \<Longrightarrow> length z \<le> length x" for x y z
    by (auto simp: num_frac_def dest: g split: list.splits if_splits)
  have e: "num_exp x = Some (y, z) \<Longrightarrow> length z \<le> length x" for x y z
    by (auto simp: num_exp_def dest: g split: list.splits if_splits)
  obtain a s2 b s3 c where "num_int s1 = Some (a, s2)" "num_frac s2 = Some (b, s3)" "num_exp s3 = Some (c, r)"
    using p by (auto simp: parse_num_def s1_def Let_def split: list.splits if_splits bind_splits)
  then show ?thesis using i [of s1] f [of s2] e [of s3] s1 by fastforce
qed

lemma parse_good:
  "parse_value d s = Some (v, r) \<Longrightarrow> length r < length s \<and> json_text v"
  "parse_members d s = Some (kvs, r) \<Longrightarrow> length r < length s \<and> json_text (JObj kvs)"
  "parse_elems d s = Some (vs, r) \<Longrightarrow> length r < length s \<and> json_text (JArr vs)"
proof (induction d s and d s and d s arbitrary: v r and kvs r and vs r
    rule: parse_value_parse_members_parse_elems.induct)
  case (1 d s)
  obtain c t where c: "skip_ws s = c # t"
    using "1.prems" by (auto simp: parse_value.simps split: list.splits)
  have l: "length (c # t) \<le> length s" using skip_ws_shorter [of s] by (simp add: c)
  consider (obj) "c = CHR 0x7B" | (arr) "c = CHR ''[''" | (other) "c \<noteq> CHR 0x7B" "c \<noteq> CHR ''[''" by blast
  then show ?case
  proof cases
    case obj
    then obtain e u where e: "skip_ws t = e # u" "d \<noteq> 0"
      using "1.prems" by (auto simp: parse_value.simps c split: list.splits if_splits)
    have "length (e # u) \<le> length t" using skip_ws_shorter [of t] by (simp add: e)
    then show ?thesis
      using "1.prems" obj e l "1.IH"(1) [OF c obj e(2,1)]
      by (auto simp: parse_value.simps c split: if_splits)
  next
    case arr
    then obtain e u where e: "skip_ws t = e # u" "d \<noteq> 0"
      using "1.prems" by (auto simp: parse_value.simps c split: list.splits if_splits)
    have "length (e # u) \<le> length t" using skip_ws_shorter [of t] by (simp add: e)
    then show ?thesis
      using "1.prems" arr e l "1.IH"(2) [OF c _ arr e(2,1)]
      by (auto simp: parse_value.simps c split: if_splits)
  next
    case other
    then show ?thesis
      using "1.prems" l
      by (auto simp: parse_value.simps c split: if_splits
          dest!: parse_num_shorter literal_good dest: parse_str_shorter parse_str_valid)
  qed
next
  case (2 d s)
  obtain t k r1 r2 v r3 c2 r4 where t: "s = CHR 0x22 # t" "parse_str t = Some (k, r1)" "skip_ws r1 = CHR '':'' # r2"
    "parse_value d r2 = Some (v, r3)" "skip_ws r3 = c2 # r4" "c2 = CHR 0x7D \<or> c2 = CHR '','' \<and> length r4 < length s"
    using "2.prems" by (auto simp: parse_members.simps split: list.splits if_splits option.splits prod.splits)
  have l: "length r1 < length t" "length r2 < length r1" "length r4 < length r3"
    using parse_str_shorter [OF t(2)] skip_ws_shorter [of r1] skip_ws_shorter [of r3] by (simp_all add: t)
  have v: "length r3 < length r2" "json_text v" "valid_utf8 k"
    using "2.IH"(1) [OF t(1) _ t(2) refl t(3) _ t(4)] parse_str_valid [OF t(2)] by simp_all
  show ?case
  proof (cases "c2 = CHR 0x7D")
    case True
    then show ?thesis using "2.prems" t v l by (auto simp: parse_members.simps)
  next
    case False
    then obtain kvs' where k: "parse_members d (skip_ws r4) = Some (kvs', r)" "kvs = (k, v) # kvs'"
      using "2.prems" t by (auto simp: parse_members.simps)
    have "length r < length (skip_ws r4) \<and> json_text (JObj kvs')"
      by (rule "2.IH"(2) [OF t(1) _ t(2) refl t(3) _ t(4) refl t(5) False _ k(1)]) (use t(6) False in simp_all)
    then show ?thesis using v l k(2) skip_ws_shorter [of r4] by (simp add: t(1))
  qed
next
  case (3 d s)
  obtain v r1 c t where t: "parse_value d s = Some (v, r1)" "skip_ws r1 = c # t"
    "c = CHR '']'' \<or> c = CHR '','' \<and> length t < length s"
    using "3.prems" by (auto simp: parse_elems.simps split: list.splits if_splits option.splits prod.splits)
  have v: "length r1 < length s" "json_text v" using "3.IH"(1) [OF t(1)] by simp_all
  have l: "length t < length r1" using skip_ws_shorter [of r1] by (simp add: t)
  show ?case
  proof (cases "c = CHR '']''")
    case True
    then show ?thesis using "3.prems" t v l by (auto simp: parse_elems.simps)
  next
    case False
    then obtain vs' where k: "parse_elems d t = Some (vs', r)" "vs = v # vs'"
      using "3.prems" t by (auto simp: parse_elems.simps)
    have "length r < length t \<and> json_text (JArr vs')"
      by (rule "3.IH"(2) [OF t(1) refl t(2) False _ k(1)]) (use t(3) False in simp_all)
    then show ?thesis using v l k(2) by simp
  qed
qed

definition parse_json :: "bytes \<Rightarrow> json option" where
  "parse_json s =
     (case parse_value 10000 s of
        None \<Rightarrow> None
      | Some (v, r) \<Rightarrow> if skip_ws r = [] then Some v else None)"

lemma parse_json_text: "parse_json s = Some v \<Longrightarrow> json_text v"
  using parse_good(1) by (auto simp: parse_json_def split: option.splits if_splits)

section \<open>Values round-trip\<close>

text \<open>
  The values the program prints: valid strings, numbers written by \<open>strconv\<close>, and at most
  \<open>d\<close> levels of nesting.
\<close>

fun printable :: "nat \<Rightarrow> json \<Rightarrow> bool" where
  "printable d (JNum n) = (\<exists>i. n = dec_int i)"
| "printable d (JStr s) = valid_utf8 s"
| "printable d (JArr xs) = (d > 0 \<and> (\<forall>x\<in>set xs. printable (d - 1) x))"
| "printable d (JObj kvs) = (d > 0 \<and> (\<forall>(k, v)\<in>set kvs. valid_utf8 k \<and> printable (d - 1) v))"
| "printable d _ = True"

text \<open>What may follow a value inside a larger one.\<close>

definition ends :: "bytes \<Rightarrow> bool" where
  "ends s \<longleftrightarrow> s = [] \<or> hd s \<in> {CHR '','', CHR 0x7D, CHR '']''}"

lemma ends_simps [simp]:
  "ends []" "ends (CHR '','' # s)" "ends (CHR 0x7D # s)" "ends (CHR '']'' # s)"
  by (simp_all add: ends_def)

lemma skip_ws_Cons: "\<not> is_ws c \<Longrightarrow> skip_ws (c # s) = c # s"
  by (simp add: skip_ws_def)

lemma digit_facts: "is_digit c \<Longrightarrow> \<not> is_ws c \<and> c \<notin> {CHR 0x7B, CHR ''['', CHR '']'', CHR 0x22, CHR ''t'', CHR ''f'', CHR ''n'', CHR ''-''}"
  by (auto simp: is_digit_def is_ws_def code_def)

lemma digit_0_iff: "n < 10 \<Longrightarrow> digit n = CHR ''0'' \<longleftrightarrow> n = 0"
proof -
  assume n: "n < 10"
  have "digit n = CHR ''0'' \<longleftrightarrow> code (digit n) = code (CHR ''0'')" by simp
  also have "\<dots> \<longleftrightarrow> n = 0" using n by (simp del: code_inject) (simp add: code_def)
  finally show ?thesis .
qed

lemma hd_dec_nat_0: "hd (dec_nat n) = CHR ''0'' \<longleftrightarrow> n = 0"
proof (induction n rule: dec_nat.induct)
  case (1 n)
  then show ?case by (cases "n < 10") (auto simp: dec_nat.simps [of n] digit_0_iff)
qed

lemma takeWhile_digits:
  assumes "list_all is_digit a" "ends r"
  shows "takeWhile is_digit (a @ r) = a" "dropWhile is_digit (a @ r) = r"
proof -
  have "takeWhile is_digit r = []" "dropWhile is_digit r = r"
    using assms(2) by (cases r; auto simp: ends_def is_digit_def code_def)+
  then show "takeWhile is_digit (a @ r) = a" "dropWhile is_digit (a @ r) = r"
    using assms(1) by (simp_all add: list_all_iff)
qed

lemma num_int_dec_nat:
  assumes "ends r"
  shows "num_int (dec_nat n @ r) = Some (dec_nat n, r)"
proof (cases "n = 0")
  case True
  then show ?thesis by (simp add: num_int_def dec_nat.simps digit_0_iff)
next
  case False
  obtain c cs where c: "dec_nat n = c # cs" by (metis dec_nat_nonempty list.exhaust)
  have "c \<noteq> CHR ''0''" "is_digit c"
    using hd_dec_nat_0 [of n] hd_dec_nat [of n] False c by simp_all
  then show ?thesis
    using takeWhile_digits [OF dec_nat_digits assms, of n] by (simp add: num_int_def c)
qed

lemma num_end: "ends r \<Longrightarrow> num_frac r = Some ([], r)" "ends r \<Longrightarrow> num_exp r = Some ([], r)"
  by (cases r; auto simp: num_frac_def num_exp_def ends_def)+

lemma parse_num_dec_int:
  assumes "ends r"
  shows "parse_num (dec_int i @ r) = Some (dec_int i, r)"
proof -
  obtain c cs where c: "dec_nat (nat i) = c # cs" by (metis dec_nat_nonempty list.exhaust)
  have "c \<noteq> CHR ''-''" using dec_nat_sign [of "nat i"] c by simp
  then show ?thesis
    using num_int_dec_nat [OF assms, of "nat i"] num_int_dec_nat [OF assms, of "nat (- i)"] num_end [OF assms]
    by (simp add: parse_num_def dec_int_def c)
qed

lemma hd_dec_int:
  obtains c cs where "dec_int i = c # cs"
    "\<not> is_ws c \<and> c \<notin> {CHR 0x7B, CHR ''['', CHR '']'', CHR 0x22, CHR ''t'', CHR ''f'', CHR ''n''}"
proof (cases "i < 0")
  case True
  show ?thesis by (rule that [of "CHR ''-''" "dec_nat (nat (- i))"]) (simp_all add: True dec_int_def is_ws_def code_def)
next
  case False
  obtain c cs where c: "dec_nat (nat i) = c # cs" by (metis dec_nat_nonempty list.exhaust)
  have "is_digit c" using hd_dec_nat [of "nat i"] c by simp
  then show ?thesis using that [of c cs] digit_facts [of c] False c by (simp add: dec_int_def)
qed

lemma parse_print_num:
  assumes "ends r"
  shows "parse_value d (dec_int i @ r) = Some (JNum (dec_int i), r)"
proof -
  obtain c cs where c: "dec_int i = c # cs"
    "\<not> is_ws c \<and> c \<notin> {CHR 0x7B, CHR ''['', CHR '']'', CHR 0x22, CHR ''t'', CHR ''f'', CHR ''n''}"
    by (rule hd_dec_int)
  then show ?thesis
    using parse_num_dec_int [OF assms, of i] by (simp add: parse_value.simps skip_ws_Cons)
qed

lemma not_ws [simp]: "\<not> is_ws CHR 0x22" "\<not> is_ws CHR 0x7B" "\<not> is_ws CHR 0x7D"
  "\<not> is_ws CHR ''[''" "\<not> is_ws CHR '']''" "\<not> is_ws CHR '',''" "\<not> is_ws CHR '':''"
  "\<not> is_ws CHR ''t''" "\<not> is_ws CHR ''f''" "\<not> is_ws CHR ''n''"
  by (simp_all add: is_ws_def code_def)

text \<open>The members of an object, separated by commas.\<close>

definition print_member :: "bytes \<times> json \<Rightarrow> bytes" where
  "print_member kv = print_str (fst kv) @ CHR '':'' # print_json (snd kv)"

lemma print_json_JObj:
  "print_json (JObj kvs) = CHR 0x7B # commas (map print_member kvs) @ [CHR 0x7D]"
proof -
  have "map (\<lambda>(k, v). print_str k @ CHR '':'' # v) (map (map_prod id print_json) kvs) = map print_member kvs"
    by (auto simp: print_member_def)
  then show ?thesis by (simp only: print_json.simps)
qed

lemma parse_members_print:
  assumes "kvs \<noteq> []"
    and "\<And>kv r. kv \<in> set kvs \<Longrightarrow> ends r \<Longrightarrow> parse_value d (print_json (snd kv) @ r) = Some (snd kv, r)"
    and "\<And>kv. kv \<in> set kvs \<Longrightarrow> valid_utf8 (fst kv)"
  shows "parse_members d (commas (map print_member kvs) @ CHR 0x7D # rest) = Some (kvs, rest)"
  using assms
proof (induction kvs)
  case (Cons kv kvs)
  have k: "valid_utf8 (fst kv)" using Cons.prems(3) by simp
  have v: "ends r \<Longrightarrow> parse_value d (print_json (snd kv) @ r) = Some (snd kv, r)" for r
    using Cons.prems(2) by simp
  show ?case
  proof (cases kvs)
    case Nil
    then show ?thesis
      by (simp add: print_member_def print_str_def parse_members.simps parse_esc k v skip_ws_Cons)
  next
    case (Cons kv' kvs')
    define m where "m = commas (map print_member kvs) @ CHR 0x7D # rest"
    have IH: "parse_members d m = Some (kvs, rest)"
      unfolding m_def by (rule Cons.IH) (simp_all add: Cons.prems local.Cons)
    have ws: "skip_ws m = m"
      by (cases kvs') (simp_all add: m_def local.Cons print_member_def print_str_def skip_ws_Cons)
    have "commas (map print_member (kv # kvs)) @ CHR 0x7D # rest
        = CHR 0x22 # esc (fst kv) @ CHR 0x22 # CHR '':'' # print_json (snd kv) @ CHR '','' # m"
      by (simp add: m_def local.Cons print_member_def print_str_def)
    then show ?thesis
      by (simp add: parse_members.simps [of d "CHR 0x22 # _"] parse_esc k v skip_ws_Cons ws IH)
  qed
qed simp

lemma parse_elems_print:
  assumes "xs \<noteq> []"
    and "\<And>v r. v \<in> set xs \<Longrightarrow> ends r \<Longrightarrow> parse_value d (print_json v @ r) = Some (v, r)"
  shows "parse_elems d (commas (map print_json xs) @ CHR '']'' # rest) = Some (xs, rest)"
  using assms
proof (induction xs)
  case (Cons x xs)
  show ?case
  proof (cases xs)
    case Nil
    then show ?thesis by (simp add: parse_elems.simps Cons.prems skip_ws_Cons)
  next
    case (Cons y ys)
    then show ?thesis
      using Cons.IH Cons.prems
      by (simp add: parse_elems.simps [of d "print_json x @ _"] skip_ws_Cons)
  qed
qed simp

lemma hd_print:
  assumes "printable d v"
  shows "\<exists>c s. print_json v = c # s \<and> \<not> is_ws c \<and> c \<noteq> CHR '']''"
proof (cases v)
  case (JNum n)
  with assms obtain i where i: "n = dec_int i" by auto
  show ?thesis by (rule hd_dec_int [of i]) (simp add: JNum i)
qed (simp_all add: print_str_def)

lemma parse_print: "printable d v \<Longrightarrow> ends r \<Longrightarrow> parse_value d (print_json v @ r) = Some (v, r)"
proof (induction v arbitrary: d r)
  case JNull
  show ?case by (simp add: parse_value.simps skip_ws_Cons literal_def)
next
  case (JBool b)
  show ?case by (cases b) (simp_all add: parse_value.simps skip_ws_Cons literal_def)
next
  case (JStr s)
  then show ?case by (simp add: parse_value.simps skip_ws_Cons print_str_def parse_esc)
next
  case (JNum n)
  then show ?case by (auto simp: parse_print_num)
next
  case (JArr xs)
  show ?case
  proof (cases xs)
    case Nil
    then show ?thesis using JArr.prems by (simp add: parse_value.simps skip_ws_Cons)
  next
    case (Cons x ys)
    obtain c s where c: "print_json x = c # s" "\<not> is_ws c" "c \<noteq> CHR '']''"
      using hd_print [of "d - 1" x] JArr.prems(1) Cons by auto
    have e: "parse_elems (d - 1) (commas (map print_json xs) @ CHR '']'' # r) = Some (xs, r)"
      using JArr Cons by (intro parse_elems_print) auto
    obtain t where t: "commas (map print_json xs) = c # t"
      using c Cons by (cases ys) auto
    show ?thesis
      using e JArr.prems(1) c by (simp add: parse_value.simps skip_ws_Cons t)
  qed
next
  case (JObj kvs)
  show ?case
  proof (cases kvs)
    case Nil
    then show ?thesis using JObj.prems by (simp add: parse_value.simps skip_ws_Cons)
  next
    case (Cons kv ys)
    have p: "valid_utf8 (fst kv) \<and> printable (d - 1) (snd kv)" if "kv \<in> set kvs" for kv
      using JObj.prems(1) that by auto
    have v: "parse_value (d - 1) (print_json (snd kv) @ r) = Some (snd kv, r)" if "kv \<in> set kvs" "ends r" for kv r
      by (rule JObj.IH [OF that(1) _ _ that(2)]) (use p [OF that(1)] in \<open>auto simp: snds.simps\<close>)
    have e: "parse_members (d - 1) (commas (map print_member kvs) @ CHR 0x7D # r) = Some (kvs, r)"
      by (rule parse_members_print) (use Cons p v in blast)+
    obtain t where t: "commas (map print_member kvs) = CHR 0x22 # t"
      using Cons by (cases ys) (auto simp: print_member_def print_str_def)
    show ?thesis
      using e JObj.prems(1) unfolding print_json_JObj t by (simp add: parse_value.simps skip_ws_Cons)
  qed
qed

theorem parse_json_print: "printable 10000 v \<Longrightarrow> parse_json (print_json v) = Some v"
  using parse_print [of 10000 v "[]"] by (simp add: parse_json_def skip_ws_def)

end
