(* ===== verification/Codec.thy ===== *)
theory Codec
  imports Json Model
begin

text \<open>
  \<open>json.Unmarshal\<close> into structs: a field is found by its name without regard to case, an
  unknown key is skipped, \<open>null\<close> leaves a field as it is, and a value of the wrong kind makes
  the whole call fail. On top of it the codecs of \<open>durable-mq/model\<close>, with round trips for
  every value whose strings are valid UTF-8 and whose integers fit Go's \<open>int\<close>.
\<close>

section \<open>Decoding into a struct\<close>

text \<open>
  Folding of field names: ASCII letters to upper case, and the two other code points that
  Unicode folds to ASCII letters (U+212A to K, U+017F to S). Field names are ASCII, so
  no other folding can make a key match one.
\<close>

definition upper :: "char \<Rightarrow> char" where
  "upper c = (if 97 \<le> code c \<and> code c \<le> 122 then char_of (code c - 32) else c)"

fun fold_key :: "bytes \<Rightarrow> bytes" where
  "fold_key (a # b # c # s) =
     (if map code [a, b, c] = [226, 132, 170] then CHR ''K'' # fold_key s
      else if map code [a, b] = [197, 191] then CHR ''S'' # fold_key (c # s)
      else upper a # fold_key (b # c # s))"
| "fold_key [a, b] = (if map code [a, b] = [197, 191] then ''S'' else [upper a, upper b])"
| "fold_key [a] = [upper a]"
| "fold_key [] = []"

type_synonym 'a field = "string \<times> (json \<Rightarrow> 'a \<Rightarrow> 'a option)"

fun set_field :: "'a field list \<Rightarrow> bytes \<Rightarrow> json \<Rightarrow> 'a \<Rightarrow> 'a option" where
  "set_field [] k v a = Some a"
| "set_field ((n, f) # fs) k v a = (if fold_key n = fold_key k then f v a else set_field fs k v a)"

fun set_fields :: "'a field list \<Rightarrow> (bytes \<times> json) list \<Rightarrow> 'a \<Rightarrow> 'a option" where
  "set_fields fs [] a = Some a"
| "set_fields fs ((k, v) # kvs) a = do { a' \<leftarrow> set_field fs k v a; set_fields fs kvs a' }"

definition set_struct :: "'a field list \<Rightarrow> json \<Rightarrow> 'a \<Rightarrow> 'a option" where
  "set_struct fs v a =
     (case v of JObj kvs \<Rightarrow> set_fields fs kvs a | JNull \<Rightarrow> Some a | _ \<Rightarrow> None)"

definition set_string :: "(string \<Rightarrow> 'a \<Rightarrow> 'a) \<Rightarrow> json \<Rightarrow> 'a \<Rightarrow> 'a option" where
  "set_string upd v a = (case v of JStr s \<Rightarrow> Some (upd s a) | JNull \<Rightarrow> Some a | _ \<Rightarrow> None)"

definition set_int :: "(int \<Rightarrow> 'a \<Rightarrow> 'a) \<Rightarrow> json \<Rightarrow> 'a \<Rightarrow> 'a option" where
  "set_int upd v a =
     (case v of
        JNum n \<Rightarrow> map_option (\<lambda>i. upd i a) (ParseInt64 n)
      | JNull \<Rightarrow> Some a
      | _ \<Rightarrow> None)"

definition Unmarshal :: "'a field list \<Rightarrow> 'a \<Rightarrow> bytes \<Rightarrow> 'a option" where
  "Unmarshal fs zero b = do { v \<leftarrow> parse_json b; set_struct fs v zero }"

text \<open>A map: each element is decoded from the zero value and stored; \<open>null\<close> empties the map.\<close>

fun set_entries :: "(json \<Rightarrow> 'v option) \<Rightarrow> (bytes \<times> json) list \<Rightarrow> (string, 'v) fmap \<Rightarrow> (string, 'v) fmap option" where
  "set_entries elem [] m = Some m"
| "set_entries elem ((k, v) # kvs) m = do { x \<leftarrow> elem v; set_entries elem kvs (fmupd k x m) }"

definition set_map :: "(json \<Rightarrow> 'v option) \<Rightarrow> json \<Rightarrow> (string, 'v) fmap \<Rightarrow> (string, 'v) fmap option" where
  "set_map elem v m =
     (case v of JObj kvs \<Rightarrow> set_entries elem kvs m | JNull \<Rightarrow> Some fmempty | _ \<Rightarrow> None)"

text \<open>\<open>json.Marshal\<close> writes the entries of a map in the order of their keys.\<close>

definition json_map :: "('v \<Rightarrow> json) \<Rightarrow> (string, 'v) fmap \<Rightarrow> json" where
  "json_map f m = JObj (map (\<lambda>k. (k, f (the (fmlookup m k)))) (sorted_list_of_fset (fmdom m)))"

lemma set_entries_keys:
  assumes "\<And>k. k \<in> set ks \<Longrightarrow> elem (f (the (fmlookup m k))) = Some (the (fmlookup m k))"
    and "set ks \<subseteq> fset (fmdom m)"
  shows "\<exists>m'. set_entries elem (map (\<lambda>k. (k, f (the (fmlookup m k)))) ks) m0 = Some m' \<and>
    (\<forall>k. fmlookup m' k = (if k \<in> set ks then fmlookup m k else fmlookup m0 k))"
  using assms
proof (induction ks arbitrary: m0)
  case (Cons k ks)
  obtain m' where m': "set_entries elem (map (\<lambda>k. (k, f (the (fmlookup m k)))) ks)
      (fmupd k (the (fmlookup m k)) m0) = Some m'"
    "\<forall>k'. fmlookup m' k' = (if k' \<in> set ks then fmlookup m k' else fmlookup (fmupd k (the (fmlookup m k)) m0) k')"
    using Cons.IH [of "fmupd k (the (fmlookup m k)) m0"] Cons.prems by auto
  have "k |\<in>| fmdom m" using Cons.prems(2) by auto
  then obtain x where "fmlookup m k = Some x" by (auto simp: fmlookup_dom_iff)
  then show ?case using m' Cons.prems(1) [of k] by auto
qed simp

lemma set_map_json_map:
  assumes "\<And>k x. fmlookup m k = Some x \<Longrightarrow> elem (f x) = Some x"
  shows "set_map elem (json_map f m) fmempty = Some m"
proof -
  have ks: "set (sorted_list_of_fset (fmdom m)) = fset (fmdom m)"
    by (simp add: sorted_list_of_fset.rep_eq)
  obtain m' where m': "set_entries elem (map (\<lambda>k. (k, f (the (fmlookup m k)))) (sorted_list_of_fset (fmdom m))) fmempty = Some m'"
    "\<forall>k. fmlookup m' k = (if k \<in> set (sorted_list_of_fset (fmdom m)) then fmlookup m k else fmlookup fmempty k)"
    using set_entries_keys [of "sorted_list_of_fset (fmdom m)" elem f m fmempty] assms
    by (auto simp: ks fmlookup_dom_iff)
  have "fmlookup m' k = fmlookup m k" for k
    using m'(2) ks by (auto simp: fmdom_notD)
  then have "m' = m" by (rule fmap_ext)
  then show ?thesis using m'(1) by (simp add: set_map_def json_map_def)
qed

section \<open>Policies\<close>

definition zero_SubPolicy :: SubPolicy where
  "zero_SubPolicy = \<lparr>SubName = [], SubURL = [], NumberOfRetries = 0\<rparr>"

definition SubPolicy_fields :: "SubPolicy field list" where
  "SubPolicy_fields =
     [(''SubName'', set_string (\<lambda>s p. p\<lparr>SubName := s\<rparr>)),
      (''SubURL'', set_string (\<lambda>s p. p\<lparr>SubURL := s\<rparr>)),
      (''NumberOfRetries'', set_int (\<lambda>i p. p\<lparr>NumberOfRetries := i\<rparr>))]"

definition json_SubPolicy :: "SubPolicy \<Rightarrow> json" where
  "json_SubPolicy p =
     JObj [(''SubName'', JStr (SubName p)), (''SubURL'', JStr (SubURL p)),
           (''NumberOfRetries'', JNum (dec_int (NumberOfRetries p)))]"

definition EncodeSubPolicy :: "SubPolicy \<Rightarrow> bytes" where
  "EncodeSubPolicy p = print_json (json_SubPolicy p)"

definition DecodeSubPolicy :: "bytes \<Rightarrow> SubPolicy option" where
  "DecodeSubPolicy b = Unmarshal SubPolicy_fields zero_SubPolicy b"

definition int64 :: "int \<Rightarrow> bool" where
  "int64 i \<longleftrightarrow> - (2 ^ 63) \<le> i \<and> i < 2 ^ 63"

definition policy_text :: "SubPolicy \<Rightarrow> bool" where
  "policy_text p \<longleftrightarrow> valid_utf8 (SubName p) \<and> valid_utf8 (SubURL p) \<and> int64 (NumberOfRetries p)"

definition policies_text :: "policies \<Rightarrow> bool" where
  "policies_text m \<longleftrightarrow> (\<forall>k p. fmlookup m k = Some p \<longrightarrow> valid_utf8 k \<and> policy_text p)"

text \<open>Evaluation of field names.\<close>

named_theorems struct_simps

lemma set_string_simps [struct_simps]:
  "set_string upd (JStr s) a = Some (upd s a)" "set_string upd JNull a = Some a"
  by (simp_all add: set_string_def)

lemma set_int_dec [struct_simps]: "int64 i \<Longrightarrow> set_int upd (JNum (dec_int i)) a = Some (upd i a)"
  by (simp add: set_int_def ParseInt64_dec_int int64_def)

lemma fold_key_fields [struct_simps]:
  "fold_key ''SubName'' = ''SUBNAME''" "fold_key ''SubURL'' = ''SUBURL''"
  "fold_key ''NumberOfRetries'' = ''NUMBEROFRETRIES''"
  "fold_key ''MsgId'' = ''MSGID''" "fold_key ''MsgContent'' = ''MSGCONTENT''"
  "fold_key ''SubList'' = ''SUBLIST''"
  "fold_key ''FileName'' = ''FILENAME''" "fold_key ''FileChecksum'' = ''FILECHECKSUM''"
  by code_simp+

declare fold_key.simps [simp del]

lemma set_struct_SubPolicy:
  "int64 (NumberOfRetries p) \<Longrightarrow> set_struct SubPolicy_fields (json_SubPolicy p) zero_SubPolicy = Some p"
  by (simp add: set_struct_def json_SubPolicy_def SubPolicy_fields_def zero_SubPolicy_def struct_simps)

lemma printable_SubPolicy: "policy_text p \<Longrightarrow> d > 0 \<Longrightarrow> printable d (json_SubPolicy p)"
  by (auto simp: json_SubPolicy_def policy_text_def valid_utf8.simps code_def)

lemma DecodeSubPolicy_Encode:
  assumes "policy_text p"
  shows "DecodeSubPolicy (EncodeSubPolicy p) = Some p"
proof -
  have "printable 10000 (json_SubPolicy p)" using assms by (simp add: printable_SubPolicy)
  moreover have "int64 (NumberOfRetries p)" using assms by (simp add: policy_text_def)
  ultimately show ?thesis
    by (simp add: DecodeSubPolicy_def EncodeSubPolicy_def Unmarshal_def parse_json_print set_struct_SubPolicy)
qed

section \<open>Acknowledgements\<close>

record Ack =
  ackMsgId :: string
  ackSubName :: string

definition Ack_fields :: "Ack field list" where
  "Ack_fields =
     [(''MsgId'', set_string (\<lambda>s a. a\<lparr>ackMsgId := s\<rparr>)),
      (''SubName'', set_string (\<lambda>s a. a\<lparr>ackSubName := s\<rparr>))]"

definition EncodeAck :: "Ack \<Rightarrow> bytes" where
  "EncodeAck p = print_json (JObj [(''MsgId'', JStr (ackMsgId p)), (''SubName'', JStr (ackSubName p))])"

definition DecodeAck :: "bytes \<Rightarrow> Ack option" where
  "DecodeAck b = Unmarshal Ack_fields \<lparr>ackMsgId = [], ackSubName = []\<rparr> b"

lemma valid_field_names [simp]:
  "valid_utf8 ''SubName''" "valid_utf8 ''MsgId''" "valid_utf8 ''MsgContent''" "valid_utf8 ''SubList''"
  "valid_utf8 ''FileName''" "valid_utf8 ''FileChecksum''"
  by (simp_all add: valid_utf8.simps code_def)

lemma DecodeAck_Encode:
  assumes "valid_utf8 (ackMsgId a)" "valid_utf8 (ackSubName a)"
  shows "DecodeAck (EncodeAck a) = Some a"
proof -
  have "printable 10000 (JObj [(''MsgId'', JStr (ackMsgId a)), (''SubName'', JStr (ackSubName a))])"
    using assms by simp
  from parse_json_print [OF this] show ?thesis
    by (simp add: DecodeAck_def EncodeAck_def Unmarshal_def set_struct_def Ack_fields_def struct_simps)
qed

section \<open>Enqueued messages\<close>

record Enqueue =
  enqMsgId :: string
  MsgContent :: string
  SubList :: policies

definition decode_policy :: "json \<Rightarrow> SubPolicy option" where
  "decode_policy v = set_struct SubPolicy_fields v zero_SubPolicy"

definition Enqueue_fields :: "Enqueue field list" where
  "Enqueue_fields =
     [(''MsgId'', set_string (\<lambda>s e. e\<lparr>enqMsgId := s\<rparr>)),
      (''MsgContent'', set_string (\<lambda>s e. e\<lparr>MsgContent := s\<rparr>)),
      (''SubList'', \<lambda>v e. map_option (\<lambda>m. e\<lparr>SubList := m\<rparr>) (set_map decode_policy v (SubList e)))]"

text \<open>The coordinator always passes a map it has made, so \<open>SubList\<close> is written as an object.\<close>

definition json_Enqueue :: "Enqueue \<Rightarrow> json" where
  "json_Enqueue p =
     JObj [(''MsgId'', JStr (enqMsgId p)), (''MsgContent'', JStr (MsgContent p)),
           (''SubList'', json_map json_SubPolicy (SubList p))]"

definition EncodeEnqueue :: "Enqueue \<Rightarrow> bytes" where
  "EncodeEnqueue p = print_json (json_Enqueue p)"

definition DecodeEnqueue :: "bytes \<Rightarrow> Enqueue option" where
  "DecodeEnqueue b = Unmarshal Enqueue_fields \<lparr>enqMsgId = [], MsgContent = [], SubList = fmempty\<rparr> b"

lemma printable_json_map:
  assumes "d > 0" "\<And>k x. fmlookup m k = Some x \<Longrightarrow> valid_utf8 k \<and> printable (d - 1) (f x)"
  shows "printable d (json_map f m)"
proof -
  have "set (sorted_list_of_fset (fmdom m)) = fset (fmdom m)"
    by (simp add: sorted_list_of_fset.rep_eq)
  then show ?thesis using assms by (fastforce simp: json_map_def fmlookup_dom_iff)
qed

definition enqueue_text :: "Enqueue \<Rightarrow> bool" where
  "enqueue_text e \<longleftrightarrow> valid_utf8 (enqMsgId e) \<and> valid_utf8 (MsgContent e) \<and> policies_text (SubList e)"

lemma decode_policies:
  assumes "policies_text m"
  shows "set_map decode_policy (json_map json_SubPolicy m) fmempty = Some m"
  by (rule set_map_json_map)
    (use assms in \<open>auto simp: policies_text_def policy_text_def decode_policy_def intro!: set_struct_SubPolicy\<close>)

lemma DecodeEnqueue_Encode:
  assumes "enqueue_text e"
  shows "DecodeEnqueue (EncodeEnqueue e) = Some e"
proof -
  have m: "printable 9999 (json_map json_SubPolicy (SubList e))"
    by (rule printable_json_map)
      (use assms in \<open>auto simp: enqueue_text_def policies_text_def intro!: printable_SubPolicy\<close>)
  have "printable 10000 (json_Enqueue e)"
    using m assms by (simp add: json_Enqueue_def enqueue_text_def)
  from parse_json_print [OF this] show ?thesis
    using decode_policies [of "SubList e"] assms
    by (simp add: DecodeEnqueue_def EncodeEnqueue_def Unmarshal_def set_struct_def json_Enqueue_def
        Enqueue_fields_def enqueue_text_def struct_simps)
qed

section \<open>End of a checkpoint\<close>

record EndCheckpoint =
  FileName :: string
  FileChecksum :: string

definition EndCheckpoint_fields :: "EndCheckpoint field list" where
  "EndCheckpoint_fields =
     [(''FileName'', set_string (\<lambda>s e. e\<lparr>FileName := s\<rparr>)),
      (''FileChecksum'', set_string (\<lambda>s e. e\<lparr>FileChecksum := s\<rparr>))]"

definition EncodeEndCheckpoint :: "EndCheckpoint \<Rightarrow> bytes" where
  "EncodeEndCheckpoint e =
     print_json (JObj [(''FileName'', JStr (FileName e)), (''FileChecksum'', JStr (FileChecksum e))])"

definition DecodeEndCheckpoint :: "bytes \<Rightarrow> EndCheckpoint option" where
  "DecodeEndCheckpoint b = Unmarshal EndCheckpoint_fields \<lparr>FileName = [], FileChecksum = []\<rparr> b"

lemma DecodeEndCheckpoint_Encode:
  assumes "valid_utf8 (FileName e)" "valid_utf8 (FileChecksum e)"
  shows "DecodeEndCheckpoint (EncodeEndCheckpoint e) = Some e"
proof -
  have "printable 10000 (JObj [(''FileName'', JStr (FileName e)), (''FileChecksum'', JStr (FileChecksum e))])"
    using assms by simp
  from parse_json_print [OF this] show ?thesis
    by (simp add: DecodeEndCheckpoint_def EncodeEndCheckpoint_def Unmarshal_def set_struct_def
        EndCheckpoint_fields_def struct_simps)
qed

section \<open>What decoding can produce\<close>

text \<open>
  Whatever bytes are decoded, the strings of the result are valid UTF-8 and its integers
  are in range. \<open>field_keeps P\<close> says that setting a field keeps \<open>P\<close>.
\<close>

definition field_keeps :: "('a \<Rightarrow> bool) \<Rightarrow> 'a field \<Rightarrow> bool" where
  "field_keeps P f \<longleftrightarrow> (\<forall>v a a'. json_text v \<longrightarrow> P a \<longrightarrow> snd f v a = Some a' \<longrightarrow> P a')"

lemma set_field_keeps:
  "\<forall>f \<in> set fs. field_keeps P f \<Longrightarrow> json_text v \<Longrightarrow> P a \<Longrightarrow> set_field fs k v a = Some a' \<Longrightarrow> P a'"
proof (induction fs)
  case (Cons f fs)
  obtain n g where f: "f = (n, g)" by (cases f)
  show ?case
  proof (cases "fold_key n = fold_key k")
    case True
    have "field_keeps P f" using Cons.prems(1) by simp
    then show ?thesis
      unfolding field_keeps_def using Cons.prems(2-4) f True by simp
  next
    case False
    then have "set_field fs k v a = Some a'" using Cons.prems(4) f by simp
    then show ?thesis using Cons.IH Cons.prems(1-3) by simp
  qed
qed simp

lemma set_fields_keeps:
  assumes "\<forall>f \<in> set fs. field_keeps P f" "json_text (JObj kvs)" "P a" "set_fields fs kvs a = Some a'"
  shows "P a'"
  using assms
proof (induction kvs arbitrary: a)
  case (Cons kv kvs)
  obtain k v where kv: "kv = (k, v)" by (cases kv)
  then obtain a1 where a1: "set_field fs k v a = Some a1" "set_fields fs kvs a1 = Some a'"
    using Cons.prems(4) by (auto split: bind_splits)
  have "P a1" using set_field_keeps [OF Cons.prems(1) _ Cons.prems(3) a1(1)] Cons.prems(2) kv by simp
  then show ?case using Cons.IH [OF Cons.prems(1) _ _ a1(2)] Cons.prems(2) by simp
qed simp

lemma set_struct_keeps:
  "\<forall>f \<in> set fs. field_keeps P f \<Longrightarrow> json_text v \<Longrightarrow> P a \<Longrightarrow> set_struct fs v a = Some a' \<Longrightarrow> P a'"
  using set_fields_keeps [of fs P _ a a'] by (cases v) (simp_all add: set_struct_def del: json_text.simps)

lemma Unmarshal_keeps:
  assumes "Unmarshal fs zero b = Some a" "P zero" "\<forall>f \<in> set fs. field_keeps P f"
  shows "P a"
  using assms set_struct_keeps [OF assms(3) _ assms(2)]
  by (auto simp: Unmarshal_def dest: parse_json_text split: bind_splits)

lemma keeps_string:
  "(\<And>s a. valid_utf8 s \<Longrightarrow> P a \<Longrightarrow> P (upd s a)) \<Longrightarrow> field_keeps P (n, set_string upd)"
  by (auto simp: field_keeps_def set_string_def split: json.splits)

lemma ParseInt64_range: "ParseInt64 s = Some i \<Longrightarrow> int64 i"
  by (auto simp: ParseInt64_def int64_def Let_def split: option.splits if_splits prod.splits)

lemma keeps_int:
  "(\<And>i a. int64 i \<Longrightarrow> P a \<Longrightarrow> P (upd i a)) \<Longrightarrow> field_keeps P (n, set_int upd)"
  by (auto simp: field_keeps_def set_int_def split: json.splits dest: ParseInt64_range)

lemma policy_text_zero [simp]: "policy_text zero_SubPolicy"
  by (simp add: policy_text_def zero_SubPolicy_def int64_def)

lemma keeps_SubPolicy: "\<forall>f \<in> set SubPolicy_fields. field_keeps policy_text f"
  by (auto simp: SubPolicy_fields_def policy_text_def intro!: keeps_string keeps_int)

lemma policies_text_simps [simp]: "policies_text fmempty"
  by (simp add: policies_text_def)

lemma policies_text_upd: "policies_text m \<Longrightarrow> valid_utf8 k \<Longrightarrow> policy_text p \<Longrightarrow> policies_text (fmupd k p m)"
  by (simp add: policies_text_def)

lemma policies_text_drop: "policies_text m \<Longrightarrow> policies_text (fmdrop k m)"
  by (simp add: policies_text_def)

lemma decode_policy_text: "json_text v \<Longrightarrow> decode_policy v = Some p \<Longrightarrow> policy_text p"
  unfolding decode_policy_def by (rule set_struct_keeps [OF keeps_SubPolicy]) simp_all

lemma set_entries_text:
  assumes "json_text (JObj kvs)" "policies_text m" "set_entries decode_policy kvs m = Some m'"
  shows "policies_text m'"
  using assms
proof (induction kvs arbitrary: m)
  case (Cons kv kvs)
  obtain k v where kv: "kv = (k, v)" by (cases kv)
  then obtain p where p: "decode_policy v = Some p" "set_entries decode_policy kvs (fmupd k p m) = Some m'"
    using Cons.prems(3) by (auto split: bind_splits)
  have "policies_text (fmupd k p m)"
    using Cons.prems(1,2) kv decode_policy_text [OF _ p(1)] by (simp add: policies_text_upd)
  then show ?case using Cons.IH [OF _ _ p(2)] Cons.prems(1) by simp
qed simp

lemma set_map_text: "json_text v \<Longrightarrow> policies_text m \<Longrightarrow> set_map decode_policy v m = Some m' \<Longrightarrow> policies_text m'"
  using set_entries_text [of _ m m'] by (cases v) (simp_all add: set_map_def del: json_text.simps)

section \<open>A policy for examples\<close>

definition sample_policy :: SubPolicy where
  "sample_policy = \<lparr>SubName = ''audit'', SubURL = ''http://audit'', NumberOfRetries = 3\<rparr>"

lemma sample_policy_text: "policy_text sample_policy" "keyed (fmupd ''audit'' sample_policy fmempty)"
  by (simp_all add: sample_policy_def policy_text_def int64_def valid_utf8.simps code_def keyed_def)

end
