(* ===== verification/Push_Server.thy ===== *)
theory Push_Server
  imports Push_MQ Codec
begin

text \<open>
  \<open>push-mq/server.go\<close>: the HTTP handlers of \<open>push-mq\<close>. A handler reads the request's body
  (\<open>None\<close> if that fails), calls the broker and answers with a status code; a panic is \<open>None\<close>.
\<close>

definition push_answer :: "nat \<Rightarrow> push_state \<Rightarrow> push_result \<Rightarrow> (push_state \<times> nat) option" where
  "push_answer ok s r =
     map_option (\<lambda>out. case out of Inl _ \<Rightarrow> (s, 400) | Inr s' \<Rightarrow> (s', ok)) r"

definition push_HandleQueueCreation :: "string \<Rightarrow> push_state \<Rightarrow> (push_state \<times> nat) option" where
  "push_HandleQueueCreation name s = push_answer 201 s (push_CreateQueue name s)"

definition push_HandleQueueDeletion :: "string \<Rightarrow> push_state \<Rightarrow> (push_state \<times> nat) option" where
  "push_HandleQueueDeletion name s = map_option (\<lambda>s'. (s', 204)) (push_DeleteQueue name s)"

definition push_HandleEnqueue :: "string \<Rightarrow> string \<Rightarrow> string option \<Rightarrow> push_state \<Rightarrow> (push_state \<times> nat) option" where
  "push_HandleEnqueue uuid name body s =
     (case body of
        None \<Rightarrow> Some (s, 400)
      | Some b \<Rightarrow> push_answer 202 s (push_Enqueue uuid name b s))"

definition push_HandleSubPolicyCreation :: "string \<Rightarrow> string option \<Rightarrow> push_state \<Rightarrow> (push_state \<times> nat) option" where
  "push_HandleSubPolicyCreation queueName body s =
     (case body of
        None \<Rightarrow> Some (s, 400)
      | Some b \<Rightarrow>
          (case Unmarshal SubPolicy_fields zero_SubPolicy b of
             None \<Rightarrow> Some (s, 400)
           | Some policy \<Rightarrow> push_answer 201 s (push_AddSubscriber policy queueName s)))"

definition push_HandleSubPolicyUpdate :: "string \<Rightarrow> string \<Rightarrow> string option \<Rightarrow> push_state \<Rightarrow> (push_state \<times> nat) option" where
  "push_HandleSubPolicyUpdate queueName subName body s =
     (case body of
        None \<Rightarrow> Some (s, 400)
      | Some b \<Rightarrow>
          (case Unmarshal SubPolicy_fields zero_SubPolicy b of
             None \<Rightarrow> Some (s, 400)
           | Some policy \<Rightarrow>
               push_answer 200 s (push_UpdateSubscriber (policy\<lparr>SubName := subName\<rparr>) queueName s)))"

definition push_HandleSubPolicyDeletion :: "string \<Rightarrow> string \<Rightarrow> push_state \<Rightarrow> (push_state \<times> nat) option" where
  "push_HandleSubPolicyDeletion queueName subName s =
     push_answer 204 s (push_RemoveSubscriber subName queueName s)"

end
