(* ===== verification/Log_Record.thy ===== *)
theory Log_Record
  imports Strconv "HOL-Library.Sublist"
begin

text \<open>
  \<open>durable-mq/record\<close>: the binary format of one log record, with its checksum. The two
  standard-library packages it uses, \<open>encoding/binary\<close> and \<open>hash/crc32\<close>, are defined here:
  little-endian integers and the reflected CRC-32 with polynomial 0xEDB88320. Decoding gives
  back what was encoded, and a record with one byte changed is never accepted.
\<close>

unbundle bit_operations_syntax

section \<open>Little-endian integers\<close>

text \<open>\<open>binary.LittleEndian.PutUint32\<close> and \<open>PutUint64\<close>: the low \<open>k\<close> bytes of \<open>n\<close>.\<close>

fun le :: "nat \<Rightarrow> nat \<Rightarrow> bytes" where
  "le 0 n = []"
| "le (Suc k) n = char_of (n mod 256) # le k (n div 256)"

fun unle :: "bytes \<Rightarrow> nat" where
  "unle [] = 0"
| "unle (c # cs) = code c + 256 * unle cs"

lemma length_le [simp]: "length (le k n) = k"
  by (induction k arbitrary: n) simp_all

lemma code_char_of_mod: "code (char_of n) = n mod 256"
  by (simp add: code_def)

lemma unle_le: "unle (le k n) = n mod 256 ^ k"
  by (induction k arbitrary: n) (simp_all add: mod_mult2_eq code_char_of_mod)

lemma unle_le_small [simp]: "n < 256 ^ k \<Longrightarrow> unle (le k n) = n"
  by (simp add: unle_le)

lemma le_unle: "le (length cs) (unle cs) = cs"
  by (induction cs) simp_all

lemma unle_inject: "length a = length b \<Longrightarrow> unle a = unle b \<longleftrightarrow> a = b"
  by (metis le_unle)

lemma unle_less: "unle cs < 256 ^ length cs"
proof (induction cs)
  case (Cons c cs)
  have "code c < 256" by simp
  then show ?case using Cons by (simp add: less_eq_Suc_le)
qed simp

section \<open>CRC-32\<close>

definition poly :: "32 word" where
  "poly = 0xEDB88320"

definition crc_bit :: "32 word \<Rightarrow> 32 word" where
  "crc_bit c = (if bit c 0 then drop_bit 1 c XOR poly else drop_bit 1 c)"

definition crc_step :: "32 word \<Rightarrow> char \<Rightarrow> 32 word" where
  "crc_step c b = (crc_bit ^^ 8) (c XOR of_nat (code b))"

definition crc_update :: "32 word \<Rightarrow> bytes \<Rightarrow> 32 word" where
  "crc_update c data = foldl crc_step c data"

text \<open>\<open>crc32.ChecksumIEEE\<close>.\<close>

definition ChecksumIEEE :: "bytes \<Rightarrow> 32 word" where
  "ChecksumIEEE data = NOT (crc_update (NOT 0) data)"

lemma bit_poly_31: "bit poly 31"
  by (simp add: poly_def)

lemma crc_bit_31: "bit (crc_bit c) 31 = bit c 0"
  using bit_poly_31 bit_imp_le_length [of c 32] by (auto simp: crc_bit_def bit_xor_iff bit_drop_bit_eq)

lemma xor_cancel:
  fixes x y z :: "32 word"
  shows "x XOR z = y XOR z \<longleftrightarrow> x = y" "z XOR x = z XOR y \<longleftrightarrow> x = y"
proof -
  have *: "x = y" if "x XOR z = y XOR z" for x y z :: "32 word"
    using arg_cong [OF that, of "\<lambda>w. w XOR z"] by (simp add: xor.assoc)
  show "x XOR z = y XOR z \<longleftrightarrow> x = y" using * by blast
  show "z XOR x = z XOR y \<longleftrightarrow> x = y" using * by (auto simp: xor.commute [of z])
qed

lemma crc_bit_inject: "crc_bit c = crc_bit d \<longleftrightarrow> c = d"
proof
  assume eq: "crc_bit c = crc_bit d"
  then have low: "bit c 0 = bit d 0" by (metis crc_bit_31)
  then have "drop_bit 1 c = drop_bit 1 d"
    using eq by (auto simp: crc_bit_def xor_cancel split: if_splits)
  then have high: "bit c (Suc n) = bit d (Suc n)" for n
    by (metis bit_drop_bit_eq add.commute plus_1_eq_Suc comp_apply)
  show "c = d"
    by (rule bit_word_eqI) (use low high in \<open>metis not0_implies_Suc\<close>)
qed simp

lemma inj_crc_bit: "inj crc_bit"
  by (rule injI) (simp add: crc_bit_inject)

lemma crc_bit_pow_inject: "(crc_bit ^^ n) c = (crc_bit ^^ n) d \<longleftrightarrow> c = d"
  by (rule inj_eq [OF inj_fn [OF inj_crc_bit]])

lemma of_nat_code_inject: "(of_nat (code a) :: 32 word) = of_nat (code b) \<longleftrightarrow> a = b"
proof
  assume "(of_nat (code a) :: 32 word) = of_nat (code b)"
  then have "unat (of_nat (code a) :: 32 word) = unat (of_nat (code b) :: 32 word)" by simp
  moreover have "code a < 4294967296" "code b < 4294967296"
    by (rule less_trans [OF code_less]; simp)+
  ultimately have "code a = code b" by (simp add: unat_of_nat)
  then show "a = b" by simp
qed simp

lemma crc_step_inject:
  "crc_step c a = crc_step d a \<longleftrightarrow> c = d"
  "crc_step c a = crc_step c b \<longleftrightarrow> a = b"
  by (simp_all add: crc_step_def crc_bit_pow_inject of_nat_code_inject xor_cancel)

lemma crc_update_inject: "crc_update c data = crc_update d data \<longleftrightarrow> c = d"
  by (induction data arbitrary: c d) (simp_all add: crc_update_def crc_step_inject)

text \<open>Changing one byte always changes the checksum.\<close>

lemma ChecksumIEEE_detects:
  assumes "i < length data" "c \<noteq> data ! i"
  shows "ChecksumIEEE (data[i := c]) \<noteq> ChecksumIEEE data"
proof
  assume "ChecksumIEEE (data[i := c]) = ChecksumIEEE data"
  then have eq: "crc_update (NOT 0) (data[i := c]) = crc_update (NOT 0) data"
    by (simp add: ChecksumIEEE_def)
  define s where "s = crc_update (NOT 0) (take i data)"
  have split: "crc_update (NOT 0) (take i data @ x # drop (Suc i) data) =
      crc_update (crc_step s x) (drop (Suc i) data)" for x
    by (simp add: s_def crc_update_def)
  have "data[i := c] = take i data @ c # drop (Suc i) data"
    using assms(1) by (simp add: upd_conv_take_nth_drop)
  moreover have "data = take i data @ data ! i # drop (Suc i) data"
    using assms(1) by (simp add: id_take_nth_drop [symmetric])
  ultimately have "crc_update (crc_step s c) (drop (Suc i) data) =
      crc_update (crc_step s (data ! i)) (drop (Suc i) data)"
    using eq split by metis
  then show False using assms(2) by (simp add: crc_update_inject crc_step_inject)
qed

section \<open>Records\<close>

text \<open>\<open>OpOther\<close> is an operation byte that names none of the eight operations.\<close>

datatype OpType =
    OpEnqueue | OpAck | OpCreateQueue | OpDeleteQueue | OpUpdateSubPolicy | OpDeleteSubPolicy
  | OpBeginCheckpoint | OpEndCheckpoint | OpOther nat

fun op_byte :: "OpType \<Rightarrow> nat" where
  "op_byte OpEnqueue = 1"
| "op_byte OpAck = 2"
| "op_byte OpCreateQueue = 3"
| "op_byte OpDeleteQueue = 4"
| "op_byte OpUpdateSubPolicy = 5"
| "op_byte OpDeleteSubPolicy = 6"
| "op_byte OpBeginCheckpoint = 7"
| "op_byte OpEndCheckpoint = 8"
| "op_byte (OpOther n) = n"

definition byte_op :: "nat \<Rightarrow> OpType" where
  "byte_op n =
     (if n = 1 then OpEnqueue else if n = 2 then OpAck else if n = 3 then OpCreateQueue
      else if n = 4 then OpDeleteQueue else if n = 5 then OpUpdateSubPolicy
      else if n = 6 then OpDeleteSubPolicy else if n = 7 then OpBeginCheckpoint
      else if n = 8 then OpEndCheckpoint else OpOther n)"

record Record =
  LSN :: nat
  Op :: OpType
  QueueName :: string
  RPayload :: bytes

text \<open>All of an encoded record but its checksum, given the value of the length field.\<close>

definition record_body :: "Record \<Rightarrow> bytes" where
  "record_body r =
     le 8 (LSN r) @ le 4 (9 + length (QueueName r) + length (RPayload r)) @
     [char_of (op_byte (Op r))] @ le 4 (length (QueueName r)) @ QueueName r @ RPayload r"

definition Encode :: "Record \<Rightarrow> bytes" where
  "Encode r = record_body r @ le 4 (unat (ChecksumIEEE (record_body r)))"

datatype record_error = TooShort | InvalidCRC

text \<open>
  \<open>None\<close> is a panic: the record is read before its checksum is verified, so a corrupt length
  can make a slice expression or the \<open>make\<close> of the payload panic. Whatever the capacity of
  \<open>data\<close>, one of them does exactly when the queue name and the payload do not fit into the
  length; the definition reads every slice at its length.
\<close>

definition Decode :: "bytes \<Rightarrow> (record_error + Record) option" where
  "Decode data =
     (if length data < 12 then Some (Inl TooShort)
      else let
        lsn = unle (take 8 data);
        remainingLength = unle (take 4 (drop 8 data)) in
      if length data < remainingLength + 12 then Some (Inl TooShort)
      else do {
        op \<leftarrow> go_slice 12 13 data;
        nl \<leftarrow> go_slice 13 17 data;
        let queueNameLen = unle nl;
        queueName \<leftarrow> go_slice 17 (17 + queueNameLen) data;
        payload \<leftarrow> go_slice (17 + queueNameLen) (remainingLength + 8) data;
        crc \<leftarrow> go_slice (remainingLength + 8) (remainingLength + 12) data;
        Some (if unle crc \<noteq> unat (ChecksumIEEE (take (remainingLength + 8) data)) then Inl InvalidCRC
          else Inr \<lparr>LSN = lsn, Op = byte_op (code (hd op)), QueueName = queueName, RPayload = payload\<rparr>)
      })"

text \<open>The records the program writes: an operation of the list, and lengths that fit 32 bits.\<close>

definition record_ok :: "Record \<Rightarrow> bool" where
  "record_ok r \<longleftrightarrow> LSN r < 2 ^ 64 \<and> byte_op (op_byte (Op r)) = Op r \<and> op_byte (Op r) < 256 \<and>
     9 + length (QueueName r) + length (RPayload r) < 2 ^ 32"

definition body_len :: "Record \<Rightarrow> nat" where
  "body_len r = 9 + length (QueueName r) + length (RPayload r)"

lemma length_record_body: "length (record_body r) = body_len r + 8"
  by (simp add: record_body_def body_len_def)

lemma length_Encode: "length (Encode r) = body_len r + 12"
  by (simp add: Encode_def length_record_body)

lemma crc_roundtrip: "unle (le 4 (unat (w :: 32 word))) = unat w"
proof -
  have "unat w < 2 ^ LENGTH(32)" by (rule unsigned_less)
  then show ?thesis by (simp add: unle_le)
qed

text \<open>Decoding starts at the head of the data and ignores what follows the record.\<close>

lemma Decode_Encode_append:
  assumes "record_ok r"
  shows "Decode (Encode r @ t) = Some (Inr r)"
proof -
  let ?n = "length (QueueName r)" and ?l = "body_len r"
  let ?d = "Encode r @ t"
  have l: "?l < 4294967296" "?n < 4294967296" "LSN r < 18446744073709551616"
    using assms by (simp_all add: record_ok_def body_len_def)
  have d: "?d = le 8 (LSN r) @ le 4 ?l @ [char_of (op_byte (Op r))] @ le 4 ?n @ QueueName r @ RPayload r @
      le 4 (unat (ChecksumIEEE (record_body r))) @ t"
    by (simp add: Encode_def record_body_def body_len_def)
  have len: "length ?d = ?l + 12 + length t"
    by (simp add: length_Encode)
  have lsn: "unle (take 8 ?d) = LSN r" and rl: "unle (take 4 (drop 8 ?d)) = ?l"
    unfolding d using l by simp_all
  let ?h = "le 8 (LSN r) @ le 4 ?l" and ?o = "[char_of (op_byte (Op r))]"
  have op: "go_slice 12 13 ?d = Some ?o"
    using go_slice_mid [of ?h 12 ?o 13] unfolding d by simp
  have nl: "go_slice 13 17 ?d = Some (le 4 ?n)"
    using go_slice_mid [of "?h @ ?o" 13 "le 4 ?n" 17] unfolding d by simp
  have name: "go_slice 17 (17 + ?n) ?d = Some (QueueName r)"
    using go_slice_mid [of "?h @ ?o @ le 4 ?n" 17 "QueueName r" "17 + ?n"] unfolding d by simp
  have payload: "go_slice (17 + ?n) (?l + 8) ?d = Some (RPayload r)"
    using go_slice_mid [of "?h @ ?o @ le 4 ?n @ QueueName r" "17 + ?n" "RPayload r" "?l + 8"]
    unfolding d by (simp add: body_len_def)
  have body: "take (?l + 8) ?d = record_body r"
    by (simp add: Encode_def length_record_body)
  have crc: "go_slice (?l + 8) (?l + 12) ?d = Some (le 4 (unat (ChecksumIEEE (record_body r))))"
    using go_slice_mid [of "record_body r" "?l + 8" "le 4 (unat (ChecksumIEEE (record_body r)))" "?l + 12" t]
    by (simp add: Encode_def length_record_body)
  have op': "byte_op (code (char_of (op_byte (Op r)))) = Op r"
    using assms by (simp add: record_ok_def code_char_of_mod)
  show ?thesis
    unfolding Decode_def lsn rl body nl op crc payload Let_def
    using l(2) by (simp add: length_Encode nl name payload crc op op' body crc_roundtrip)
qed

lemma op_byte_byte_op [simp]: "op_byte (byte_op n) = n"
  by (simp add: byte_op_def)

lemma byte_op_idem [simp]: "byte_op (op_byte (byte_op n)) = byte_op n"
  by simp

text \<open>What \<open>Decode\<close> has checked when it accepts.\<close>

lemma Decode_accepts:
  assumes "Decode data = Some (Inr r)"
  defines "l \<equiv> unle (take 4 (drop 8 data))"
  defines "n \<equiv> unle (take 4 (drop 13 data))"
  shows "l + 12 \<le> length data" "9 + n \<le> l"
    "unle (take 4 (drop (l + 8) data)) = unat (ChecksumIEEE (take (l + 8) data))"
    "r = \<lparr>LSN = unle (take 8 data), Op = byte_op (code (data ! 12)), QueueName = take n (drop 17 data),
       RPayload = take (l - 9 - n) (drop (17 + n) data)\<rparr>"
proof -
  have l: "l + 12 \<le> length data" and "12 \<le> length data"
    using assms(1) by (auto simp: Decode_def l_def Let_def not_less split: if_splits)
  then obtain op nl name payload crc where sl:
    "go_slice 12 13 data = Some op" "go_slice 13 17 data = Some nl"
    "go_slice 17 (17 + unle nl) data = Some name" "go_slice (17 + unle nl) (l + 8) data = Some payload"
    "go_slice (l + 8) (l + 12) data = Some crc"
    "unle crc = unat (ChecksumIEEE (take (l + 8) data))"
    "r = \<lparr>LSN = unle (take 8 data), Op = byte_op (code (hd op)), QueueName = name, RPayload = payload\<rparr>"
    using assms(1) by (auto simp: Decode_def l_def [symmetric] Let_def not_less split: if_splits bind_splits)
  have nl: "nl = take 4 (drop 13 data)" and len: "17 \<le> length data"
    using sl(2) by (auto simp: go_slice_def drop_take split: if_splits)
  have n: "unle nl = n" by (simp add: n_def nl)
  show "l + 12 \<le> length data" by (rule l)
  show n': "9 + n \<le> l" using sl(4) by (simp add: n go_slice_def split: if_splits)
  show "unle (take 4 (drop (l + 8) data)) = unat (ChecksumIEEE (take (l + 8) data))"
    using sl(5,6) by (auto simp: go_slice_def drop_take split: if_splits)
  have "hd op = data ! 12"
    using sl(1) len by (auto simp: go_slice_def drop_take hd_drop_conv_nth split: if_splits)
  moreover have "name = take n (drop 17 data)" "payload = take (l - 9 - n) (drop (17 + n) data)"
    using sl(3,4) by (auto simp: n go_slice_def drop_take split: if_splits)
  ultimately show "r = \<lparr>LSN = unle (take 8 data), Op = byte_op (code (data ! 12)),
      QueueName = take n (drop 17 data), RPayload = take (l - 9 - n) (drop (17 + n) data)\<rparr>"
    using sl(7) by simp
qed

lemma take_split: "take (m + k) xs = take m xs @ take k (drop m xs)"
  by (simp add: take_add)

text \<open>The bytes \<open>Decode\<close> accepts are exactly the encoding of the record it returns.\<close>

lemma Decode_sound:
  assumes "Decode data = Some (Inr r)"
  shows "record_ok r" "\<exists>t. data = Encode r @ t"
proof -
  define l where "l = unle (take 4 (drop 8 data))"
  define n where "n = unle (take 4 (drop 13 data))"
  note acc = Decode_accepts [OF assms, folded l_def, folded n_def]
  have len: "length (take 8 data) = 8" "length (take 4 (drop 8 data)) = 4"
    "length (take 4 (drop 13 data)) = 4" "length (take 4 (drop (l + 8) data)) = 4"
    using acc(1,2) by simp_all
  have lens: "length (QueueName r) = n" "length (RPayload r) = l - 9 - n" "body_len r = l"
    using acc(1,2) by (simp_all add: acc(4) body_len_def)
  have l: "l < 256 ^ 4" using unle_less [of "take 4 (drop 8 data)"] len by (simp add: l_def)
  have "unle (take 8 data) < 256 ^ 8" using unle_less [of "take 8 data"] len by simp
  then show "record_ok r"
    using l lens acc(1,2) by (simp add: record_ok_def acc(4) body_len_def)
  have body: "record_body r = take (l + 8) data"
  proof -
    have "record_body r = take 8 data @ take 4 (drop 8 data) @ take 1 (drop 12 data) @
        take 4 (drop 13 data) @ take n (drop 17 data) @ take (l - 9 - n) (drop (17 + n) data)"
      using le_unle [of "take 8 data"] le_unle [of "take 4 (drop 8 data)"] le_unle [of "take 4 (drop 13 data)"]
        len lens acc(1,2) take_Suc_conv_app_nth [of 0 "drop 12 data"]
      by (simp add: record_body_def acc(4) l_def [symmetric] n_def [symmetric])
    also have "\<dots> = take (8 + (4 + (1 + (4 + (n + (l - 9 - n)))))) data"
      by (simp only: take_split drop_drop) (simp add: add.commute)
    also have "8 + (4 + (1 + (4 + (n + (l - 9 - n))))) = l + 8" using acc(2) by simp
    finally show ?thesis .
  qed
  have "le 4 (unat (ChecksumIEEE (record_body r))) = take 4 (drop (l + 8) data)"
    unfolding body acc(3) [symmetric] using le_unle [of "take 4 (drop (l + 8) data)"] len by simp
  then have "Encode r = take (l + 8 + 4) data"
    by (simp only: Encode_def body take_split)
  then show "\<exists>t. data = Encode r @ t" by (metis append_take_drop_id)
qed

lemma Decode_corrupt:
  assumes "record_ok r" "i < length (Encode r)" "\<not> (8 \<le> i \<and> i < 12)" "c \<noteq> Encode r ! i"
  shows "Decode ((Encode r)[i := c]) \<noteq> Some (Inr r')"
proof
  let ?d = "Encode r" and ?e = "(Encode r)[i := c]" and ?l = "body_len r"
  assume acc: "Decode ?e = Some (Inr r')"
  have "take 4 (drop 8 ?e) = take 4 (drop 8 ?d)"
    using assms(3) by (auto simp: drop_update_swap take_update_cancel)
  moreover have "take 4 (drop 8 ?d) = le 4 ?l"
    by (simp add: Encode_def record_body_def body_len_def)
  ultimately have l: "unle (take 4 (drop 8 ?e)) = ?l"
    using assms(1) by (simp add: record_ok_def body_len_def unle_le)
  from Decode_accepts(3) [OF acc, unfolded l]
  have crc: "unle (take 4 (drop (?l + 8) ?e)) = unat (ChecksumIEEE (take (?l + 8) ?e))" .
  have body: "take (?l + 8) ?d = record_body r" and sum: "drop (?l + 8) ?d = le 4 (unat (ChecksumIEEE (record_body r)))"
    by (simp_all add: Encode_def length_record_body)
  show False
  proof (cases "i < ?l + 8")
    case True
    then have "take (?l + 8) ?e = (record_body r)[i := c]" "drop (?l + 8) ?e = drop (?l + 8) ?d"
      by (simp_all add: take_update_swap body)
    then have "ChecksumIEEE ((record_body r)[i := c]) = ChecksumIEEE (record_body r)"
      using crc by (simp add: sum crc_roundtrip word_unat_eq_iff)
    moreover have "c \<noteq> record_body r ! i" "i < length (record_body r)"
      using True assms(4) by (simp_all add: Encode_def length_record_body nth_append)
    ultimately show False using ChecksumIEEE_detects by blast
  next
    case False
    then have "take (?l + 8) ?e = record_body r"
      by (simp add: body)
    moreover have "length (drop (?l + 8) ?e) = 4" by (simp add: length_Encode)
    ultimately have "unle (drop (?l + 8) ?e) = unle (drop (?l + 8) ?d)"
      using crc by (simp add: sum crc_roundtrip)
    then have "drop (?l + 8) ?e = drop (?l + 8) ?d"
      by (subst (asm) unle_inject) simp_all
    then have "drop (?l + 8) ?e ! (i - (?l + 8)) = drop (?l + 8) ?d ! (i - (?l + 8))" by simp
    then have "?e ! i = ?d ! i"
      using False assms(2) by (simp add: length_Encode)
    then show False using assms(2,4) by simp
  qed
qed

section \<open>Properties\<close>

text \<open>
  C29. Every record the program can write decodes to itself, whatever follows it in the file,
  and takes 21 bytes beside its queue name and payload.
\<close>

theorem record_roundtrip:
  assumes "record_ok r"
  shows "Decode (Encode r @ t) = Some (Inr r) \<and>
    length (Encode r) = 21 + length (QueueName r) + length (RPayload r)"
  using Decode_Encode_append [OF assms] by (simp_all add: length_Encode body_len_def)

definition sample_record :: Record where
  "sample_record = \<lparr>LSN = 7, Op = OpCreateQueue, QueueName = ''orders'', RPayload = []\<rparr>"

lemma sample_record_ok: "record_ok sample_record"
  by (simp add: record_ok_def sample_record_def byte_op_def)

theorem record_roundtrip_witness:
  "Decode (Encode sample_record @ ''tail'') = Some (Inr sample_record) \<and> length (Encode sample_record) = 27"
  using record_roundtrip [OF sample_record_ok, of "''tail''"]
  by (simp add: sample_record_def)

text \<open>
  C30. \<open>Decode\<close> accepts nothing else: whenever it returns a record, the data starts with exactly
  the bytes \<open>Encode\<close> writes for that record.
\<close>

theorem record_accepts_only_encodings:
  assumes "Decode data = Some (Inr r)"
  shows "record_ok r \<and> take (length (Encode r)) data = Encode r"
  using Decode_sound [OF assms] by auto

theorem record_accepts_only_encodings_witness:
  "Decode (Encode sample_record @ ''tail'') = Some (Inr sample_record) \<and> record_ok sample_record \<and>
   take 27 (Encode sample_record @ ''tail'') = Encode sample_record"
proof -
  have d: "Decode (Encode sample_record @ ''tail'') = Some (Inr sample_record)"
    by (rule Decode_Encode_append [OF sample_record_ok])
  from record_accepts_only_encodings [OF d] d show ?thesis
    by (simp add: length_Encode body_len_def sample_record_def)
qed

text \<open>
  C31. A stored record in which one byte has changed, anywhere but in its length field, is
  never accepted: the checksum catches it, or reading it fails before.
\<close>

theorem record_corruption_detected:
  assumes "record_ok r" "i < length (Encode r)" "\<not> (8 \<le> i \<and> i < 12)" "c \<noteq> Encode r ! i"
  shows "Decode ((Encode r)[i := c]) \<noteq> Some (Inr r')"
  using assms by (rule Decode_corrupt)

lemma le_8: "le 8 n = char_of (n mod 256) # le 7 (n div 256)"
  using le.simps(2) [of 7 n] by (simp del: le.simps)

theorem record_corruption_detected_witness:
  "Encode sample_record ! 0 = CHR 0x07 \<and>
   Decode ((Encode sample_record)[0 := CHR 0x08]) \<noteq> Some (Inr sample_record)"
proof -
  have "Encode sample_record ! 0 = char_of (7 :: nat)"
    by (simp add: Encode_def record_body_def sample_record_def le_8)
  also have "char_of (7 :: nat) = CHR 0x07" by code_simp
  finally have e: "Encode sample_record ! 0 = CHR 0x07" .
  show ?thesis
    using record_corruption_detected [OF sample_record_ok, of 0 "CHR 0x08"]
    by (simp add: e length_Encode)
qed

end
