(* ===== verification/Catalog.thy ===== *)
theory Catalog
  imports Codec Log_Record
begin

text \<open>
  \<open>durable-mq/catalog\<close>: the queues and the policies of their subscribers, updated by log
  records. The catalog's mutex makes each operation one step. A table of pointers to
  \<open>QueueInfo\<close> is a map of values: no two entries share one, and \<open>AllQueueInfo\<close> and
  \<open>FetchQueueSubList\<close> return copies.
\<close>

record QueueInfo =
  qiName :: string
  qiSubs :: policies

type_synonym catalog = "(string, QueueInfo) fmap"

text \<open>The errors of replaying a record.\<close>

datatype replay_error =
    InvalidOp OpType | BadPayload | NoSuchQueue string | NoSuchMessage string

definition NewCatalog :: catalog where
  "NewCatalog = fmempty"

definition NewQueueInfo :: "string \<Rightarrow> QueueInfo" where
  "NewQueueInfo name = \<lparr>qiName = name, qiSubs = fmempty\<rparr>"

definition createQueue :: "string \<Rightarrow> catalog \<Rightarrow> catalog" where
  "createQueue queueName c = fmupd queueName (NewQueueInfo queueName) c"

definition removeQueue :: "string \<Rightarrow> catalog \<Rightarrow> catalog" where
  "removeQueue queueName c = fmdrop queueName c"

definition updateSubPolicy :: "string \<Rightarrow> bytes \<Rightarrow> catalog \<Rightarrow> replay_error + catalog" where
  "updateSubPolicy queueName payload c =
     (case DecodeSubPolicy payload of
        None \<Rightarrow> Inl BadPayload
      | Some subPolicy \<Rightarrow>
          (case fmlookup c queueName of
             None \<Rightarrow> Inl (NoSuchQueue queueName)
           | Some q \<Rightarrow>
               Inr (fmupd queueName (q\<lparr>qiSubs := fmupd (SubName subPolicy) subPolicy (qiSubs q)\<rparr>) c)))"

definition removeSubPolicy :: "string \<Rightarrow> bytes \<Rightarrow> catalog \<Rightarrow> replay_error + catalog" where
  "removeSubPolicy queueName payload c =
     (case DecodeSubPolicy payload of
        None \<Rightarrow> Inl BadPayload
      | Some subPolicy \<Rightarrow>
          (case fmlookup c queueName of
             None \<Rightarrow> Inl (NoSuchQueue queueName)
           | Some q \<Rightarrow>
               Inr (fmupd queueName (q\<lparr>qiSubs := fmdrop (SubName subPolicy) (qiSubs q)\<rparr>) c)))"

definition ProcessRecord :: "Record \<Rightarrow> catalog \<Rightarrow> replay_error + catalog" where
  "ProcessRecord rec c =
     (case Op rec of
        OpCreateQueue \<Rightarrow> Inr (createQueue (QueueName rec) c)
      | OpDeleteQueue \<Rightarrow> Inr (removeQueue (QueueName rec) c)
      | OpUpdateSubPolicy \<Rightarrow> updateSubPolicy (QueueName rec) (RPayload rec) c
      | OpDeleteSubPolicy \<Rightarrow> removeSubPolicy (QueueName rec) (RPayload rec) c
      | OpBeginCheckpoint \<Rightarrow> Inr c
      | OpEndCheckpoint \<Rightarrow> Inr c
      | _ \<Rightarrow> Inl (InvalidOp (Op rec)))"

definition ReturnQueueNames :: "order \<Rightarrow> catalog \<Rightarrow> string list" where
  "ReturnQueueNames ord c = ord (fmdom c)"

definition QueueExists :: "string \<Rightarrow> catalog \<Rightarrow> bool" where
  "QueueExists queueName c = (case fmlookup c queueName of Some _ \<Rightarrow> True | None \<Rightarrow> False)"

definition AllQueueInfo :: "order \<Rightarrow> catalog \<Rightarrow> QueueInfo list" where
  "AllQueueInfo ord c = map (\<lambda>n. the (fmlookup c n)) (ord (fmdom c))"

definition FetchQueueSubList :: "string \<Rightarrow> catalog \<Rightarrow> policies option" where
  "FetchQueueSubList queueName c = map_option qiSubs (fmlookup c queueName)"

section \<open>Invariant\<close>

text \<open>Every queue is stored under its name and every policy under its subscriber's name.\<close>

definition catalog_inv :: "catalog \<Rightarrow> bool" where
  "catalog_inv c \<longleftrightarrow> (\<forall>n q. fmlookup c n = Some q \<longrightarrow> qiName q = n \<and> keyed (qiSubs q))"

lemma catalog_inv_empty [simp]: "catalog_inv fmempty"
  by (simp add: catalog_inv_def)

lemma ProcessRecord_inv:
  "catalog_inv c \<Longrightarrow> ProcessRecord rec c = Inr c' \<Longrightarrow> catalog_inv c'"
  by (auto simp: catalog_inv_def ProcessRecord_def createQueue_def NewQueueInfo_def removeQueue_def
      updateSubPolicy_def removeSubPolicy_def split: OpType.splits option.splits if_splits)

lemma QueueExists_iff: "QueueExists n c \<longleftrightarrow> n |\<in>| fmdom c"
  by (auto simp: QueueExists_def fmlookup_dom_iff split: option.splits)

end
