(* ===== verification/Delivery.thy ===== *)
theory Delivery
  imports Catalog
begin

text \<open>
  \<open>durable-mq/delivery\<close>: the messages of each queue and who has acknowledged them, rebuilt
  from the log at start-up by a single goroutine.
\<close>

record DeliveryMessageInfo =
  Content :: string
  dSubList :: policies
  dAckedSubs :: "string fset"

type_synonym DeliveryQueueInfo = "(string, DeliveryMessageInfo) fmap"
type_synonym delivery = "(string, DeliveryQueueInfo) fmap"

definition NewDelivery :: delivery where
  "NewDelivery = fmempty"

definition NewDeliveryQueueInfo :: DeliveryQueueInfo where
  "NewDeliveryQueueInfo = fmempty"

definition NewDeliveryMessageInfo :: DeliveryMessageInfo where
  "NewDeliveryMessageInfo = \<lparr>Content = [], dSubList = fmempty, dAckedSubs = {||}\<rparr>"

definition ProcessEnqueue :: "Record \<Rightarrow> delivery \<Rightarrow> replay_error + delivery" where
  "ProcessEnqueue rec d =
     (if Op rec \<noteq> OpEnqueue then Inl (InvalidOp (Op rec))
      else case DecodeEnqueue (RPayload rec) of
        None \<Rightarrow> Inl BadPayload
      | Some enq \<Rightarrow>
          let queueName = QueueName rec;
              q = (case fmlookup d queueName of Some q \<Rightarrow> q | None \<Rightarrow> NewDeliveryQueueInfo);
              msgInfo = NewDeliveryMessageInfo\<lparr>Content := MsgContent enq, dSubList := SubList enq\<rparr>
          in Inr (fmupd queueName (fmupd (enqMsgId enq) msgInfo q) d))"

definition ProcessAck :: "Record \<Rightarrow> delivery \<Rightarrow> replay_error + delivery" where
  "ProcessAck rec d =
     (if Op rec \<noteq> OpAck then Inl (InvalidOp (Op rec))
      else case DecodeAck (RPayload rec) of
        None \<Rightarrow> Inl BadPayload
      | Some ack \<Rightarrow>
          (case fmlookup d (QueueName rec) of
             None \<Rightarrow> Inl (NoSuchQueue (QueueName rec))
           | Some q \<Rightarrow>
               (case fmlookup q (ackMsgId ack) of
                  None \<Rightarrow> Inl (NoSuchMessage (ackMsgId ack))
                | Some msgInfo \<Rightarrow>
                    (case fmlookup (dSubList msgInfo) (ackSubName ack) of
                       None \<Rightarrow> Inr d
                     | Some _ \<Rightarrow>
                         Inr (fmupd (QueueName rec)
                           (fmupd (ackMsgId ack)
                             (msgInfo\<lparr>dAckedSubs := finsert (ackSubName ack) (dAckedSubs msgInfo)\<rparr>) q) d)))))"

definition DeleteQueueMessages :: "string \<Rightarrow> delivery \<Rightarrow> delivery" where
  "DeleteQueueMessages queueName d = fmdrop queueName d"

definition YieldDeliveryData :: "delivery \<Rightarrow> delivery" where
  "YieldDeliveryData d = d"

section \<open>What is left to deliver\<close>

text \<open>
  The message under an identifier, and the subscribers of a message that have not
  acknowledged it: what the broker loads after a restart.
\<close>

definition find_msg :: "delivery \<Rightarrow> string \<Rightarrow> string \<Rightarrow> DeliveryMessageInfo option" where
  "find_msg d q m = Option.bind (fmlookup d q) (\<lambda>qi. fmlookup qi m)"

definition unacked :: "DeliveryMessageInfo \<Rightarrow> string fset" where
  "unacked mi = fmdom (dSubList mi) |-| dAckedSubs mi"

definition pending :: "delivery \<Rightarrow> string \<Rightarrow> string \<Rightarrow> DeliveryMessageInfo option" where
  "pending d q m =
     (case find_msg d q m of
        None \<Rightarrow> None
      | Some mi \<Rightarrow> if unacked mi = {||} then None else Some mi)"

lemma find_msg_simps [simp]:
  "find_msg fmempty q m = None"
  "find_msg (fmdrop n d) q m = (if q = n then None else find_msg d q m)"
  by (simp_all add: find_msg_def)

lemma find_msg_upd:
  "find_msg (fmupd n (fmupd k mi (case fmlookup d n of Some q \<Rightarrow> q | None \<Rightarrow> NewDeliveryQueueInfo)) d) q m =
     (if q = n \<and> m = k then Some mi else find_msg d q m)"
  by (auto simp: find_msg_def NewDeliveryQueueInfo_def split: option.splits)

lemma ProcessEnqueue_find:
  assumes "Op rec = OpEnqueue" "DecodeEnqueue (RPayload rec) = Some enq"
  shows "\<exists>d'. ProcessEnqueue rec d = Inr d' \<and> (\<forall>q m. find_msg d' q m =
    (if q = QueueName rec \<and> m = enqMsgId enq
     then Some \<lparr>Content = MsgContent enq, dSubList = SubList enq, dAckedSubs = {||}\<rparr>
     else find_msg d q m))"
  by (simp add: ProcessEnqueue_def assms Let_def find_msg_upd NewDeliveryMessageInfo_def)

lemma ProcessAck_find:
  assumes "Op rec = OpAck" "DecodeAck (RPayload rec) = Some ack"
    "find_msg d (QueueName rec) (ackMsgId ack) = Some mi"
  shows "\<exists>d'. ProcessAck rec d = Inr d' \<and> (\<forall>q m. find_msg d' q m =
    (if q = QueueName rec \<and> m = ackMsgId ack
     then Some (if ackSubName ack |\<in>| fmdom (dSubList mi)
       then mi\<lparr>dAckedSubs := finsert (ackSubName ack) (dAckedSubs mi)\<rparr> else mi)
     else find_msg d q m))"
proof -
  obtain qi where qi: "fmlookup d (QueueName rec) = Some qi" "fmlookup qi (ackMsgId ack) = Some mi"
    using assms(3) by (auto simp: find_msg_def split: bind_splits)
  show ?thesis
  proof (cases "fmlookup (dSubList mi) (ackSubName ack)")
    case None
    then show ?thesis using assms qi by (auto simp: ProcessAck_def find_msg_def fmdom_notI)
  next
    case (Some p)
    then show ?thesis using assms qi
      by (auto simp: ProcessAck_def find_msg_def fmdomI)
  qed
qed

lemma ProcessAck_missing:
  assumes "Op rec = OpAck" "DecodeAck (RPayload rec) = Some ack"
    "find_msg d (QueueName rec) (ackMsgId ack) = None"
  shows "\<exists>e. ProcessAck rec d = Inl e"
  using assms by (auto simp: ProcessAck_def find_msg_def split: option.splits)

end
