(* ===== verification/Replay.thy ===== *)
theory Replay
  imports Delivery
begin

text \<open>
  Replaying a log (the loop of \<open>Coordinator.ReplayLog\<close>), and an abstract specification of
  what a log means: the catalog, and the messages that some subscriber has yet to
  acknowledge. Replaying a well-formed log never fails and arrives at its meaning.
\<close>

section \<open>The loop of \<open>ReplayLog\<close>\<close>

definition replay_one :: "Record \<Rightarrow> catalog \<times> delivery \<Rightarrow> replay_error + (catalog \<times> delivery)" where
  "replay_one rec s =
     (case Op rec of
        OpEnqueue \<Rightarrow> (case ProcessEnqueue rec (snd s) of Inl e \<Rightarrow> Inl e | Inr d \<Rightarrow> Inr (fst s, d))
      | OpAck \<Rightarrow> (case ProcessAck rec (snd s) of Inl e \<Rightarrow> Inl e | Inr d \<Rightarrow> Inr (fst s, d))
      | _ \<Rightarrow>
          (case ProcessRecord rec (fst s) of
             Inl e \<Rightarrow> Inl e
           | Inr c \<Rightarrow>
               Inr (c, if Op rec = OpDeleteQueue then DeleteQueueMessages (QueueName rec) (snd s) else snd s)))"

fun replay :: "Record list \<Rightarrow> catalog \<times> delivery \<Rightarrow> replay_error + (catalog \<times> delivery)" where
  "replay [] s = Inr s"
| "replay (rec # recs) s = (case replay_one rec s of Inl e \<Rightarrow> Inl e | Inr s' \<Rightarrow> replay recs s')"

lemma replay_append:
  "replay (xs @ ys) s = (case replay xs s of Inl e \<Rightarrow> Inl e | Inr s' \<Rightarrow> replay ys s')"
  by (induction xs arbitrary: s) (auto split: sum.splits)

section \<open>The meaning of a log\<close>

type_synonym outstanding = "string \<Rightarrow> string \<Rightarrow> DeliveryMessageInfo option"
type_synonym log_state = "catalog \<times> outstanding"

definition log_init :: log_state where
  "log_init = (fmempty, \<lambda>_ _. None)"

text \<open>A message stays outstanding as long as a subscriber of its list has not acknowledged it.\<close>

definition keep :: "DeliveryMessageInfo \<Rightarrow> DeliveryMessageInfo option" where
  "keep mi = (if unacked mi = {||} then None else Some mi)"

definition put :: "string \<Rightarrow> string \<Rightarrow> DeliveryMessageInfo option \<Rightarrow> outstanding \<Rightarrow> outstanding" where
  "put q m x p = (\<lambda>q' m'. if q' = q \<and> m' = m then x else p q' m')"

definition set_policies :: "string \<Rightarrow> (policies \<Rightarrow> policies) \<Rightarrow> catalog \<Rightarrow> catalog" where
  "set_policies n f c =
     (case fmlookup c n of None \<Rightarrow> c | Some q \<Rightarrow> fmupd n (q\<lparr>qiSubs := f (qiSubs q)\<rparr>) c)"

definition ack_msg :: "string \<Rightarrow> DeliveryMessageInfo \<Rightarrow> DeliveryMessageInfo" where
  "ack_msg s mi = mi\<lparr>dAckedSubs := finsert s (dAckedSubs mi)\<rparr>"

definition meaning_step :: "Record \<Rightarrow> log_state \<Rightarrow> log_state" where
  "meaning_step rec s =
     (let (c, p) = s; n = QueueName rec in
      case Op rec of
        OpEnqueue \<Rightarrow>
          (case DecodeEnqueue (RPayload rec) of
             None \<Rightarrow> s
           | Some e \<Rightarrow>
               (c, put n (enqMsgId e) (keep \<lparr>Content = MsgContent e, dSubList = SubList e, dAckedSubs = {||}\<rparr>) p))
      | OpAck \<Rightarrow>
          (case DecodeAck (RPayload rec) of
             None \<Rightarrow> s
           | Some a \<Rightarrow>
               (c, put n (ackMsgId a) (Option.bind (p n (ackMsgId a)) (keep \<circ> ack_msg (ackSubName a))) p))
      | OpCreateQueue \<Rightarrow> (fmupd n \<lparr>qiName = n, qiSubs = fmempty\<rparr> c, p)
      | OpDeleteQueue \<Rightarrow> (fmdrop n c, p(n := \<lambda>_. None))
      | OpUpdateSubPolicy \<Rightarrow>
          (case DecodeSubPolicy (RPayload rec) of
             None \<Rightarrow> s
           | Some pol \<Rightarrow> (set_policies n (fmupd (SubName pol) pol) c, p))
      | OpDeleteSubPolicy \<Rightarrow>
          (case DecodeSubPolicy (RPayload rec) of
             None \<Rightarrow> s
           | Some pol \<Rightarrow> (set_policies n (fmdrop (SubName pol)) c, p))
      | _ \<Rightarrow> s)"

definition meaning :: "Record list \<Rightarrow> log_state \<Rightarrow> log_state" where
  "meaning recs s = fold meaning_step recs s"

text \<open>
  The records the coordinator appends: updates name a queue of the catalog, an enqueued
  message has an identifier no outstanding message has, and an acknowledgement is the first
  of its subscriber for an outstanding message.
\<close>

definition step_ok :: "Record \<Rightarrow> log_state \<Rightarrow> bool" where
  "step_ok rec s =
     (let (c, p) = s; n = QueueName rec in
      case Op rec of
        OpEnqueue \<Rightarrow>
          (case DecodeEnqueue (RPayload rec) of
             None \<Rightarrow> False
           | Some e \<Rightarrow> n |\<in>| fmdom c \<and> keyed (SubList e) \<and> (\<forall>q. p q (enqMsgId e) = None))
      | OpAck \<Rightarrow>
          (case DecodeAck (RPayload rec) of
             None \<Rightarrow> False
           | Some a \<Rightarrow>
               (case p n (ackMsgId a) of None \<Rightarrow> False | Some mi \<Rightarrow> ackSubName a |\<in>| unacked mi))
      | OpUpdateSubPolicy \<Rightarrow> n |\<in>| fmdom c \<and> DecodeSubPolicy (RPayload rec) \<noteq> None
      | OpDeleteSubPolicy \<Rightarrow> n |\<in>| fmdom c \<and> DecodeSubPolicy (RPayload rec) \<noteq> None
      | OpOther _ \<Rightarrow> False
      | _ \<Rightarrow> True)"

fun log_ok :: "Record list \<Rightarrow> log_state \<Rightarrow> bool" where
  "log_ok [] s = True"
| "log_ok (rec # recs) s = (step_ok rec s \<and> log_ok recs (meaning_step rec s))"

lemma meaning_simps [simp]:
  "meaning [] s = s" "meaning (r # rs) s = meaning rs (meaning_step r s)"
  "meaning (xs @ ys) s = meaning ys (meaning xs s)"
  by (simp_all add: meaning_def)

lemma log_ok_append [simp]: "log_ok (xs @ ys) s \<longleftrightarrow> log_ok xs s \<and> log_ok ys (meaning xs s)"
  by (induction xs arbitrary: s) auto

section \<open>Replaying arrives at the meaning\<close>

lemma pending_ext: "(\<And>q m. find_msg d q m = find_msg d' q m) \<Longrightarrow> pending d = pending d'"
  by (simp add: pending_def fun_eq_iff)

lemma pending_keep: "find_msg d q m = Some mi \<Longrightarrow> pending d q m = keep mi"
  by (simp add: pending_def keep_def)

lemma pending_put:
  assumes "\<And>q' m'. find_msg d' q' m' = (if q' = q \<and> m' = m then Some mi else find_msg d q' m')"
  shows "pending d' = put q m (keep mi) (pending d)"
  using assms by (auto simp: fun_eq_iff put_def pending_def keep_def)

lemma replay_one_meaning:
  assumes ok: "step_ok rec (c, pending d)"
  shows "\<exists>c' d'. replay_one rec (c, d) = Inr (c', d') \<and> (c', pending d') = meaning_step rec (c, pending d)"
proof (cases "Op rec")
  case OpEnqueue
  then obtain e where e: "DecodeEnqueue (RPayload rec) = Some e"
    using ok by (auto simp: step_ok_def split: option.splits)
  obtain d' where d': "ProcessEnqueue rec d = Inr d'"
    "\<forall>q m. find_msg d' q m = (if q = QueueName rec \<and> m = enqMsgId e
       then Some \<lparr>Content = MsgContent e, dSubList = SubList e, dAckedSubs = {||}\<rparr> else find_msg d q m)"
    using ProcessEnqueue_find [OF OpEnqueue e, of d] by (elim exE conjE)
  then show ?thesis
    using pending_put [of d' "QueueName rec" "enqMsgId e" _ d] OpEnqueue e
    by (simp add: replay_one_def meaning_step_def Let_def)
next
  case OpAck
  then obtain a mi where a: "DecodeAck (RPayload rec) = Some a"
    and mi: "pending d (QueueName rec) (ackMsgId a) = Some mi" and sub: "ackSubName a |\<in>| unacked mi"
    using ok by (auto simp: step_ok_def split: option.splits)
  have f: "find_msg d (QueueName rec) (ackMsgId a) = Some mi"
    using mi by (auto simp: pending_def split: option.splits if_splits)
  obtain d' where d': "ProcessAck rec d = Inr d'"
    "\<forall>q m. find_msg d' q m = (if q = QueueName rec \<and> m = ackMsgId a
       then Some (if ackSubName a |\<in>| fmdom (dSubList mi)
         then mi\<lparr>dAckedSubs := finsert (ackSubName a) (dAckedSubs mi)\<rparr> else mi) else find_msg d q m)"
    using ProcessAck_find [OF OpAck a f] by (elim exE conjE)
  have "ackSubName a |\<in>| fmdom (dSubList mi)" using sub by (simp add: unacked_def)
  then show ?thesis
    using pending_put [of d' "QueueName rec" "ackMsgId a" _ d] d' OpAck a mi
    by (simp add: replay_one_def meaning_step_def Let_def ack_msg_def)
next
  case OpDeleteQueue
  have "pending (fmdrop n d) = (pending d)(n := \<lambda>_. None)" for n
    by (auto simp: pending_def fun_eq_iff)
  then show ?thesis
    using OpDeleteQueue
    by (simp add: replay_one_def meaning_step_def Let_def ProcessRecord_def removeQueue_def DeleteQueueMessages_def)
next
  case OpUpdateSubPolicy
  then show ?thesis using ok
    by (auto simp: replay_one_def meaning_step_def step_ok_def Let_def ProcessRecord_def updateSubPolicy_def
        set_policies_def fmlookup_dom_iff)
next
  case OpDeleteSubPolicy
  then show ?thesis using ok
    by (auto simp: replay_one_def meaning_step_def step_ok_def Let_def ProcessRecord_def removeSubPolicy_def
        set_policies_def fmlookup_dom_iff)
next
  case (OpOther n)
  then show ?thesis using ok by (simp add: step_ok_def)
qed (auto simp: replay_one_def meaning_step_def Let_def ProcessRecord_def createQueue_def NewQueueInfo_def)

lemma replay_meaning:
  assumes "log_ok recs (c, pending d)"
  shows "\<exists>c' d'. replay recs (c, d) = Inr (c', d') \<and> (c', pending d') = meaning recs (c, pending d)"
  using assms
proof (induction recs arbitrary: c d)
  case (Cons rec recs)
  obtain c1 d1 where 1: "replay_one rec (c, d) = Inr (c1, d1)"
    "(c1, pending d1) = meaning_step rec (c, pending d)"
    using replay_one_meaning [of rec c d] Cons.prems by auto
  then show ?case using Cons.IH [of c1 d1] Cons.prems by simp
qed simp

lemma pending_empty: "pending fmempty = (\<lambda>_ _. None)"
  by (simp add: pending_def fun_eq_iff)

lemma replay_init:
  assumes "log_ok recs log_init"
  shows "\<exists>c d. replay recs (NewCatalog, NewDelivery) = Inr (c, d) \<and> (c, pending d) = meaning recs log_init"
  using replay_meaning [of recs fmempty fmempty] assms
  by (simp add: NewCatalog_def NewDelivery_def log_init_def pending_empty)

end
