(* ===== verification/Compaction.thy ===== *)
theory Compaction
  imports Replay
begin

text \<open>
  \<open>CompactRecords\<close> of \<open>durable-mq/coordinator/checkpointing.go\<close>: a window of the log collapsed
  into the records a checkpoint file keeps. The order in which Go ranges over a map is an
  argument, one for each loop: \<open>ord t\<close> is the order of the loop named \<open>t\<close>.
\<close>

type_synonym orders = "string \<Rightarrow> order"

record compactionState =
  createdQueues :: "(string, Record) fmap"
  createdSubs :: "(string, (string, Record) fmap) fmap"
  inFlightMessages :: "(string, Record) fmap"
  remainingSubs :: "(string, string fset) fmap"
  inFlightAcks :: "(string, (string, Record) fmap) fmap"

definition newCompactionState :: compactionState where
  "newCompactionState =
     \<lparr>createdQueues = fmempty, createdSubs = fmempty, inFlightMessages = fmempty,
      remainingSubs = fmempty, inFlightAcks = fmempty\<rparr>"

text \<open>
  The loop of \<open>applyDeleteQueue\<close> deletes each matching key of three maps; no iteration depends
  on another, so its result is that of dropping all those keys.
\<close>

definition applyDeleteQueue :: "Record \<Rightarrow> compactionState \<Rightarrow> compactionState" where
  "applyDeleteQueue rec s =
     (let qName = QueueName rec;
          gone = fmdom (fmfilter (\<lambda>m. QueueName (the (fmlookup (inFlightMessages s) m)) = qName) (inFlightMessages s))
      in s\<lparr>createdQueues := fmdrop qName (createdQueues s),
           createdSubs := fmdrop qName (createdSubs s),
           inFlightMessages := fmdrop_fset gone (inFlightMessages s),
           remainingSubs := fmdrop_fset gone (remainingSubs s),
           inFlightAcks := fmdrop_fset gone (inFlightAcks s)\<rparr>)"

definition applyEnqueue :: "Record \<Rightarrow> compactionState \<Rightarrow> compactionState" where
  "applyEnqueue rec s =
     (case fmlookup (createdQueues s) (QueueName rec) of
        None \<Rightarrow> s
      | Some _ \<Rightarrow>
          (case DecodeEnqueue (RPayload rec) of
             None \<Rightarrow> s
           | Some enq \<Rightarrow>
               if maplen (SubList enq) = 0 then s
               else s\<lparr>inFlightMessages := fmupd (enqMsgId enq) rec (inFlightMessages s),
                      remainingSubs := fmupd (enqMsgId enq) (SubName |`| fmran (SubList enq)) (remainingSubs s)\<rparr>))"

text \<open>Deleting from a nil map is a no-op, and its length is 0.\<close>

definition applyAck :: "Record \<Rightarrow> compactionState \<Rightarrow> compactionState" where
  "applyAck rec s =
     (case DecodeAck (RPayload rec) of
        None \<Rightarrow> s
      | Some ack \<Rightarrow>
          let m = ackMsgId ack; sub = ackSubName ack;
              rs = (case fmlookup (remainingSubs s) m of
                      None \<Rightarrow> remainingSubs s
                    | Some S \<Rightarrow> fmupd m (S |-| {|sub|}) (remainingSubs s));
              acks = (case fmlookup (inFlightAcks s) m of None \<Rightarrow> fmempty | Some a \<Rightarrow> a);
              as = fmupd m (fmupd sub rec acks) (inFlightAcks s);
              left = (case fmlookup rs m of None \<Rightarrow> {||} | Some S \<Rightarrow> S)
          in if left = {||}
             then s\<lparr>remainingSubs := fmdrop m rs, inFlightMessages := fmdrop m (inFlightMessages s),
                    inFlightAcks := fmdrop m as\<rparr>
             else s\<lparr>remainingSubs := rs, inFlightAcks := as\<rparr>)"

definition applyCreateQueue :: "Record \<Rightarrow> compactionState \<Rightarrow> compactionState" where
  "applyCreateQueue rec s =
     s\<lparr>createdQueues := fmupd (QueueName rec) rec (createdQueues s),
       createdSubs := fmupd (QueueName rec) fmempty (createdSubs s)\<rparr>"

definition applyUpdateSubPolicy :: "Record \<Rightarrow> compactionState \<Rightarrow> compactionState" where
  "applyUpdateSubPolicy rec s =
     (case DecodeSubPolicy (RPayload rec) of
        None \<Rightarrow> s
      | Some subP \<Rightarrow>
          (case fmlookup (createdSubs s) (QueueName rec) of
             None \<Rightarrow> s
           | Some subs \<Rightarrow>
               s\<lparr>createdSubs := fmupd (QueueName rec) (fmupd (SubName subP) rec subs) (createdSubs s)\<rparr>))"

definition applyDeleteSubPolicy :: "Record \<Rightarrow> compactionState \<Rightarrow> compactionState" where
  "applyDeleteSubPolicy rec s =
     (case DecodeSubPolicy (RPayload rec) of
        None \<Rightarrow> s
      | Some subP \<Rightarrow>
          (case fmlookup (createdSubs s) (QueueName rec) of
             None \<Rightarrow> s
           | Some subs \<Rightarrow>
               s\<lparr>createdSubs := fmupd (QueueName rec) (fmdrop (SubName subP) subs) (createdSubs s)\<rparr>))"

text \<open>The values of a map in the order of a loop, and of a map of maps in nested loops.\<close>

definition in_order :: "order \<Rightarrow> (string, 'v) fmap \<Rightarrow> 'v list" where
  "in_order ord m = map (\<lambda>k. the (fmlookup m k)) (ord (fmdom m))"

definition in_order2 :: "order \<Rightarrow> orders \<Rightarrow> (string, (string, 'v) fmap) fmap \<Rightarrow> 'v list" where
  "in_order2 outer inner m =
     concat (map (\<lambda>k. in_order (inner k) (the (fmlookup m k))) (outer (fmdom m)))"

definition compacted :: "orders \<Rightarrow> compactionState \<Rightarrow> Record list" where
  "compacted ord s =
     in_order (ord ''queues'') (createdQueues s) @
     in_order2 (ord ''subs'') (\<lambda>q. ord (''subs/'' @ q)) (createdSubs s) @
     in_order (ord ''messages'') (inFlightMessages s) @
     in_order2 (ord ''acks'') (\<lambda>m. ord (''acks/'' @ m)) (inFlightAcks s)"

definition compact_one :: "Record \<Rightarrow> compactionState \<Rightarrow> compactionState" where
  "compact_one rec s =
     (case Op rec of
        OpEnqueue \<Rightarrow> applyEnqueue rec s
      | OpAck \<Rightarrow> applyAck rec s
      | OpCreateQueue \<Rightarrow> applyCreateQueue rec s
      | OpDeleteQueue \<Rightarrow> applyDeleteQueue rec s
      | OpUpdateSubPolicy \<Rightarrow> applyUpdateSubPolicy rec s
      | OpDeleteSubPolicy \<Rightarrow> applyDeleteSubPolicy rec s
      | _ \<Rightarrow> s)"

definition CompactRecords :: "orders \<Rightarrow> Record list \<Rightarrow> Record list" where
  "CompactRecords ord recs = compacted ord (fold compact_one recs newCompactionState)"

section \<open>The compaction state summarises the meaning\<close>

definition acks_of :: "compactionState \<Rightarrow> string \<Rightarrow> (string, Record) fmap" where
  "acks_of s m = (case fmlookup (inFlightAcks s) m of None \<Rightarrow> fmempty | Some a \<Rightarrow> a)"

definition creates :: "Record \<Rightarrow> string \<Rightarrow> bool" where
  "creates rec q \<longleftrightarrow> Op rec = OpCreateQueue \<and> QueueName rec = q"

definition updates :: "Record \<Rightarrow> string \<Rightarrow> string \<Rightarrow> SubPolicy \<Rightarrow> bool" where
  "updates rec q sub pol \<longleftrightarrow> Op rec = OpUpdateSubPolicy \<and> QueueName rec = q \<and>
     DecodeSubPolicy (RPayload rec) = Some pol \<and> SubName pol = sub"

definition enqueues :: "Record \<Rightarrow> string \<Rightarrow> string \<Rightarrow> Enqueue \<Rightarrow> bool" where
  "enqueues rec q m e \<longleftrightarrow> Op rec = OpEnqueue \<and> QueueName rec = q \<and>
     DecodeEnqueue (RPayload rec) = Some e \<and> enqMsgId e = m \<and> keyed (SubList e) \<and> SubList e \<noteq> fmempty"

definition acks :: "Record \<Rightarrow> string \<Rightarrow> string \<Rightarrow> string \<Rightarrow> bool" where
  "acks rec q m sub \<longleftrightarrow> Op rec = OpAck \<and> QueueName rec = q \<and>
     DecodeAck (RPayload rec) = Some \<lparr>ackMsgId = m, ackSubName = sub\<rparr>"

text \<open>The records kept for the policies of a queue are exactly its policies.\<close>

definition subs_inv :: "string \<Rightarrow> (string, Record) fmap \<Rightarrow> policies \<Rightarrow> bool" where
  "subs_inv q subs pols \<longleftrightarrow> (\<forall>sub.
     (case fmlookup pols sub of
        None \<Rightarrow> fmlookup subs sub = None
      | Some pol \<Rightarrow> \<exists>rec. fmlookup subs sub = Some rec \<and> updates rec q sub pol))"

definition cat_inv :: "compactionState \<Rightarrow> catalog \<Rightarrow> bool" where
  "cat_inv s c \<longleftrightarrow>
     (\<forall>q. fmlookup c q = None \<longrightarrow> fmlookup (createdQueues s) q = None \<and> fmlookup (createdSubs s) q = None) \<and>
     (\<forall>q qi. fmlookup c q = Some qi \<longrightarrow> qiName qi = q \<and>
        (\<exists>rec. fmlookup (createdQueues s) q = Some rec \<and> creates rec q) \<and>
        (\<exists>subs. fmlookup (createdSubs s) q = Some subs \<and> subs_inv q subs (qiSubs qi)))"

text \<open>The record kept for an outstanding message, and the acknowledgements kept with it.\<close>

definition msg_inv :: "compactionState \<Rightarrow> string \<Rightarrow> string \<Rightarrow> DeliveryMessageInfo \<Rightarrow> bool" where
  "msg_inv s q m mi \<longleftrightarrow>
     (\<exists>rec e. fmlookup (inFlightMessages s) m = Some rec \<and> enqueues rec q m e \<and>
        Content mi = MsgContent e \<and> dSubList mi = SubList e) \<and>
     fmlookup (remainingSubs s) m = Some (unacked mi) \<and> unacked mi \<noteq> {||} \<and>
     dAckedSubs mi |\<subseteq>| fmdom (dSubList mi) \<and>
     fmdom (acks_of s m) = dAckedSubs mi \<and>
     (\<forall>sub rec. fmlookup (acks_of s m) sub = Some rec \<longrightarrow> acks rec q m sub)"

definition out_inv :: "compactionState \<Rightarrow> catalog \<Rightarrow> outstanding \<Rightarrow> bool" where
  "out_inv s c p \<longleftrightarrow>
     (\<forall>q m mi. p q m = Some mi \<longrightarrow> q |\<in>| fmdom c \<and> msg_inv s q m mi) \<and>
     (\<forall>m rec. fmlookup (inFlightMessages s) m = Some rec \<longrightarrow> p (QueueName rec) m \<noteq> None) \<and>
     fmdom (remainingSubs s) = fmdom (inFlightMessages s) \<and>
     fmdom (inFlightAcks s) |\<subseteq>| fmdom (inFlightMessages s)"

definition comp_inv :: "compactionState \<Rightarrow> log_state \<Rightarrow> bool" where
  "comp_inv s ls \<longleftrightarrow> cat_inv s (fst ls) \<and> out_inv s (fst ls) (snd ls)"

lemma comp_inv_init: "comp_inv newCompactionState log_init"
  by (simp add: comp_inv_def cat_inv_def out_inv_def newCompactionState_def log_init_def)

lemma cat_invD:
  assumes "cat_inv s c"
  shows "fmlookup c q = None \<Longrightarrow> fmlookup (createdQueues s) q = None"
    "fmlookup c q = None \<Longrightarrow> fmlookup (createdSubs s) q = None"
    "fmlookup c q = Some qi \<Longrightarrow> qiName qi = q"
    "fmlookup c q = Some qi \<Longrightarrow> \<exists>rec. fmlookup (createdQueues s) q = Some rec \<and> creates rec q"
    "fmlookup c q = Some qi \<Longrightarrow> \<exists>subs. fmlookup (createdSubs s) q = Some subs \<and> subs_inv q subs (qiSubs qi)"
  using assms unfolding cat_inv_def by blast+

lemma subs_invD:
  assumes "subs_inv q subs pols"
  shows "fmlookup pols sub = Some pol \<Longrightarrow> \<exists>r. fmlookup subs sub = Some r \<and> updates r q sub pol"
    "fmlookup subs sub = Some r \<Longrightarrow> \<exists>pol. fmlookup pols sub = Some pol \<and> updates r q sub pol"
  using assms [unfolded subs_inv_def, THEN spec, of sub] by (auto split: option.splits)

lemma cat_inv_queue:
  assumes "cat_inv s c" "q |\<in>| fmdom c"
  shows "\<exists>rec. fmlookup (createdQueues s) q = Some rec"
  using assms by (metis cat_inv_def fmlookup_dom_iff)

lemma cat_inv_frame:
  "createdQueues s' = createdQueues s \<Longrightarrow> createdSubs s' = createdSubs s \<Longrightarrow> cat_inv s' c = cat_inv s c"
  by (simp add: cat_inv_def)

lemma out_invI:
  assumes "\<And>q m mi. p q m = Some mi \<Longrightarrow> q |\<in>| fmdom c"
    and "\<And>q m mi. p q m = Some mi \<Longrightarrow> msg_inv s q m mi"
    and "\<And>m rec. fmlookup (inFlightMessages s) m = Some rec \<Longrightarrow> p (QueueName rec) m \<noteq> None"
    and "fmdom (remainingSubs s) = fmdom (inFlightMessages s)"
    and "fmdom (inFlightAcks s) |\<subseteq>| fmdom (inFlightMessages s)"
  shows "out_inv s c p"
  using assms by (simp add: out_inv_def)

lemma out_invD:
  assumes "out_inv s c p"
  shows "p q m = Some mi \<Longrightarrow> q |\<in>| fmdom c" "p q m = Some mi \<Longrightarrow> msg_inv s q m mi"
    "fmlookup (inFlightMessages s) m = Some rec \<Longrightarrow> p (QueueName rec) m \<noteq> None"
    "fmdom (remainingSubs s) = fmdom (inFlightMessages s)"
    "fmdom (inFlightAcks s) |\<subseteq>| fmdom (inFlightMessages s)"
  using assms by (simp_all add: out_inv_def)

lemma keyed_names: "keyed m \<Longrightarrow> SubName |`| fmran m = fmdom m"
  by (rule fset_eqI) (force simp: keyed_def fmlookup_dom_iff fmlookup_ran_iff image_iff)

lemma unacked_fresh: "unacked \<lparr>Content = x, dSubList = l, dAckedSubs = {||}\<rparr> = fmdom l"
  by (simp add: unacked_def)

lemma unacked_ack: "unacked (ack_msg sub mi) = unacked mi |-| {|sub|}"
  by (auto simp: unacked_def ack_msg_def)

text \<open>Where an outstanding message is kept determines its queue.\<close>

lemma out_inv_queue:
  assumes "out_inv s c p" "p q m = Some mi" "fmlookup (inFlightMessages s) m = Some rec"
  shows "QueueName rec = q"
proof -
  have "msg_inv s q m mi" using out_invD(2) [OF assms(1,2)] .
  then obtain rec' e where "fmlookup (inFlightMessages s) m = Some rec'" "enqueues rec' q m e"
    unfolding msg_inv_def by blast
  then show ?thesis using assms(3) by (simp add: enqueues_def)
qed

lemma out_inv_fresh:
  assumes "out_inv s c p" "\<forall>q. p q m = None"
  shows "fmlookup (inFlightMessages s) m = None" "fmlookup (remainingSubs s) m = None"
    "fmlookup (inFlightAcks s) m = None"
proof -
  show 1: "fmlookup (inFlightMessages s) m = None"
    using assms out_invD(3) [OF assms(1)] by (metis option.exhaust)
  then have "m |\<notin>| fmdom (inFlightMessages s)" by (simp add: fmdom_notI)
  then have "m |\<notin>| fmdom (remainingSubs s)" "m |\<notin>| fmdom (inFlightAcks s)"
    using assms(1) by (auto simp: out_inv_def)
  then show "fmlookup (remainingSubs s) m = None" "fmlookup (inFlightAcks s) m = None"
    by (simp_all add: fmdom_notD)
qed

text \<open>A message other than the one an operation touches is kept as it was.\<close>

lemma msg_inv_frame:
  assumes "msg_inv s q m mi"
    "fmlookup (inFlightMessages s') m = fmlookup (inFlightMessages s) m"
    "fmlookup (remainingSubs s') m = fmlookup (remainingSubs s) m"
    "fmlookup (inFlightAcks s') m = fmlookup (inFlightAcks s) m"
  shows "msg_inv s' q m mi"
  using assms by (simp add: msg_inv_def acks_of_def)

lemma comp_enqueue:
  assumes inv: "comp_inv s (c, p)" and ok: "step_ok rec (c, p)" and op: "Op rec = OpEnqueue"
  shows "comp_inv (applyEnqueue rec s) (meaning_step rec (c, p))"
proof -
  obtain e where e: "DecodeEnqueue (RPayload rec) = Some e" "QueueName rec |\<in>| fmdom c"
    "keyed (SubList e)" "\<forall>q. p q (enqMsgId e) = None"
    using ok op by (auto simp: step_ok_def split: option.splits)
  have cat: "cat_inv s c" and out: "out_inv s c p" using inv by (simp_all add: comp_inv_def)
  obtain cr where cr: "fmlookup (createdQueues s) (QueueName rec) = Some cr"
    using cat_inv_queue [OF cat e(2)] by blast
  let ?m = "enqMsgId e" and ?n = "QueueName rec"
  let ?mi = "\<lparr>Content = MsgContent e, dSubList = SubList e, dAckedSubs = {||}\<rparr>"
  note fresh = out_inv_fresh [OF out e(4)]
  show ?thesis
  proof (cases "SubList e = fmempty")
    case True
    have "put ?n ?m None p = p" using e(4) by (auto simp: put_def fun_eq_iff)
    then show ?thesis
      using True inv cr e(1) op by (simp add: applyEnqueue_def meaning_step_def keep_def unacked_def)
  next
    case False
    have dom: "fmdom (SubList e) \<noteq> {||}"
      using False by (metis fmdom_empty fmrestrict_fset_dom fmrestrict_fset_null)
    define s' where "s' = s\<lparr>inFlightMessages := fmupd ?m rec (inFlightMessages s),
        remainingSubs := fmupd ?m (fmdom (SubList e)) (remainingSubs s)\<rparr>"
    have s': "applyEnqueue rec s = s'"
      using False cr e(1) by (simp add: applyEnqueue_def s'_def keyed_names [OF e(3)])
    have p': "meaning_step rec (c, p) = (c, put ?n ?m (Some ?mi) p)"
      using e(1) op dom by (simp add: meaning_step_def keep_def unacked_fresh)
    have cat': "cat_inv s' c" using cat cat_inv_frame [of s' s c] by (simp add: s'_def)
    have new: "msg_inv s' ?n ?m ?mi"
      using fresh(3) dom e op False by (simp add: msg_inv_def s'_def acks_of_def unacked_fresh enqueues_def)
    have old: "msg_inv s' q m mi" if "p q m = Some mi" for q m mi
    proof (rule msg_inv_frame [of s])
      show "msg_inv s q m mi" using out_invD(2) [OF out that] .
      have "m \<noteq> ?m" using that e(4) by auto
      then show "fmlookup (inFlightMessages s') m = fmlookup (inFlightMessages s) m"
        "fmlookup (remainingSubs s') m = fmlookup (remainingSubs s) m"
        "fmlookup (inFlightAcks s') m = fmlookup (inFlightAcks s) m"
        by (simp_all add: s'_def)
    qed
    have "out_inv s' c (put ?n ?m (Some ?mi) p)"
    proof (rule out_invI)
      fix q m mi assume "put ?n ?m (Some ?mi) p q m = Some mi"
      then show "q |\<in>| fmdom c" "msg_inv s' q m mi"
        using e(2) new old out_invD(1) [OF out] by (auto simp: put_def split: if_splits)
    next
      fix m r assume "fmlookup (inFlightMessages s') m = Some r"
      then show "put ?n ?m (Some ?mi) p (QueueName r) m \<noteq> None"
        using out_invD(3) [OF out] by (auto simp: put_def s'_def split: if_splits)
    qed (use out_invD(4,5) [OF out] in \<open>auto simp: s'_def\<close>)
    then show ?thesis using cat' by (simp add: s' p' comp_inv_def)
  qed
qed

lemma comp_ack:
  assumes inv: "comp_inv s (c, p)" and ok: "step_ok rec (c, p)" and op: "Op rec = OpAck"
  shows "comp_inv (applyAck rec s) (meaning_step rec (c, p))"
proof -
  obtain a mi where a: "DecodeAck (RPayload rec) = Some a"
    and mi: "p (QueueName rec) (ackMsgId a) = Some mi" and sub: "ackSubName a |\<in>| unacked mi"
    using ok op by (auto simp: step_ok_def split: option.splits)
  have cat: "cat_inv s c" and out: "out_inv s c p" using inv by (simp_all add: comp_inv_def)
  let ?m = "ackMsgId a" and ?n = "QueueName rec" and ?sub = "ackSubName a"
  let ?mi = "ack_msg ?sub mi"
  have m: "msg_inv s ?n ?m mi" and n: "?n |\<in>| fmdom c" using out_invD(1,2) [OF out mi] by auto
  obtain rec0 where rec0: "fmlookup (inFlightMessages s) ?m = Some rec0"
    using m unfolding msg_inv_def by blast
  have only: "q = ?n" if "p q ?m = Some mi'" for q mi'
    using out_inv_queue [OF out that rec0] out_inv_queue [OF out mi rec0] by simp
  define rs where "rs = fmupd ?m (unacked ?mi) (remainingSubs s)"
  define as where "as = fmupd ?m (fmupd ?sub rec (acks_of s ?m)) (inFlightAcks s)"
  have ap: "applyAck rec s = (if unacked ?mi = {||}
     then s\<lparr>remainingSubs := fmdrop ?m rs, inFlightMessages := fmdrop ?m (inFlightMessages s), inFlightAcks := fmdrop ?m as\<rparr>
     else s\<lparr>remainingSubs := rs, inFlightAcks := as\<rparr>)"
    using a m by (simp add: applyAck_def rs_def as_def Let_def msg_inv_def unacked_ack acks_of_def)
  have p': "meaning_step rec (c, p) = (c, put ?n ?m (keep ?mi) p)"
    using a op mi by (simp add: meaning_step_def)
  define s' where "s' = applyAck rec s"
  have frame: "msg_inv s' q m mi'" if "p q m = Some mi'" "m \<noteq> ?m" for q m mi'
    by (rule msg_inv_frame [of s]) (use out_invD(2) [OF out that(1)] that(2) in \<open>auto simp: s'_def ap rs_def as_def\<close>)
  have cat': "cat_inv s' c" using cat cat_inv_frame [of s' s c] by (simp add: s'_def ap)
  have new: "msg_inv s' ?n ?m ?mi" if "unacked ?mi \<noteq> {||}"
  proof -
    have as: "acks_of s' ?m = fmupd ?sub rec (acks_of s ?m)"
      using that by (simp add: s'_def ap acks_of_def as_def)
    have "fmlookup (remainingSubs s') ?m = Some (unacked ?mi)"
      "fmlookup (inFlightMessages s') ?m = fmlookup (inFlightMessages s) ?m"
      using that by (simp_all add: s'_def ap rs_def)
    then show ?thesis
      using m sub a op that unfolding msg_inv_def as
      by (auto simp: ack_msg_def acks_def unacked_def)
  qed
  have "out_inv s' c (put ?n ?m (keep ?mi) p)"
  proof (rule out_invI)
    fix q m' mi' assume h: "put ?n ?m (keep ?mi) p q m' = Some mi'"
    then show "q |\<in>| fmdom c"
      using n out_invD(1) [OF out] by (auto simp: put_def split: if_splits)
    show "msg_inv s' q m' mi'"
    proof (cases "m' = ?m")
      case True
      then have "q = ?n" using h only [of q mi'] by (cases "q = ?n") (simp_all add: put_def)
      then have "mi' = ?mi" "unacked ?mi \<noteq> {||}"
        using h True by (auto simp: put_def keep_def split: if_splits)
      then show ?thesis using new \<open>q = ?n\<close> True by simp
    next
      case False
      then show ?thesis using h frame [of q m' mi'] by (simp add: put_def)
    qed
  next
    fix m' r assume r: "fmlookup (inFlightMessages s') m' = Some r"
    then have "fmlookup (inFlightMessages s) m' = Some r" "m' = ?m \<Longrightarrow> unacked ?mi \<noteq> {||}"
      by (auto simp: s'_def ap split: if_splits)
    then show "put ?n ?m (keep ?mi) p (QueueName r) m' \<noteq> None"
      using out_invD(3) [OF out] by (auto simp: put_def keep_def)
  next
    have dom: "finsert ?m (fmdom (inFlightMessages s)) = fmdom (inFlightMessages s)"
      using fmdomI [OF rec0] by (rule finsert_absorb)
    show "fmdom (remainingSubs s') = fmdom (inFlightMessages s')"
      by (cases "unacked ?mi = {||}") (simp_all add: s'_def ap rs_def out_invD(4) [OF out] dom)
    have "fmdom (inFlightAcks s) |\<subseteq>| fmdom (inFlightMessages s)" by (rule out_invD(5) [OF out])
    then have sub: "finsert ?m (fmdom (inFlightAcks s)) |\<subseteq>| fmdom (inFlightMessages s)"
      using fmdomI [OF rec0] by blast
    have "fmdom (inFlightAcks s') = (if unacked ?mi = {||}
        then finsert ?m (fmdom (inFlightAcks s)) |-| {|?m|} else finsert ?m (fmdom (inFlightAcks s)))"
      "fmdom (inFlightMessages s') = (if unacked ?mi = {||}
        then fmdom (inFlightMessages s) |-| {|?m|} else fmdom (inFlightMessages s))"
      by (simp_all add: s'_def ap as_def)
    then show "fmdom (inFlightAcks s') |\<subseteq>| fmdom (inFlightMessages s')"
      using sub by (cases "unacked ?mi = {||}") (simp_all, blast)
  qed
  then show ?thesis using cat' by (simp add: s'_def [symmetric] p' comp_inv_def)
qed

lemma comp_delete:
  assumes inv: "comp_inv s (c, p)" and op: "Op rec = OpDeleteQueue"
  shows "comp_inv (applyDeleteQueue rec s) (meaning_step rec (c, p))"
proof -
  have cat: "cat_inv s c" and out: "out_inv s c p" using inv by (simp_all add: comp_inv_def)
  let ?n = "QueueName rec"
  define gone where "gone = fmdom (fmfilter (\<lambda>m. QueueName (the (fmlookup (inFlightMessages s) m)) = ?n) (inFlightMessages s))"
  have gone: "m |\<in>| gone \<longleftrightarrow> (\<exists>r. fmlookup (inFlightMessages s) m = Some r \<and> QueueName r = ?n)" for m
    by (auto simp: gone_def fmlookup_dom_iff)
  define s' where "s' = applyDeleteQueue rec s"
  have s': "createdQueues s' = fmdrop ?n (createdQueues s)" "createdSubs s' = fmdrop ?n (createdSubs s)"
    "inFlightMessages s' = fmdrop_fset gone (inFlightMessages s)"
    "remainingSubs s' = fmdrop_fset gone (remainingSubs s)" "inFlightAcks s' = fmdrop_fset gone (inFlightAcks s)"
    by (simp_all add: s'_def applyDeleteQueue_def Let_def gone_def)
  have p': "meaning_step rec (c, p) = (fmdrop ?n c, p(?n := \<lambda>_. None))"
    using op by (simp add: meaning_step_def Let_def)
  have "cat_inv s' (fmdrop ?n c)" using cat by (simp add: cat_inv_def s')
  moreover have "out_inv s' (fmdrop ?n c) (p(?n := \<lambda>_. None))"
  proof (rule out_invI)
    fix q m mi assume "(p(?n := \<lambda>_. None)) q m = Some mi"
    then have q: "q \<noteq> ?n" and mi: "p q m = Some mi" by (auto split: if_splits)
    show "q |\<in>| fmdom (fmdrop ?n c)" using out_invD(1) [OF out mi] q by simp
    have "m |\<notin>| gone" using out_inv_queue [OF out mi] q by (auto simp: gone)
    then show "msg_inv s' q m mi"
      by (intro msg_inv_frame [OF out_invD(2) [OF out mi]]) (simp_all add: s')
  next
    fix m r assume "fmlookup (inFlightMessages s') m = Some r"
    then have "fmlookup (inFlightMessages s) m = Some r" "m |\<notin>| gone"
      by (auto simp: s' split: if_splits)
    then show "(p(?n := \<lambda>_. None)) (QueueName r) m \<noteq> None"
      using out_invD(3) [OF out] gone by auto
  qed (use out_invD(4,5) [OF out] in \<open>auto simp: s'\<close>)
  ultimately show ?thesis by (simp add: s'_def p' comp_inv_def)
qed

lemma out_inv_catalog:
  assumes "out_inv s c p" "fmdom c |\<subseteq>| fmdom c'"
    "inFlightMessages s' = inFlightMessages s" "remainingSubs s' = remainingSubs s" "inFlightAcks s' = inFlightAcks s"
  shows "out_inv s' c' p"
proof (rule out_invI)
  fix q m mi assume "p q m = Some mi"
  then show "q |\<in>| fmdom c'" "msg_inv s' q m mi"
    using out_invD(1) [OF assms(1)] msg_inv_frame [OF out_invD(2) [OF assms(1)]] assms(2-) by auto
qed (use out_invD(3-5) [OF assms(1)] assms(3-) in auto)

lemma comp_create:
  assumes inv: "comp_inv s (c, p)" and op: "Op rec = OpCreateQueue"
  shows "comp_inv (applyCreateQueue rec s) (meaning_step rec (c, p))"
proof -
  have cat: "cat_inv s c" and out: "out_inv s c p" using inv by (simp_all add: comp_inv_def)
  have "out_inv (applyCreateQueue rec s) (fmupd n qi c) p" for n qi
    by (rule out_inv_catalog [OF out]) (auto simp: applyCreateQueue_def)
  moreover have "cat_inv (applyCreateQueue rec s) (fmupd (QueueName rec) \<lparr>qiName = QueueName rec, qiSubs = fmempty\<rparr> c)"
    using cat op by (auto simp: cat_inv_def applyCreateQueue_def creates_def subs_inv_def)
  ultimately show ?thesis using op by (simp add: comp_inv_def meaning_step_def Let_def)
qed

lemma subs_inv_upd:
  assumes "subs_inv q subs pols" "updates rec q (SubName pol) pol"
  shows "subs_inv q (fmupd (SubName pol) rec subs) (fmupd (SubName pol) pol pols)"
  unfolding subs_inv_def
proof
  fix sub
  show "case fmlookup (fmupd (SubName pol) pol pols) sub of
      None \<Rightarrow> fmlookup (fmupd (SubName pol) rec subs) sub = None
    | Some pl \<Rightarrow> \<exists>r. fmlookup (fmupd (SubName pol) rec subs) sub = Some r \<and> updates r q sub pl"
    using assms(1) [unfolded subs_inv_def, THEN spec, of sub] assms(2)
    by (cases "SubName pol = sub") (simp_all split: option.splits)
qed

lemma subs_inv_drop:
  assumes "subs_inv q subs pols"
  shows "subs_inv q (fmdrop n subs) (fmdrop n pols)"
  unfolding subs_inv_def
proof
  fix sub
  show "case fmlookup (fmdrop n pols) sub of
      None \<Rightarrow> fmlookup (fmdrop n subs) sub = None
    | Some pl \<Rightarrow> \<exists>r. fmlookup (fmdrop n subs) sub = Some r \<and> updates r q sub pl"
    using assms [unfolded subs_inv_def, THEN spec, of sub] by (cases "sub = n") (simp_all split: option.splits)
qed

lemma cat_inv_set_policies:
  assumes "cat_inv s c" "fmlookup c n = Some qi" "fmlookup (createdSubs s) n = Some subs"
    "subs_inv n subs' (f (qiSubs qi))"
  shows "cat_inv (s\<lparr>createdSubs := fmupd n subs' (createdSubs s)\<rparr>) (set_policies n f c)"
  using assms by (auto simp: cat_inv_def set_policies_def)

lemma set_policies_dom [simp]: "fmdom (set_policies n f c) = fmdom c"
  by (auto simp: set_policies_def fmdomI split: option.splits)

lemma comp_policy:
  assumes inv: "comp_inv s (c, p)" and ok: "step_ok rec (c, p)"
    and op: "Op rec = OpUpdateSubPolicy \<or> Op rec = OpDeleteSubPolicy"
  shows "comp_inv (compact_one rec s) (meaning_step rec (c, p))"
proof -
  have cat: "cat_inv s c" and out: "out_inv s c p" using inv by (simp_all add: comp_inv_def)
  let ?n = "QueueName rec"
  obtain qi pol where qi: "fmlookup c ?n = Some qi" and pol: "DecodeSubPolicy (RPayload rec) = Some pol"
    using ok op by (auto simp: step_ok_def fmlookup_dom_iff)
  obtain subs where subs: "fmlookup (createdSubs s) ?n = Some subs" "subs_inv ?n subs (qiSubs qi)"
    using cat qi unfolding cat_inv_def by blast
  have frame: "out_inv (s\<lparr>createdSubs := x\<rparr>) (set_policies ?n f c) p" for x f
    by (rule out_inv_catalog [OF out]) simp_all
  show ?thesis
  proof (cases "Op rec = OpUpdateSubPolicy")
    case True
    have "subs_inv ?n (fmupd (SubName pol) rec subs) (fmupd (SubName pol) pol (qiSubs qi))"
      using subs_inv_upd [OF subs(2)] True pol by (simp add: updates_def)
    then show ?thesis
      using cat_inv_set_policies [OF cat qi subs(1)] frame True pol subs(1)
      by (simp add: compact_one_def meaning_step_def comp_inv_def applyUpdateSubPolicy_def Let_def)
  next
    case False
    have "subs_inv ?n (fmdrop (SubName pol) subs) (fmdrop (SubName pol) (qiSubs qi))"
      by (rule subs_inv_drop [OF subs(2)])
    then show ?thesis
      using cat_inv_set_policies [OF cat qi subs(1)] frame False op pol subs(1)
      by (simp add: compact_one_def meaning_step_def comp_inv_def applyDeleteSubPolicy_def Let_def)
  qed
qed

lemma compact_one_inv:
  assumes "comp_inv s ls" "step_ok rec ls"
  shows "comp_inv (compact_one rec s) (meaning_step rec ls)"
proof -
  obtain c p where ls: "ls = (c, p)" by (cases ls)
  show ?thesis
  proof (cases "Op rec")
    case OpEnqueue
    with comp_enqueue assms ls show ?thesis by (simp add: compact_one_def)
  next
    case OpAck
    with comp_ack assms ls show ?thesis by (simp add: compact_one_def)
  next
    case OpDeleteQueue
    with comp_delete assms ls show ?thesis by (simp add: compact_one_def)
  next
    case OpCreateQueue
    with comp_create assms ls show ?thesis by (simp add: compact_one_def)
  next
    case OpUpdateSubPolicy
    with comp_policy assms ls show ?thesis by blast
  next
    case OpDeleteSubPolicy
    with comp_policy assms ls show ?thesis by blast
  qed (use assms ls in \<open>simp_all add: compact_one_def meaning_step_def Let_def\<close>)
qed

lemma compact_inv:
  "comp_inv s ls \<Longrightarrow> log_ok recs ls \<Longrightarrow> comp_inv (fold compact_one recs s) (meaning recs ls)"
  by (induction recs arbitrary: s ls) (simp_all add: compact_one_inv)

section \<open>Replaying what is kept\<close>

text \<open>The four groups of records, each replayed in any order.\<close>

lemma phase_create:
  assumes "\<And>k. k \<in> set ks \<Longrightarrow> creates (f k) k"
  shows "log_ok (map f ks) (c, p) \<and> (\<exists>c'. meaning (map f ks) (c, p) = (c', p) \<and>
    (\<forall>n. fmlookup c' n = (if n \<in> set ks then Some \<lparr>qiName = n, qiSubs = fmempty\<rparr> else fmlookup c n)))"
  using assms
proof (induction ks arbitrary: c)
  case (Cons k ks)
  have k: "step_ok (f k) (c, p)" "meaning_step (f k) (c, p) = (fmupd k \<lparr>qiName = k, qiSubs = fmempty\<rparr> c, p)"
    using Cons.prems [of k] by (simp_all add: creates_def step_ok_def meaning_step_def Let_def)
  obtain c' where "log_ok (map f ks) (fmupd k \<lparr>qiName = k, qiSubs = fmempty\<rparr> c, p)"
    "meaning (map f ks) (fmupd k \<lparr>qiName = k, qiSubs = fmempty\<rparr> c, p) = (c', p)"
    "\<forall>n. fmlookup c' n = (if n \<in> set ks then Some \<lparr>qiName = n, qiSubs = fmempty\<rparr>
       else fmlookup (fmupd k \<lparr>qiName = k, qiSubs = fmempty\<rparr> c) n)"
    using Cons.IH [of "fmupd k \<lparr>qiName = k, qiSubs = fmempty\<rparr> c"] Cons.prems by auto
  then show ?case using k by auto
qed simp

definition policy_of :: "Record \<Rightarrow> SubPolicy" where
  "policy_of r = the (DecodeSubPolicy (RPayload r))"

definition policy_key :: "Record \<Rightarrow> string \<times> string" where
  "policy_key r = (QueueName r, SubName (policy_of r))"

lemma phase_update:
  assumes "\<And>r. r \<in> set rs \<Longrightarrow> QueueName r |\<in>| fmdom c"
    and "\<And>r. r \<in> set rs \<Longrightarrow> updates r (QueueName r) (SubName (policy_of r)) (policy_of r)"
    and "\<And>r. r \<in> set rs \<Longrightarrow> fmlookup (T (QueueName r)) (SubName (policy_of r)) = Some (policy_of r)"
  shows "log_ok rs (c, p) \<and> (\<exists>c'. meaning rs (c, p) = (c', p) \<and> (\<forall>q.
    (fmlookup c q = None \<longrightarrow> fmlookup c' q = None) \<and>
    (\<forall>qi. fmlookup c q = Some qi \<longrightarrow> (\<exists>pl. fmlookup c' q = Some (qi\<lparr>qiSubs := pl\<rparr>) \<and>
       (\<forall>sub. fmlookup pl sub = (if (q, sub) \<in> policy_key ` set rs then fmlookup (T q) sub
          else fmlookup (qiSubs qi) sub))))))"
  using assms
proof (induction rs arbitrary: c)
  case Nil
  have "qi\<lparr>qiSubs := qiSubs qi\<rparr> = qi" for qi :: QueueInfo by simp
  then show ?case by (auto intro!: exI [of _ "qiSubs _"])
next
  case (Cons r rs)
  let ?n = "QueueName r" and ?pol = "policy_of r"
  obtain qi0 where qi0: "fmlookup c ?n = Some qi0"
    using Cons.prems(1) [of r] by (auto simp: fmlookup_dom_iff)
  define c1 where "c1 = fmupd ?n (qi0\<lparr>qiSubs := fmupd (SubName ?pol) ?pol (qiSubs qi0)\<rparr>) c"
  have r: "step_ok r (c, p)" "meaning_step r (c, p) = (c1, p)"
    using Cons.prems(1,2) [of r] qi0
    by (auto simp: updates_def step_ok_def meaning_step_def Let_def set_policies_def c1_def)
  obtain c' where c': "log_ok rs (c1, p)" "meaning rs (c1, p) = (c', p)" "\<forall>q.
    (fmlookup c1 q = None \<longrightarrow> fmlookup c' q = None) \<and>
    (\<forall>qi. fmlookup c1 q = Some qi \<longrightarrow> (\<exists>pl. fmlookup c' q = Some (qi\<lparr>qiSubs := pl\<rparr>) \<and>
       (\<forall>sub. fmlookup pl sub = (if (q, sub) \<in> policy_key ` set rs then fmlookup (T q) sub
          else fmlookup (qiSubs qi) sub))))"
    using Cons.IH [of c1] Cons.prems by (auto simp: c1_def)
  have key: "policy_key r = (?n, SubName ?pol)" by (simp add: policy_key_def)
  have T: "fmlookup (T ?n) (SubName ?pol) = Some ?pol" using Cons.prems(3) by simp
  have "(fmlookup c q = None \<longrightarrow> fmlookup c' q = None) \<and>
    (\<forall>qi. fmlookup c q = Some qi \<longrightarrow> (\<exists>pl. fmlookup c' q = Some (qi\<lparr>qiSubs := pl\<rparr>) \<and>
       (\<forall>sub. fmlookup pl sub = (if (q, sub) \<in> policy_key ` set (r # rs) then fmlookup (T q) sub
          else fmlookup (qiSubs qi) sub))))" for q
  proof (cases "q = ?n")
    case True
    obtain pl where pl: "fmlookup c' ?n = Some (qi0\<lparr>qiSubs := pl\<rparr>)"
      "\<forall>sub. fmlookup pl sub = (if (?n, sub) \<in> policy_key ` set rs then fmlookup (T ?n) sub
          else fmlookup (fmupd (SubName ?pol) ?pol (qiSubs qi0)) sub)"
      using c'(3) [THEN spec, of ?n] by (auto simp: c1_def)
    have "fmlookup pl sub = (if (?n, sub) \<in> policy_key ` set (r # rs) then fmlookup (T ?n) sub
        else fmlookup (qiSubs qi0) sub)" for sub
      using pl(2) [THEN spec, of sub] T by (cases "sub = SubName ?pol") (simp_all add: key)
    then show ?thesis using True qi0 pl(1) by auto
  next
    case False
    then show ?thesis using c'(3) [THEN spec, of q] by (simp add: c1_def key)
  qed
  then show ?case using r c'(1,2) by simp
qed

lemma phase_enqueue:
  assumes "distinct ms"
    and "\<And>m. m \<in> set ms \<Longrightarrow> Q m |\<in>| fmdom c \<and> enqueues (f m) (Q m) m (E m)"
    and "\<And>m q. m \<in> set ms \<Longrightarrow> p q m = None"
  shows "log_ok (map f ms) (c, p) \<and> meaning (map f ms) (c, p) = (c, \<lambda>q m.
    if m \<in> set ms \<and> q = Q m then Some \<lparr>Content = MsgContent (E m), dSubList = SubList (E m), dAckedSubs = {||}\<rparr>
    else p q m)"
  using assms
proof (induction ms arbitrary: p)
  case (Cons m ms)
  let ?mi = "\<lparr>Content = MsgContent (E m), dSubList = SubList (E m), dAckedSubs = {||}\<rparr>"
  have m: "enqueues (f m) (Q m) m (E m)" "Q m |\<in>| fmdom c" using Cons.prems(2) [of m] by simp_all
  have dom: "fmdom (SubList (E m)) \<noteq> {||}"
    using m(1) by (metis enqueues_def fmdom_empty fmrestrict_fset_dom fmrestrict_fset_null)
  have step: "step_ok (f m) (c, p)" "meaning_step (f m) (c, p) = (c, put (Q m) m (Some ?mi) p)"
    using m dom Cons.prems(3) by (simp_all add: enqueues_def step_ok_def meaning_step_def keep_def unacked_fresh)
  have IH: "log_ok (map f ms) (c, put (Q m) m (Some ?mi) p) \<and>
    meaning (map f ms) (c, put (Q m) m (Some ?mi) p) = (c, \<lambda>q m'.
    if m' \<in> set ms \<and> q = Q m' then Some \<lparr>Content = MsgContent (E m'), dSubList = SubList (E m'), dAckedSubs = {||}\<rparr>
    else put (Q m) m (Some ?mi) p q m')"
    by (rule Cons.IH) (use Cons.prems in \<open>auto simp: put_def\<close>)
  show ?case using step IH Cons.prems(1) by (auto simp: put_def fun_eq_iff)
qed simp

definition ack_all :: "string list \<Rightarrow> DeliveryMessageInfo \<Rightarrow> DeliveryMessageInfo" where
  "ack_all subs mi = mi\<lparr>dAckedSubs := dAckedSubs mi |\<union>| fset_of_list subs\<rparr>"

lemma ack_all_simps: "ack_all [] mi = mi" "ack_all (sub # subs) mi = ack_all subs (ack_msg sub mi)"
  by (simp_all add: ack_all_def ack_msg_def)

lemma phase_ack_one:
  assumes "distinct subs" "p q m = Some mi"
    and "\<And>sub. sub \<in> set subs \<Longrightarrow> sub |\<in>| unacked mi \<and> acks (g sub) q m sub"
    and "unacked (ack_all subs mi) \<noteq> {||}"
  shows "log_ok (map g subs) (c, p) \<and>
    meaning (map g subs) (c, p) = (c, put q m (Some (ack_all subs mi)) p)"
  using assms
proof (induction subs arbitrary: p mi)
  case Nil
  then show ?case by (auto simp: put_def ack_all_simps fun_eq_iff)
next
  case (Cons sub subs)
  have g: "acks (g sub) q m sub" and sub: "sub |\<in>| unacked mi" using Cons.prems(3) by simp_all
  have sub_un: "unacked (ack_all xs mi') |\<subseteq>| unacked mi'" for xs mi'
    by (auto simp: unacked_def ack_all_def)
  have ne: "unacked (ack_msg sub mi) \<noteq> {||}"
    using sub_un [of subs "ack_msg sub mi"] Cons.prems(4) by (auto simp: ack_all_simps)
  have step: "step_ok (g sub) (c, p)" "meaning_step (g sub) (c, p) = (c, put q m (Some (ack_msg sub mi)) p)"
    using g sub ne Cons.prems(2) by (simp_all add: acks_def step_ok_def meaning_step_def keep_def)
  have IH: "log_ok (map g subs) (c, put q m (Some (ack_msg sub mi)) p) \<and>
    meaning (map g subs) (c, put q m (Some (ack_msg sub mi)) p) =
      (c, put q m (Some (ack_all subs (ack_msg sub mi))) (put q m (Some (ack_msg sub mi)) p))"
    by (rule Cons.IH) (use Cons.prems in \<open>auto simp: put_def unacked_ack ack_all_simps\<close>)
  have "put q m x (put q m y p) = put q m x p" for x y by (auto simp: put_def fun_eq_iff)
  then show ?case using step IH by (simp add: ack_all_simps)
qed

lemma phase_ack:
  assumes "distinct ms"
    and "\<And>m. m \<in> set ms \<Longrightarrow> p (Q m) m = Some (M m) \<and> distinct (S m) \<and> unacked (ack_all (S m) (M m)) \<noteq> {||}"
    and "\<And>m sub. m \<in> set ms \<Longrightarrow> sub \<in> set (S m) \<Longrightarrow> sub |\<in>| unacked (M m) \<and> acks (g m sub) (Q m) m sub"
  shows "log_ok (concat (map (\<lambda>m. map (g m) (S m)) ms)) (c, p) \<and>
    meaning (concat (map (\<lambda>m. map (g m) (S m)) ms)) (c, p) = (c, \<lambda>q m.
      if m \<in> set ms \<and> q = Q m then Some (ack_all (S m) (M m)) else p q m)"
  using assms
proof (induction ms arbitrary: p)
  case (Cons m ms)
  have one: "log_ok (map (g m) (S m)) (c, p) \<and>
    meaning (map (g m) (S m)) (c, p) = (c, put (Q m) m (Some (ack_all (S m) (M m))) p)"
    by (rule phase_ack_one) (use Cons.prems in auto)
  have IH: "log_ok (concat (map (\<lambda>m. map (g m) (S m)) ms)) (c, put (Q m) m (Some (ack_all (S m) (M m))) p) \<and>
    meaning (concat (map (\<lambda>m. map (g m) (S m)) ms)) (c, put (Q m) m (Some (ack_all (S m) (M m))) p) = (c, \<lambda>q m'.
      if m' \<in> set ms \<and> q = Q m' then Some (ack_all (S m') (M m')) else put (Q m) m (Some (ack_all (S m) (M m))) p q m')"
    by (rule Cons.IH) (use Cons.prems in \<open>auto simp: put_def\<close>)
  show ?case using one IH Cons.prems(1) by (auto simp: put_def fun_eq_iff)
qed simp

section \<open>Compaction preserves the meaning\<close>

lemma in_order_map: "in_order ord m = map (\<lambda>k. the (fmlookup m k)) (ord (fmdom m))"
  by (simp add: in_order_def)

lemma in_order_mem: "visits_all ord \<Longrightarrow> r \<in> set (in_order ord m) \<longleftrightarrow> (\<exists>k. fmlookup m k = Some r)"
  by (force simp: in_order_def visits_allD fmlookup_dom_iff)

lemma in_order2_mem:
  assumes "visits_all outer" "\<And>k. visits_all (inner k)"
  shows "r \<in> set (in_order2 outer inner m) \<longleftrightarrow> (\<exists>k n k'. fmlookup m k = Some n \<and> fmlookup n k' = Some r)"
proof -
  have "r \<in> set (in_order2 outer inner m) \<longleftrightarrow>
      (\<exists>k. k |\<in>| fmdom m \<and> (\<exists>k'. fmlookup (the (fmlookup m k)) k' = Some r))"
    by (auto simp: in_order2_def visits_allD(2) [OF assms(1)] in_order_mem [OF assms(2)])
  also have "\<dots> \<longleftrightarrow> (\<exists>k n k'. fmlookup m k = Some n \<and> fmlookup n k' = Some r)"
    by (force simp: fmlookup_dom_iff)
  finally show ?thesis .
qed

lemma compacted_catalog:
  assumes cat: "cat_inv s c" and ord: "\<And>t. visits_all (ord t)"
  defines "rs \<equiv> in_order (ord ''queues'') (createdQueues s) @
     in_order2 (ord ''subs'') (\<lambda>q. ord (''subs/'' @ q)) (createdSubs s)"
  shows "log_ok rs log_init \<and> meaning rs log_init = (c, \<lambda>_ _. None)"
proof -
  let ?ks = "ord ''queues'' (fmdom (createdQueues s))"
  let ?rs = "in_order2 (ord ''subs'') (\<lambda>q. ord (''subs/'' @ q)) (createdSubs s)"
  have dom: "fmdom (createdQueues s) = fmdom c"
  proof (rule fset_eqI)
    fix q show "q |\<in>| fmdom (createdQueues s) \<longleftrightarrow> q |\<in>| fmdom c"
      using cat_invD(1,4) [OF cat, of q] by (cases "fmlookup c q") (auto simp: fmlookup_dom_iff)
  qed
  have ks: "set ?ks = fset (fmdom c)" using ord by (simp add: visits_allD dom)
  have cr: "creates (the (fmlookup (createdQueues s) k)) k" if k: "k \<in> set ?ks" for k
  proof -
    obtain qi where "fmlookup c k = Some qi" using k ks by (auto simp: fmlookup_dom_iff)
    then show ?thesis using cat_invD(4) [OF cat] by fastforce
  qed
  note mem = in_order2_mem [of "ord ''subs''" "\<lambda>q. ord (''subs/'' @ q)" _ "createdSubs s", OF ord ord]
  obtain c1 where c1: "log_ok (in_order (ord ''queues'') (createdQueues s)) log_init"
    "meaning (in_order (ord ''queues'') (createdQueues s)) log_init = (c1, \<lambda>_ _. None)"
    "\<forall>n. fmlookup c1 n = (if n \<in> set ?ks then Some \<lparr>qiName = n, qiSubs = fmempty\<rparr> else fmlookup fmempty n)"
    using phase_create [of ?ks "\<lambda>k. the (fmlookup (createdQueues s) k)" fmempty "\<lambda>_ _. None", OF cr]
    by (auto simp: in_order_map log_init_def)
  define T where "T q = (case fmlookup c q of None \<Rightarrow> fmempty | Some qi \<Rightarrow> qiSubs qi)" for q
  have kept: "QueueName r |\<in>| fmdom c \<and> updates r (QueueName r) (SubName (policy_of r)) (policy_of r) \<and>
      fmlookup (T (QueueName r)) (SubName (policy_of r)) = Some (policy_of r)" if "r \<in> set ?rs" for r
  proof -
    obtain q subs sub where q: "fmlookup (createdSubs s) q = Some subs" "fmlookup subs sub = Some r"
      using \<open>r \<in> set ?rs\<close> unfolding mem by (elim exE conjE)
    then obtain qi where qi: "fmlookup c q = Some qi"
      using cat_invD(2) [OF cat, of q] by (cases "fmlookup c q") simp_all
    then have "subs_inv q subs (qiSubs qi)" using cat_invD(5) [OF cat qi] q(1) by simp
    then obtain pol where "fmlookup (qiSubs qi) sub = Some pol" "updates r q sub pol"
      using subs_invD(2) q(2) by blast
    then show ?thesis using qi by (auto simp: updates_def policy_of_def T_def fmdomI)
  qed
  have c1dom: "q |\<in>| fmdom c1" if "q |\<in>| fmdom c" for q
    using c1(3) that ks by (auto simp: fmlookup_dom_iff)
  obtain c2 where c2: "log_ok ?rs (c1, \<lambda>_ _. None)" "meaning ?rs (c1, \<lambda>_ _. None) = (c2, \<lambda>_ _. None)"
    "\<forall>q. (fmlookup c1 q = None \<longrightarrow> fmlookup c2 q = None) \<and>
    (\<forall>qi. fmlookup c1 q = Some qi \<longrightarrow> (\<exists>pl. fmlookup c2 q = Some (qi\<lparr>qiSubs := pl\<rparr>) \<and>
       (\<forall>sub. fmlookup pl sub = (if (q, sub) \<in> policy_key ` set ?rs then fmlookup (T q) sub
          else fmlookup (qiSubs qi) sub))))"
    using phase_update [of ?rs c1 T "\<lambda>_ _. None"] kept c1dom by blast
  have "fmlookup c2 q = fmlookup c q" for q
  proof (cases "fmlookup c q")
    case None
    then have "fmlookup c1 q = None" using c1(3) ks by (auto simp: fmlookup_dom_iff)
    then show ?thesis using c2(3) None by simp
  next
    case (Some qi)
    then have "fmlookup c1 q = Some \<lparr>qiName = q, qiSubs = fmempty\<rparr>"
      using c1(3) ks by (auto simp: fmdomI)
    then obtain pl where pl: "fmlookup c2 q = Some \<lparr>qiName = q, qiSubs = pl\<rparr>"
      "\<forall>sub. fmlookup pl sub = (if (q, sub) \<in> policy_key ` set ?rs then fmlookup (T q) sub else None)"
      using c2(3) [THEN spec, of q] by auto
    have "fmlookup pl sub = fmlookup (qiSubs qi) sub" for sub
    proof (cases "fmlookup (qiSubs qi) sub")
      case None
      then show ?thesis using pl(2) Some by (simp add: T_def)
    next
      case (Some pol)
      obtain subs where subs: "fmlookup (createdSubs s) q = Some subs" "subs_inv q subs (qiSubs qi)"
        using cat_invD(5) [OF cat \<open>fmlookup c q = Some qi\<close>] by (elim exE conjE)
      obtain r where r: "fmlookup subs sub = Some r" "updates r q sub pol"
        using subs_invD(1) [OF subs(2) Some] by (elim exE conjE)
      then have "r \<in> set ?rs" unfolding mem using subs(1) by (intro exI conjI)
      moreover have "policy_key r = (q, sub)" using r(2) by (simp add: policy_key_def policy_of_def updates_def)
      ultimately have "(q, sub) \<in> policy_key ` set ?rs" by force
      then show ?thesis using pl(2) \<open>fmlookup c q = Some qi\<close> by (simp add: T_def)
    qed
    then have "pl = qiSubs qi" by (rule fmap_ext)
    moreover have "qiName qi = q" using cat Some by (simp add: cat_inv_def)
    ultimately show ?thesis using pl(1) Some by simp
  qed
  then have "c2 = c" by (rule fmap_ext)
  then show ?thesis using c1(1,2) c2(1,2) by (simp add: rs_def)
qed

lemma compacted_messages:
  assumes out: "out_inv s c p" and ord: "\<And>t. visits_all (ord t)"
  defines "rs \<equiv> in_order (ord ''messages'') (inFlightMessages s) @
     in_order2 (ord ''acks'') (\<lambda>m. ord (''acks/'' @ m)) (inFlightAcks s)"
  shows "log_ok rs (c, \<lambda>_ _. None) \<and> meaning rs (c, \<lambda>_ _. None) = (c, p)"
proof -
  let ?ms = "ord ''messages'' (fmdom (inFlightMessages s))" and ?as = "ord ''acks'' (fmdom (inFlightAcks s))"
  define f where "f m = the (fmlookup (inFlightMessages s) m)" for m
  define Q where "Q m = QueueName (f m)" for m
  define E where "E m = the (DecodeEnqueue (RPayload (f m)))" for m
  define M where "M m = \<lparr>Content = MsgContent (E m), dSubList = SubList (E m), dAckedSubs = {||}\<rparr>" for m
  define S where "S m = ord (''acks/'' @ m) (fmdom (acks_of s m))" for m
  have live: "\<exists>mi. p (Q m) m = Some mi \<and> msg_inv s (Q m) m mi \<and> Q m |\<in>| fmdom c"
    if m: "m |\<in>| fmdom (inFlightMessages s)" for m
  proof -
    obtain r where r: "fmlookup (inFlightMessages s) m = Some r" using m by (auto simp: fmlookup_dom_iff)
    then obtain mi where "p (Q m) m = Some mi" using out_invD(3) [OF out r] by (auto simp: Q_def f_def)
    then show ?thesis using out_invD(1,2) [OF out] by blast
  qed
  have enq: "enqueues (f m) (Q m) m (E m)" and full: "ack_all (S m) (M m) = the (p (Q m) m)"
    and ackd: "\<And>sub. sub \<in> set (S m) \<Longrightarrow> sub |\<in>| unacked (M m) \<and> acks (the (fmlookup (acks_of s m) sub)) (Q m) m sub"
    and ne: "unacked (ack_all (S m) (M m)) \<noteq> {||}" and Qc: "Q m |\<in>| fmdom c"
    if m: "m |\<in>| fmdom (inFlightMessages s)" for m
  proof -
    obtain mi where mi: "p (Q m) m = Some mi" "msg_inv s (Q m) m mi" "Q m |\<in>| fmdom c" using live [OF m] by blast
    obtain r e where r: "fmlookup (inFlightMessages s) m = Some r" "enqueues r (Q m) m e"
      "Content mi = MsgContent e" "dSubList mi = SubList e"
      using mi(2) unfolding msg_inv_def by blast
    have e: "f m = r" "E m = e" using r(1,2) by (simp_all add: f_def E_def enqueues_def)
    have S: "fset_of_list (S m) = dAckedSubs mi" "set (S m) = fset (dAckedSubs mi)"
      using ord [of "''acks/'' @ m"] mi(2) by (simp_all add: S_def visits_all_def msg_inv_def visits_allD [OF ord])
    show "enqueues (f m) (Q m) m (E m)" using r(2) e by simp
    show all: "ack_all (S m) (M m) = the (p (Q m) m)"
      using mi(1) r(3,4) e S(1) by (simp add: ack_all_def M_def)
    show "unacked (ack_all (S m) (M m)) \<noteq> {||}" using all mi by (simp add: msg_inv_def)
    show "Q m |\<in>| fmdom c" by (rule mi(3))
    fix sub assume "sub \<in> set (S m)"
    then have "sub |\<in>| dAckedSubs mi" using S(2) by simp
    moreover have "dAckedSubs mi |\<subseteq>| fmdom (dSubList mi)" "fmdom (acks_of s m) = dAckedSubs mi"
      "\<forall>sub rec. fmlookup (acks_of s m) sub = Some rec \<longrightarrow> acks rec (Q m) m sub"
      using mi(2) unfolding msg_inv_def by blast+
    moreover obtain rec where "fmlookup (acks_of s m) sub = Some rec"
      using calculation(1,3) fmdomE by metis
    ultimately show "sub |\<in>| unacked (M m) \<and> acks (the (fmlookup (acks_of s m) sub)) (Q m) m sub"
      using r(4) e by (auto simp: unacked_def M_def)
  qed
  have ms: "distinct ?ms" "set ?ms = fset (fmdom (inFlightMessages s))" by (simp_all add: visits_allD [OF ord])
  have as: "distinct ?as" "set ?as = fset (fmdom (inFlightAcks s))" by (simp_all add: visits_allD [OF ord])
  have as_ms: "m |\<in>| fmdom (inFlightMessages s)" if "m \<in> set ?as" for m
    using that as(2) out_invD(5) [OF out] by auto
  define p1 where "p1 = (\<lambda>q m. if m \<in> set ?ms \<and> q = Q m then Some (M m) else None)"
  have 1: "log_ok (in_order (ord ''messages'') (inFlightMessages s)) (c, \<lambda>_ _. None) \<and>
      meaning (in_order (ord ''messages'') (inFlightMessages s)) (c, \<lambda>_ _. None) = (c, p1)"
    unfolding in_order_map f_def [symmetric] p1_def M_def
    by (rule phase_enqueue) (use ms enq Qc in auto)
  have in2: "in_order2 (ord ''acks'') (\<lambda>m. ord (''acks/'' @ m)) (inFlightAcks s) =
      concat (map (\<lambda>m. map (\<lambda>sub. the (fmlookup (acks_of s m) sub)) (S m)) ?as)"
    unfolding in_order2_def in_order_def S_def
    by (intro arg_cong [where f = concat] map_cong) (use as(2) in \<open>auto simp: acks_of_def fmlookup_dom_iff\<close>)
  have 2: "log_ok (in_order2 (ord ''acks'') (\<lambda>m. ord (''acks/'' @ m)) (inFlightAcks s)) (c, p1) \<and>
      meaning (in_order2 (ord ''acks'') (\<lambda>m. ord (''acks/'' @ m)) (inFlightAcks s)) (c, p1) =
        (c, \<lambda>q m. if m \<in> set ?as \<and> q = Q m then Some (ack_all (S m) (M m)) else p1 q m)"
    unfolding in2
  proof (rule phase_ack)
    fix m assume "m \<in> set ?as"
    then have "m |\<in>| fmdom (inFlightMessages s)" by (rule as_ms)
    then show "p1 (Q m) m = Some (M m) \<and> distinct (S m) \<and> unacked (ack_all (S m) (M m)) \<noteq> {||}"
      using ms(2) ne by (simp add: p1_def S_def visits_allD [OF ord])
  qed (use as(1) as_ms ackd in auto)
  have "(if m \<in> set ?as \<and> q = Q m then Some (ack_all (S m) (M m)) else p1 q m) = p q m" for q m
  proof (cases "m |\<in>| fmdom (inFlightMessages s) \<and> q = Q m")
    case True
    obtain mi where mi: "p (Q m) m = Some mi" using live True by blast
    have "S m = []" if "m \<notin> set ?as"
    proof -
      have "fmdom (acks_of s m) = {||}" using that as(2) by (simp add: acks_of_def fmdom_notD)
      then have "set (S m) = {}" by (simp add: S_def visits_allD [OF ord])
      then show ?thesis by simp
    qed
    then show ?thesis
      using True mi full [of m] ms(2) by (auto simp: p1_def ack_all_simps)
  next
    case False
    have "p q m = None"
    proof (rule ccontr)
      assume "p q m \<noteq> None"
      then obtain mi where mi: "p q m = Some mi" by blast
      then obtain r where "fmlookup (inFlightMessages s) m = Some r"
        using out_invD(2) [OF out mi] unfolding msg_inv_def by blast
      then show False using out_inv_queue [OF out mi] False by (auto simp: Q_def f_def fmdomI)
    qed
    moreover have "m \<notin> set ?as \<or> q \<noteq> Q m" using as_ms False by blast
    ultimately show ?thesis using False ms(2) by (auto simp: p1_def)
  qed
  then show ?thesis using 1 2 by (simp add: rs_def)
qed

lemma compacted_meaning:
  assumes "comp_inv s ls" "\<And>t. visits_all (ord t)"
  shows "log_ok (compacted ord s) log_init" "meaning (compacted ord s) log_init = ls"
proof -
  obtain c p where ls: "ls = (c, p)" by (cases ls)
  have 1: "cat_inv s c" "out_inv s c p" using assms(1) by (simp_all add: ls comp_inv_def)
  show "log_ok (compacted ord s) log_init" "meaning (compacted ord s) log_init = ls"
    using compacted_catalog [of s c ord, OF 1(1) assms(2)] compacted_messages [of s c p ord, OF 1(2) assms(2)]
    by (simp_all add: compacted_def ls)
qed

lemma CompactRecords_meaning:
  assumes "log_ok recs log_init" "\<And>t. visits_all (ord t)"
  shows "log_ok (CompactRecords ord recs) log_init" "meaning (CompactRecords ord recs) log_init = meaning recs log_init"
  using compacted_meaning [OF compact_inv [OF comp_inv_init assms(1)] assms(2)]
  by (simp_all add: CompactRecords_def)

end
