(* ===== verification/Segments.thy ===== *)
theory Segments
  imports Log_Record Codec
begin

text \<open>
  \<open>durable-mq/wal/segment-mgr.go\<close>: the files of the log directory. The directory is a map from
  file names to contents; a subdirectory in it is ignored by all of the code and is not
  represented. Which system calls fail is an argument, so every error path of the code is a
  branch here; \<open>Panicked\<close> is a panic. Directory entries are taken to be as durable as the
  files they name.
\<close>

section \<open>Files and faults\<close>

type_synonym fs = "(string, bytes) fmap"

datatype syscall =
    SysMkdir | SysReadDir | SysOpen | SysRead | SysStat | SysWrite | SysSync | SysClose
  | SysTruncate | SysRemove | SysRename

text \<open>Which calls fail on which file, and how many bytes a failing write leaves behind.\<close>

record faults =
  fails :: "syscall \<Rightarrow> string \<Rightarrow> bool"
  written :: nat

definition no_faults :: faults where
  "no_faults = \<lparr>fails = (\<lambda>_ _. False), written = 0\<rparr>"

lemma no_faults_simps [simp]: "fails no_faults c n = False" "written no_faults = 0"
  by (simp_all add: no_faults_def)

datatype wal_error =
    IOError syscall string | NotExist string | OverMaxHeader nat | PartialRecord string | ShortCheckpoint string

datatype 'a outcome = Done 'a | Failed wal_error | Panicked

text \<open>The entries \<open>os.ReadDir\<close> returns: sorted by name.\<close>

definition entries :: "fs \<Rightarrow> string list" where
  "entries fs = sorted_list_of_fset (fmdom fs)"

definition with_suffix :: "string \<Rightarrow> fs \<Rightarrow> string list" where
  "with_suffix ext fs = sort (filter (suffix ext) (entries fs))"

definition open_file :: "faults \<Rightarrow> string \<Rightarrow> fs \<Rightarrow> wal_error + bytes" where
  "open_file flt name fs =
     (if fails flt SysOpen name then Inl (IOError SysOpen name)
      else case fmlookup fs name of None \<Rightarrow> Inl (NotExist name) | Some b \<Rightarrow> Inr b)"

text \<open>\<open>os.Remove\<close>: the error is \<open>None\<close> when the file is gone or was never there.\<close>

definition remove_file :: "faults \<Rightarrow> string \<Rightarrow> fs \<Rightarrow> fs \<times> wal_error option" where
  "remove_file flt name fs =
     (case fmlookup fs name of
        None \<Rightarrow> (fs, None)
      | Some _ \<Rightarrow>
          if fails flt SysRemove name then (fs, Some (IOError SysRemove name)) else (fmdrop name fs, None))"

fun remove_files :: "faults \<Rightarrow> string list \<Rightarrow> fs \<Rightarrow> fs \<times> wal_error list" where
  "remove_files flt [] fs = (fs, [])"
| "remove_files flt (n # ns) fs =
     (let (fs1, e) = remove_file flt n fs; (fs2, es) = remove_files flt ns fs1
      in (fs2, (case e of None \<Rightarrow> es | Some x \<Rightarrow> x # es)))"

section \<open>The segment manager\<close>

record SegmentManager =
  segments :: "string list"
  ckptSegments :: "string list"
  ckptThreshold :: int

definition DefaultCheckpointThreshold :: int where
  "DefaultCheckpointThreshold = 4"

definition refresh :: "faults \<Rightarrow> fs \<Rightarrow> SegmentManager \<Rightarrow> wal_error + SegmentManager" where
  "refresh flt fs sm =
     (if fails flt SysReadDir '''' then Inl (IOError SysReadDir '''')
      else Inr (sm\<lparr>segments := with_suffix ''.wal'' fs, ckptSegments := with_suffix ''.ckpt'' fs\<rparr>))"

definition NewSegmentManagerWithThreshold :: "faults \<Rightarrow> int \<Rightarrow> fs \<Rightarrow> wal_error + SegmentManager" where
  "NewSegmentManagerWithThreshold flt thr fs =
     (let thr' = (if thr < 1 then DefaultCheckpointThreshold else thr) in
      if fails flt SysMkdir '''' then Inl (IOError SysMkdir '''')
      else refresh flt fs \<lparr>segments = [], ckptSegments = [], ckptThreshold = thr'\<rparr>)"

definition NewSegmentManager :: "faults \<Rightarrow> fs \<Rightarrow> wal_error + SegmentManager" where
  "NewSegmentManager flt fs = NewSegmentManagerWithThreshold flt DefaultCheckpointThreshold fs"

definition sm_ShouldCheckpoint :: "SegmentManager \<Rightarrow> bool" where
  "sm_ShouldCheckpoint sm \<longleftrightarrow> int (length (segments sm)) \<ge> ckptThreshold sm"

fun segment_after :: "string \<Rightarrow> string list \<Rightarrow> string option" where
  "segment_after name (a # b # rest) = (if a = name then Some b else segment_after name (b # rest))"
| "segment_after name _ = None"

definition SegmentAfter :: "SegmentManager \<Rightarrow> string \<Rightarrow> string option" where
  "SegmentAfter sm name = segment_after name (segments sm)"

definition sm_Last :: "SegmentManager \<Rightarrow> string option" where
  "sm_Last sm = (if segments sm = [] then None else Some (last (segments sm)))"

definition segmentFileName :: "nat \<Rightarrow> string" where
  "segmentFileName firstLSN = pad0 20 (dec_nat firstLSN) @ ''.wal''"

text \<open>\<open>None\<close> is the panic on a malformed name.\<close>

definition firstLSNFromSegmentName :: "string \<Rightarrow> nat option" where
  "firstLSNFromSegmentName name =
     ParseUint64 (if suffix ''.wal'' name then take (length name - 4) name else name)"

definition CreateSegment :: "faults \<Rightarrow> nat \<Rightarrow> fs \<Rightarrow> SegmentManager \<Rightarrow> wal_error + (fs \<times> SegmentManager \<times> string)" where
  "CreateSegment flt firstLSN fs sm =
     (let name = segmentFileName firstLSN in
      if fails flt SysOpen name then Inl (IOError SysOpen name)
      else Inr ((if name |\<in>| fmdom fs then fs else fmupd name [] fs),
                sm\<lparr>segments := segments sm @ [name]\<rparr>, name))"

definition TruncateSegment :: "faults \<Rightarrow> string \<Rightarrow> nat \<Rightarrow> fs \<Rightarrow> wal_error + fs" where
  "TruncateSegment flt name sz fs =
     (if fails flt SysTruncate name then Inl (IOError SysTruncate name)
      else case fmlookup fs name of
        None \<Rightarrow> Inl (NotExist name)
      | Some b \<Rightarrow> Inr (fmupd name (take sz b @ replicate (sz - length b) (CHR 0x00)) fs))"

text \<open>The names collected by the loop of \<open>DeleteSegmentsBefore\<close>; \<open>None\<close> is a panic.\<close>

fun segments_before :: "nat \<Rightarrow> string list \<Rightarrow> string list option" where
  "segments_before lsn (a # b # rest) =
     (case firstLSNFromSegmentName b of
        None \<Rightarrow> None
      | Some first \<Rightarrow> if first > lsn then Some [] else map_option ((#) a) (segments_before lsn (b # rest)))"
| "segments_before lsn _ = Some []"

definition DeleteSegmentsBefore ::
    "faults \<Rightarrow> nat \<Rightarrow> fs \<Rightarrow> SegmentManager \<Rightarrow> (fs \<times> SegmentManager \<times> wal_error list) outcome" where
  "DeleteSegmentsBefore flt lsn fs sm =
     (case segments_before lsn (segments sm) of
        None \<Rightarrow> Panicked
      | Some toDelete \<Rightarrow>
          let (fs', errs) = remove_files flt toDelete fs in
          Done (fs', sm\<lparr>segments := filter (\<lambda>n. n \<notin> set toDelete) (segments sm)\<rparr>, errs))"

section \<open>Scanning a segment\<close>

definition maxLogLength :: nat where
  "maxLogLength = 16 * 1024 * 1024"

text \<open>
  The loop of \<open>scanSegment\<close> on the bytes that are left: the records read and how many bytes
  they take. \<open>None\<close> is a panic inside \<open>Decode\<close>.
\<close>

function scan :: "bytes \<Rightarrow> (Record list \<times> nat) option" where
  "scan b =
     (if length b < 12 then Some ([], 0)
      else let remainingLength = unle (take 4 (drop 8 b)) in
        if remainingLength > maxLogLength then Some ([], 0)
        else if length b < 12 + remainingLength then Some ([], 0)
        else case Decode (take (12 + remainingLength) b) of
          None \<Rightarrow> None
        | Some (Inl _) \<Rightarrow> Some ([], 0)
        | Some (Inr rec) \<Rightarrow>
            map_option (\<lambda>(recs, n). (rec # recs, 12 + remainingLength + n)) (scan (drop (12 + remainingLength) b)))"
  by pat_completeness auto
termination
  by (relation "measure length") auto

declare scan.simps [simp del]

definition scanSegment :: "faults \<Rightarrow> string \<Rightarrow> bytes \<Rightarrow> (Record list \<times> nat) outcome" where
  "scanSegment flt name b =
     (if fails flt SysRead name then Failed (IOError SysRead name)
      else case scan b of None \<Rightarrow> Panicked | Some r \<Rightarrow> Done r)"

section \<open>Recovery\<close>

record RecoveryState =
  rsNextLSN :: nat
  rsFile :: string
  rsSize :: nat

definition Recover :: "faults \<Rightarrow> fs \<Rightarrow> SegmentManager \<Rightarrow> (fs \<times> SegmentManager \<times> RecoveryState) outcome" where
  "Recover flt fs sm =
     (case sm_Last sm of
        None \<Rightarrow>
          (case CreateSegment flt 1 fs sm of
             Inl e \<Rightarrow> Failed e
           | Inr (fs', sm', f) \<Rightarrow> Done (fs', sm', \<lparr>rsNextLSN = 1, rsFile = f, rsSize = 0\<rparr>))
      | Some seg \<Rightarrow>
          (case open_file flt seg fs of
             Inl e \<Rightarrow> Failed e
           | Inr b \<Rightarrow>
               (case scanSegment flt seg b of
                  Failed e \<Rightarrow> Failed e
                | Panicked \<Rightarrow> Panicked
                | Done (records, validEnd) \<Rightarrow>
                    (case firstLSNFromSegmentName seg of
                       None \<Rightarrow> Panicked
                     | Some first \<Rightarrow>
                         let nextLSN = (if records = [] then first
                               else (LSN (last records) + 1) mod 2 ^ 64) in
                         (case TruncateSegment flt seg validEnd fs of
                            Inl e \<Rightarrow> Failed e
                          | Inr fs' \<Rightarrow>
                              (case open_file flt seg fs' of
                                 Inl e \<Rightarrow> Failed e
                               | Inr _ \<Rightarrow>
                                   Done (fs', sm, \<lparr>rsNextLSN = nextLSN, rsFile = seg, rsSize = validEnd\<rparr>)))))))"

section \<open>Checkpoint files\<close>

definition checkpointFileName :: "string \<Rightarrow> string" where
  "checkpointFileName uid = ''checkpoint-'' @ uid @ ''.ckpt''"

definition checksumFile :: "faults \<Rightarrow> string \<Rightarrow> fs \<Rightarrow> wal_error + string" where
  "checksumFile flt name fs =
     (case open_file flt name fs of
        Inl e \<Rightarrow> Inl e
      | Inr b \<Rightarrow> if fails flt SysRead name then Inl (IOError SysRead name) else Inr (hex8 (ChecksumIEEE b)))"

text \<open>The loop of \<open>GetCheckpointFiles\<close>: names with their checksums, or the first error.\<close>

fun checksum_all :: "faults \<Rightarrow> fs \<Rightarrow> string list \<Rightarrow> wal_error + (string \<times> string) list" where
  "checksum_all flt fs [] = Inr []"
| "checksum_all flt fs (n # ns) =
     (case checksumFile flt n fs of
        Inl e \<Rightarrow> Inl e
      | Inr c \<Rightarrow> (case checksum_all flt fs ns of Inl e \<Rightarrow> Inl e | Inr cs \<Rightarrow> Inr ((n, c) # cs)))"

definition GetCheckpointFiles :: "faults \<Rightarrow> fs \<Rightarrow> wal_error + (string \<times> string) list" where
  "GetCheckpointFiles flt fs =
     (if fails flt SysReadDir '''' then Inl (IOError SysReadDir '''')
      else checksum_all flt fs (with_suffix ''.ckpt'' fs))"

definition DeleteCheckpointFilesExcept :: "faults \<Rightarrow> string \<Rightarrow> fs \<Rightarrow> fs \<times> wal_error list" where
  "DeleteCheckpointFilesExcept flt keepName fs =
     (case GetCheckpointFiles flt fs of
        Inl e \<Rightarrow> (fs, [e])
      | Inr files \<Rightarrow> remove_files flt (filter (\<lambda>n. n \<noteq> keepName) (map fst files)) fs)"

definition DeleteTmpFiles :: "faults \<Rightarrow> fs \<Rightarrow> fs \<times> wal_error list" where
  "DeleteTmpFiles flt fs =
     (if fails flt SysReadDir '''' then (fs, [IOError SysReadDir ''''])
      else remove_files flt (filter (suffix ''.tmp'') (entries fs)) fs)"

text \<open>
  \<open>WriteCheckpointFile\<close>: the data goes to a temporary file that is renamed once it is complete
  and synced; every failure before that removes the temporary file again.
\<close>

definition WriteCheckpointFile ::
    "faults \<Rightarrow> string \<Rightarrow> Record list \<Rightarrow> fs \<Rightarrow> fs \<times> (wal_error + (string \<times> string))" where
  "WriteCheckpointFile flt uid records fs =
     (let name = checkpointFileName uid; tmp = name @ ''.tmp'';
          data = concat (map Encode records);
          cleanup = (\<lambda>f. fst (remove_file flt tmp f)) in
      if fails flt SysOpen tmp then (fs, Inl (IOError SysOpen tmp))
      else if fails flt SysWrite tmp
      then (cleanup (fmupd tmp (take (written flt) data) fs), Inl (IOError SysWrite tmp))
      else let fs1 = fmupd tmp data fs in
      if fails flt SysSync tmp then (cleanup fs1, Inl (IOError SysSync tmp))
      else if fails flt SysClose tmp then (cleanup fs1, Inl (IOError SysClose tmp))
      else if fails flt SysRename tmp then (cleanup fs1, Inl (IOError SysRename tmp))
      else let fs2 = fmupd name data (fmdrop tmp fs1) in
        (fs2, (case checksumFile flt name fs2 of Inl e \<Rightarrow> Inl e | Inr checksum \<Rightarrow> Inr (name, checksum))))"

section \<open>What a scan finds\<close>

text \<open>A record the reader accepts: not longer than \<open>maxLogLength\<close>.\<close>

definition storable :: "Record \<Rightarrow> bool" where
  "storable r \<longleftrightarrow> record_ok r \<and> body_len r \<le> maxLogLength"

definition encode_all :: "Record list \<Rightarrow> bytes" where
  "encode_all rs = concat (map Encode rs)"

lemma encode_all_simps [simp]:
  "encode_all [] = []" "encode_all (r # rs) = Encode r @ encode_all rs"
  "encode_all (xs @ ys) = encode_all xs @ encode_all ys"
  by (simp_all add: encode_all_def)

lemma Encode_length_field: "record_ok r \<Longrightarrow> unle (take 4 (drop 8 (Encode r @ t))) = body_len r"
  by (simp add: Encode_def record_body_def body_len_def record_ok_def unle_le)

lemma scan_Encode:
  assumes "storable r"
  shows "scan (Encode r @ t) =
    map_option (\<lambda>(recs, n). (r # recs, length (Encode r) + n)) (scan t)"
proof -
  have r: "record_ok r" "body_len r \<le> maxLogLength" using assms by (simp_all add: storable_def)
  define b where "b = Encode r @ t"
  have b: "12 \<le> length b" "unle (take 4 (drop 8 b)) = body_len r" "12 + body_len r \<le> length b"
    "take (12 + body_len r) b = Encode r" "drop (12 + body_len r) b = t"
    unfolding b_def using Encode_length_field [OF r(1), of t] by (simp_all add: length_Encode)
  have d: "Decode (Encode r) = Some (Inr r)"
    using Decode_Encode_append [OF r(1), of "[]"] by simp
  have "scan b = map_option (\<lambda>(recs, n). (r # recs, 12 + body_len r + n)) (scan t)"
    using b(1,3) r(2) by (subst scan.simps) (simp add: b(2,4,5) d Let_def)
  then show ?thesis by (simp add: b_def length_Encode add.commute)
qed

lemma scan_encode_all:
  assumes "list_all storable rs"
  shows "scan (encode_all rs @ t) =
    map_option (\<lambda>(recs, n). (rs @ recs, length (encode_all rs) + n)) (scan t)"
  using assms
proof (induction rs)
  case Nil
  have "(\<lambda>(recs, n). (recs, n)) = (\<lambda>x :: Record list \<times> nat. x)" by auto
  then show ?case by (simp add: option.map_id)
next
  case (Cons r rs)
  then show ?case
    by (simp add: scan_Encode option.map_comp comp_def case_prod_unfold add.assoc)
qed

text \<open>What a crash in the middle of an append leaves at the end of a file.\<close>

definition torn :: "bytes \<Rightarrow> bool" where
  "torn t \<longleftrightarrow> (\<exists>r. record_ok r \<and> strict_prefix t (Encode r))"

lemma scan_torn:
  assumes "torn t"
  shows "scan t = Some ([], 0)"
proof (cases "length t < 12")
  case False
  obtain r u where r: "record_ok r" "Encode r = t @ u" "u \<noteq> []"
    using assms by (auto simp: torn_def strict_prefix_def prefix_def)
  have "unle (take 4 (drop 8 t)) = unle (take 4 (drop 8 (Encode r @ [])))"
    using r(2) False by simp
  also have "\<dots> = body_len r" by (rule Encode_length_field [OF r(1)])
  finally have l: "unle (take 4 (drop 8 t)) = body_len r" .
  have "length t < 12 + body_len r"
    using arg_cong [OF r(2), of length] r(3) by (cases u) (simp_all add: length_Encode)
  then show ?thesis by (subst scan.simps) (simp add: l Let_def)
qed (simp add: scan.simps)

lemma torn_Nil: "torn []"
proof -
  have "record_ok sample_record" by (rule sample_record_ok)
  moreover have "Encode sample_record \<noteq> []" using length_Encode [of sample_record] by auto
  ultimately show ?thesis by (metis torn_def Nil_prefix prefix_order.less_le)
qed

text \<open>Whatever the file holds, the bytes a scan counts are exactly the records it returns.\<close>

lemma scan_sound:
  assumes "scan b = Some (rs, n)"
  shows "n \<le> length b \<and> take n b = encode_all rs \<and> list_all storable rs"
  using assms
proof (induction b arbitrary: rs n rule: scan.induct)
  case (1 b)
  let ?l = "unle (take 4 (drop 8 b))"
  consider "rs = []" "n = 0" | rec rs' n' where "12 \<le> length b" "?l \<le> maxLogLength" "12 + ?l \<le> length b"
    "Decode (take (12 + ?l) b) = Some (Inr rec)" "scan (drop (12 + ?l) b) = Some (rs', n')"
    "rs = rec # rs'" "n = 12 + ?l + n'"
    using "1.prems" by (subst (asm) scan.simps)
      (auto simp: Let_def not_less split: if_splits option.splits sum.splits prod.splits)
  then show ?case
  proof cases
    case 2
    have IH: "n' \<le> length (drop (12 + ?l) b) \<and> take n' (drop (12 + ?l) b) = encode_all rs' \<and> list_all storable rs'"
      using "1.IH" [OF _ refl _ _ 2(4) refl 2(5)] 2(1-3) by simp
    have ok: "record_ok rec" "\<exists>t. take (12 + ?l) b = Encode rec @ t"
      using Decode_sound [OF 2(4)] by auto
    then obtain t where t: "take (12 + ?l) b = Encode rec @ t" by blast
    have "take 4 (drop 8 (take (12 + ?l) b)) = take 4 (drop 8 b)" by (simp add: drop_take min_def)
    then have "body_len rec = ?l"
      using Encode_length_field [OF ok(1), of t] by (simp flip: t)
    then have e: "Encode rec = take (12 + ?l) b" and st: "storable rec"
      using t 2(2,3) ok(1) by (auto simp: storable_def length_Encode dest: arg_cong [of _ _ length])
    have "take n b = take (12 + ?l) b @ take n' (drop (12 + ?l) b)"
      unfolding 2(7) by (rule take_split)
    moreover have "n \<le> length b" using IH [THEN conjunct1] 2(3,7) by simp
    ultimately show ?thesis using IH 2(6) e st by simp
  qed simp
qed

section \<open>Segment names\<close>

fun digits :: "nat \<Rightarrow> nat \<Rightarrow> string" where
  "digits 0 n = []"
| "digits (Suc k) n = digits k (n div 10) @ [digit (n mod 10)]"

lemma length_digits [simp]: "length (digits k n) = k"
  by (induction k arbitrary: n) simp_all

lemma digits_0: "digits k 0 = replicate k (CHR ''0'')"
proof (induction k)
  case (Suc k)
  have "digit 0 = CHR ''0''" by code_simp
  then show ?case using Suc by (simp add: replicate_append_same)
qed simp

lemma pad0_digits: "0 < k \<Longrightarrow> n < 10 ^ k \<Longrightarrow> pad0 k (dec_nat n) = digits k n"
proof (induction k arbitrary: n)
  case (Suc k)
  show ?case
  proof (cases "n < 10")
    case True
    then show ?thesis by (simp add: pad0_def dec_nat.simps [of n] digits_0)
  next
    case False
    then have k: "0 < k" using Suc.prems by (cases k) simp_all
    then have IH: "pad0 k (dec_nat (n div 10)) = digits k (n div 10)"
      using Suc.IH [of "n div 10"] Suc.prems by (simp add: less_mult_imp_div_less mult.commute)
    have "dec_nat n = dec_nat (n div 10) @ [digit (n mod 10)]"
      using False by (simp add: dec_nat.simps [of n])
    then have "pad0 (Suc k) (dec_nat n) = pad0 k (dec_nat (n div 10)) @ [digit (n mod 10)]"
      by (simp add: pad0_def)
    then show ?thesis by (simp add: IH)
  qed
qed simp

lemma digit_less: "a < b \<Longrightarrow> b < 10 \<Longrightarrow> digit a < digit b"
  by (simp add: less_char_def digit_def)

lemma list_less_append:
  fixes xs ys :: "'a::order list"
  shows "xs < ys \<Longrightarrow> length xs = length ys \<Longrightarrow> xs @ us < ys @ vs"
  by (simp add: list_less_def lexord_sufI)

lemma list_less_same: "us < vs \<Longrightarrow> xs @ us < xs @ (vs :: 'a::order list)"
  by (simp add: list_less_def lexord_append_leftI)

lemma digits_less: "n < m \<Longrightarrow> m < 10 ^ k \<Longrightarrow> digits k n < digits k m"
proof (induction k arbitrary: n m)
  case (Suc k)
  show ?case
  proof (cases "n div 10 < m div 10")
    case True
    moreover have "m div 10 < 10 ^ k" using Suc.prems(2) by (simp add: less_mult_imp_div_less mult.commute)
    ultimately show ?thesis using Suc.IH by (simp add: list_less_append)
  next
    case False
    then have eq: "n div 10 = m div 10" using Suc.prems(1) by (simp add: div_le_mono le_antisym not_less less_imp_le)
    then have "n mod 10 < m mod 10" using Suc.prems(1) by (metis div_mult_mod_eq nat_add_left_cancel_less)
    then have "[digit (n mod 10)] < [digit (m mod 10)]" by (simp add: digit_less)
    then show ?thesis by (simp add: eq list_less_same)
  qed
qed simp

lemma segmentFileName_less:
  assumes "n < m" "m < 2 ^ 64"
  shows "segmentFileName n < segmentFileName m"
proof -
  have m: "m < 10 ^ 20" "n < 10 ^ 20" using assms by simp_all
  have "digits 20 n < digits 20 m" using assms(1) m(1) by (rule digits_less)
  then show ?thesis
    using m by (simp add: segmentFileName_def pad0_digits list_less_append)
qed

lemma segmentFileName_inject:
  assumes "n < 2 ^ 64" "m < 2 ^ 64"
  shows "segmentFileName n = segmentFileName m \<longleftrightarrow> n = m"
  using segmentFileName_less [of n m] segmentFileName_less [of m n] assms
  by (metis less_irrefl linorder_neqE_nat)

lemma firstLSN_segmentFileName [simp]:
  "n < 2 ^ 64 \<Longrightarrow> firstLSNFromSegmentName (segmentFileName n) = Some n"
  by (simp add: firstLSNFromSegmentName_def segmentFileName_def suffix_def ParseUint64_pad0)

lemma suffix_segmentFileName [simp]: "suffix ''.wal'' (segmentFileName n)"
  by (simp add: segmentFileName_def suffix_def)

lemma sorted_segment_names:
  "sorted_wrt (<) ls \<Longrightarrow> \<forall>l \<in> set ls. l < 2 ^ 64 \<Longrightarrow> sorted_wrt (<) (map segmentFileName ls)"
  by (induction ls) (auto simp: segmentFileName_less)

end
