(* ===== verification/Wal.thy ===== *)
theory Wal
  imports Segments
begin

text \<open>
  \<open>durable-mq/wal\<close>: the writer (\<open>writer.go\<close>), the reader (\<open>reader.go\<close>) and the log that puts them
  together (\<open>wal.go\<close>). An open file is its name (and, for a reader, its position): the log
  never removes the file its writer has open.
\<close>

section \<open>Modes and options\<close>

datatype Mode = ModeSync | ModeNoSync | ModeOff

definition Mode_String :: "Mode \<Rightarrow> string" where
  "Mode_String m = (case m of ModeSync \<Rightarrow> ''sync'' | ModeNoSync \<Rightarrow> ''nosync'' | ModeOff \<Rightarrow> ''off'')"

definition ParseMode :: "string \<Rightarrow> Mode option" where
  "ParseMode s =
     (if s = ''sync'' then Some ModeSync else if s = ''nosync'' then Some ModeNoSync
      else if s = ''off'' then Some ModeOff else None)"

definition Durable :: "Mode \<Rightarrow> bool" where
  "Durable m \<longleftrightarrow> m = ModeSync"

text \<open>
  \<open>strings.ToUpper\<close> on ASCII text, and 64-bit multiplication. Upper case turns no letter
  outside ASCII into a digit or a letter of a unit, so such a size is refused either way.
\<close>

definition ToUpper :: "string \<Rightarrow> string" where
  "ToUpper s = map upper s"

definition wrap64 :: "int \<Rightarrow> int" where
  "wrap64 i = (i + 2 ^ 63) mod 2 ^ 64 - 2 ^ 63"

definition size_unit :: "string \<Rightarrow> int \<times> string" where
  "size_unit t =
     (if suffix ''GB'' t then (2 ^ 30, take (length t - 2) t)
      else if suffix ''MB'' t then (2 ^ 20, take (length t - 2) t)
      else if suffix ''KB'' t then (2 ^ 10, take (length t - 2) t)
      else if suffix ''B'' t then (1, take (length t - 1) t)
      else (1, t))"

definition ParseSize :: "string \<Rightarrow> int option" where
  "ParseSize s =
     (let (mult, t) = size_unit (ToUpper (TrimSpace s)) in
      case ParseInt64 (TrimSpace t) of
        None \<Rightarrow> None
      | Some n \<Rightarrow> if n \<le> 0 then None else Some (wrap64 (n * mult)))"

section \<open>The writer\<close>

record Writer =
  wfile :: string
  wopen :: bool
  currentSize :: nat
  maxSegSize :: int
  nextLSN :: nat
  wmode :: Mode

definition OpenWriter ::
    "faults \<Rightarrow> int \<Rightarrow> Mode \<Rightarrow> fs \<Rightarrow> SegmentManager \<Rightarrow> (fs \<times> SegmentManager \<times> Writer) outcome" where
  "OpenWriter flt maxSeg mode fs sm =
     (case Recover flt fs sm of
        Failed e \<Rightarrow> Failed e
      | Panicked \<Rightarrow> Panicked
      | Done (fs', sm', rs) \<Rightarrow>
          Done (fs', sm', \<lparr>wfile = rsFile rs, wopen = True, currentSize = rsSize rs, maxSegSize = maxSeg,
            nextLSN = rsNextLSN rs, wmode = mode\<rparr>))"

text \<open>
  \<open>rollSegment\<close>: closing a file that is already closed fails, and a file counts as closed after
  \<open>Close\<close> even when that reported an error.
\<close>

definition rollSegment ::
    "faults \<Rightarrow> fs \<Rightarrow> SegmentManager \<Rightarrow> Writer \<Rightarrow> (fs \<times> SegmentManager \<times> Writer) \<times> wal_error option" where
  "rollSegment flt fs sm w =
     (if \<not> wopen w \<or> fails flt SysClose (wfile w)
      then ((fs, sm, w\<lparr>wopen := False\<rparr>), Some (IOError SysClose (wfile w)))
      else case CreateSegment flt (nextLSN w) fs sm of
        Inl e \<Rightarrow> ((fs, sm, w\<lparr>wopen := False\<rparr>), Some e)
      | Inr (fs', sm', f) \<Rightarrow> ((fs', sm', w\<lparr>wfile := f, wopen := True, currentSize := 0\<rparr>), None))"

text \<open>The file a writer has open was there when it was opened.\<close>

definition append_file :: "string \<Rightarrow> bytes \<Rightarrow> fs \<Rightarrow> fs" where
  "append_file name b fs = fmupd name ((case fmlookup fs name of None \<Rightarrow> [] | Some c \<Rightarrow> c) @ b) fs"

text \<open>
  \<open>Writer.Append\<close>. A failed write may leave part of the record in the file, and a failed sync
  all of it; neither advances the writer.
\<close>

definition writer_Append ::
    "faults \<Rightarrow> Record \<Rightarrow> fs \<Rightarrow> SegmentManager \<Rightarrow> Writer \<Rightarrow> (fs \<times> SegmentManager \<times> Writer) \<times> (wal_error + Record)" where
  "writer_Append flt rec fs sm w =
     (let rec' = rec\<lparr>LSN := nextLSN w\<rparr>; buf = Encode rec' in
      case (if int (currentSize w + length buf) > maxSegSize w then rollSegment flt fs sm w else ((fs, sm, w), None)) of
        (st, Some e) \<Rightarrow> (st, Inl e)
      | ((fs1, sm1, w1), None) \<Rightarrow>
          if \<not> wopen w1 then ((fs1, sm1, w1), Inl (IOError SysWrite (wfile w1)))
          else if fails flt SysWrite (wfile w1)
          then ((append_file (wfile w1) (take (written flt) buf) fs1, sm1, w1), Inl (IOError SysWrite (wfile w1)))
          else let fs2 = append_file (wfile w1) buf fs1 in
            if wmode w1 = ModeSync \<and> fails flt SysSync (wfile w1)
            then ((fs2, sm1, w1), Inl (IOError SysSync (wfile w1)))
            else ((fs2, sm1, w1\<lparr>currentSize := currentSize w1 + length buf,
                     nextLSN := (nextLSN w1 + 1) mod 2 ^ 64\<rparr>), Inr rec'))"

section \<open>The reader\<close>

record Reader =
  rcurrent :: string
  rpos :: nat
  ropen :: bool

definition openSegment :: "faults \<Rightarrow> string \<Rightarrow> fs \<Rightarrow> wal_error + Reader" where
  "openSegment flt name fs =
     (case open_file flt name fs of
        Inl e \<Rightarrow> Inl e
      | Inr _ \<Rightarrow> Inr \<lparr>rcurrent = name, rpos = 0, ropen = True\<rparr>)"

definition OpenReader :: "faults \<Rightarrow> fs \<Rightarrow> SegmentManager \<Rightarrow> wal_error + Reader" where
  "OpenReader flt fs sm =
     (case segments sm of
        [] \<Rightarrow> Inr \<lparr>rcurrent = '''', rpos = 0, ropen = False\<rparr>
      | s # _ \<Rightarrow> openSegment flt s fs)"

definition isLastSegment :: "SegmentManager \<Rightarrow> Reader \<Rightarrow> bool" where
  "isLastSegment sm r = (case SegmentAfter sm (rcurrent r) of None \<Rightarrow> True | Some _ \<Rightarrow> False)"

text \<open>What is left of the file a reader has open.\<close>

definition unread :: "fs \<Rightarrow> Reader \<Rightarrow> bytes" where
  "unread fs r = drop (rpos r) (case fmlookup fs (rcurrent r) of None \<Rightarrow> [] | Some b \<Rightarrow> b)"

definition torn_read :: "SegmentManager \<Rightarrow> Reader \<Rightarrow> (Record option \<times> Reader) outcome" where
  "torn_read sm r = (if isLastSegment sm r then Done (None, r) else Failed (PartialRecord (rcurrent r)))"

text \<open>One pass of the loop of \<open>readNext\<close> when the current segment has bytes left.\<close>

definition read_record :: "faults \<Rightarrow> SegmentManager \<Rightarrow> Reader \<Rightarrow> bytes \<Rightarrow> (Record option \<times> Reader) outcome" where
  "read_record flt sm r b =
     (if fails flt SysRead (rcurrent r) then Failed (IOError SysRead (rcurrent r))
      else if length b < 12 then torn_read sm r
      else let remainingLength = unle (take 4 (drop 8 b)) in
        if remainingLength > maxLogLength then Failed (OverMaxHeader remainingLength)
        else if length b < 12 + remainingLength then torn_read sm r
        else case Decode (take (12 + remainingLength) b) of
          None \<Rightarrow> Panicked
        | Some (Inl _) \<Rightarrow> Done (None, r)
        | Some (Inr rec) \<Rightarrow> Done (Some rec, r\<lparr>rpos := rpos r + 12 + remainingLength\<rparr>))"

text \<open>\<open>None\<close> is a loop that never ends.\<close>

partial_function (option) readNext ::
    "faults \<Rightarrow> SegmentManager \<Rightarrow> fs \<Rightarrow> Reader \<Rightarrow> (Record option \<times> Reader) outcome option" where
  "readNext flt sm fs r =
     (if \<not> ropen r then Some (Done (None, r))
      else let b = unread fs r in
        if b = [] \<and> \<not> fails flt SysRead (rcurrent r) then
          (case SegmentAfter sm (rcurrent r) of
             None \<Rightarrow> Some (Done (None, r))
           | Some next \<Rightarrow>
               (case openSegment flt next fs of
                  Inl e \<Rightarrow> Some (Failed e)
                | Inr r' \<Rightarrow> readNext flt sm fs r'))
        else Some (read_record flt sm r b))"

definition ReadAllCkpt :: "faults \<Rightarrow> string \<Rightarrow> fs \<Rightarrow> (Record list) outcome" where
  "ReadAllCkpt flt name fs =
     (case open_file flt name fs of
        Inl e \<Rightarrow> Failed e
      | Inr b \<Rightarrow>
          (case scanSegment flt name b of
             Failed e \<Rightarrow> Failed e
           | Panicked \<Rightarrow> Panicked
           | Done (records, validEnd) \<Rightarrow>
               if fails flt SysStat name then Failed (IOError SysStat name)
               else if validEnd \<noteq> length b then Failed (ShortCheckpoint name)
               else Done records))"

text \<open>A checkpoint file whose checksum does not match is removed.\<close>

definition resolveCheckpoint :: "faults \<Rightarrow> EndCheckpoint \<Rightarrow> fs \<Rightarrow> fs \<times> (Record list option) outcome" where
  "resolveCheckpoint flt e fs =
     (case checksumFile flt (FileName e) fs of
        Inl _ \<Rightarrow> (fs, Done None)
      | Inr checksum \<Rightarrow>
          if checksum \<noteq> FileChecksum e then (fst (remove_file flt (FileName e) fs), Done None)
          else (fs, (case ReadAllCkpt flt (FileName e) fs of
              Failed _ \<Rightarrow> Done None
            | Panicked \<Rightarrow> Panicked
            | Done recs \<Rightarrow> Done (Some recs))))"

fun splitAt :: "Record list \<Rightarrow> nat \<Rightarrow> nat" where
  "splitAt [] lsn = 0"
| "splitAt (rec # records) lsn = (if LSN rec > lsn then 0 else Suc (splitAt records lsn))"

text \<open>What \<open>readLoop\<close> has gathered: the records, the last BEGIN, and the checkpoint in force.\<close>

record gathered =
  records :: "Record list"
  lastBeginCkptLSN :: nat
  validCkptName :: string
  validCkptLSN :: nat

definition read_switch :: "faults \<Rightarrow> Record \<Rightarrow> fs \<Rightarrow> gathered \<Rightarrow> fs \<times> gathered outcome" where
  "read_switch flt rec fs g =
     (let add = (\<lambda>g. g\<lparr>records := records g @ [rec]\<rparr>) in
      if Op rec = OpBeginCheckpoint then (fs, Done (add (g\<lparr>lastBeginCkptLSN := LSN rec\<rparr>)))
      else if Op rec = OpEndCheckpoint then
        (case DecodeEndCheckpoint (RPayload rec) of
           None \<Rightarrow> (fs, Done (add g))
         | Some e \<Rightarrow>
             (case resolveCheckpoint flt e fs of
                (fs', Panicked) \<Rightarrow> (fs', Panicked)
              | (fs', Failed x) \<Rightarrow> (fs', Failed x)
              | (fs', Done None) \<Rightarrow> (fs', Done (add g))
              | (fs', Done (Some ckptRecs)) \<Rightarrow>
                  (fs', Done (add (g\<lparr>records := ckptRecs @ drop (splitAt (records g) (lastBeginCkptLSN g)) (records g),
                     validCkptName := FileName e, validCkptLSN := lastBeginCkptLSN g\<rparr>)))))
      else (fs, Done (add g)))"

partial_function (option) readLoop ::
    "faults \<Rightarrow> SegmentManager \<Rightarrow> (Record \<Rightarrow> bool) \<Rightarrow> fs \<Rightarrow> Reader \<Rightarrow> gathered \<Rightarrow>
     (fs \<times> (gathered \<times> Reader) outcome) option" where
  "readLoop flt sm stop fs r g = do {
     x \<leftarrow> readNext flt sm fs r;
     (case x of
        Failed e \<Rightarrow> Some (fs, Failed e)
      | Panicked \<Rightarrow> Some (fs, Panicked)
      | Done (rec, r') \<Rightarrow>
          (case rec of
             None \<Rightarrow> Some (fs, Done (g, r'))
           | Some rec \<Rightarrow>
               (case read_switch flt rec fs g of
                  (fs', out) \<Rightarrow>
                    (case out of
                       Failed e \<Rightarrow> Some (fs', Failed e)
                     | Panicked \<Rightarrow> Some (fs', Panicked)
                     | Done g' \<Rightarrow>
                         if stop rec then Some (fs', Done (g', r'))
                         else readLoop flt sm stop fs' r' g'))))
   }"

definition nothing :: gathered where
  "nothing = \<lparr>records = [], lastBeginCkptLSN = 0, validCkptName = '''', validCkptLSN = 0\<rparr>"

definition reader_ReadAll ::
    "faults \<Rightarrow> SegmentManager \<Rightarrow> fs \<Rightarrow> Reader \<Rightarrow> (fs \<times> (gathered \<times> Reader) outcome) option" where
  "reader_ReadAll flt sm fs r = readLoop flt sm (\<lambda>_. False) fs r nothing"

definition reader_ReadUpTo ::
    "faults \<Rightarrow> SegmentManager \<Rightarrow> nat \<Rightarrow> fs \<Rightarrow> Reader \<Rightarrow> (fs \<times> (gathered \<times> Reader) outcome) option" where
  "reader_ReadUpTo flt sm uptoLSN fs r = readLoop flt sm (\<lambda>rec. LSN rec \<ge> uptoLSN) fs r nothing"

section \<open>The log\<close>

text \<open>In \<open>ModeOff\<close> the segment manager, the writer and the reader are nil.\<close>

record WAL =
  wal_files :: "(SegmentManager \<times> Writer \<times> Reader) option"
  wal_mode :: Mode
  offLSN :: nat

record Options =
  optMaxSegSize :: int
  optMode :: Mode
  optCheckpointThreshold :: int

definition OpenWithOptions :: "faults \<Rightarrow> Options \<Rightarrow> fs \<Rightarrow> (fs \<times> WAL) outcome" where
  "OpenWithOptions flt opts fs =
     (if optMode opts = ModeOff then Done (fs, \<lparr>wal_files = None, wal_mode = ModeOff, offLSN = 0\<rparr>)
      else case NewSegmentManagerWithThreshold flt (optCheckpointThreshold opts) fs of
        Inl e \<Rightarrow> Failed e
      | Inr sm \<Rightarrow>
          (case OpenWriter flt (optMaxSegSize opts) (optMode opts) fs sm of
             Failed e \<Rightarrow> Failed e
           | Panicked \<Rightarrow> Panicked
           | Done (fs', sm', w) \<Rightarrow>
               (case OpenReader flt fs' sm' of
                  Inl e \<Rightarrow> Failed e
                | Inr r \<Rightarrow> Done (fs', \<lparr>wal_files = Some (sm', w, r), wal_mode = optMode opts, offLSN = 0\<rparr>))))"

definition Open :: "faults \<Rightarrow> int \<Rightarrow> fs \<Rightarrow> (fs \<times> WAL) outcome" where
  "Open flt maxSeg fs =
     OpenWithOptions flt \<lparr>optMaxSegSize = maxSeg, optMode = ModeSync, optCheckpointThreshold = 0\<rparr> fs"

text \<open>\<open>None\<close> is a nil dereference.\<close>

definition wal_Append :: "faults \<Rightarrow> Record \<Rightarrow> fs \<Rightarrow> WAL \<Rightarrow> ((fs \<times> WAL) \<times> (wal_error + Record)) option" where
  "wal_Append flt rec fs l =
     (if wal_mode l = ModeOff then
        let n = (offLSN l + 1) mod 2 ^ 64 in Some ((fs, l\<lparr>offLSN := n\<rparr>), Inr (rec\<lparr>LSN := n\<rparr>))
      else case wal_files l of
        None \<Rightarrow> None
      | Some (sm, w, r) \<Rightarrow>
          (case writer_Append flt rec fs sm w of
             ((fs', sm', w'), out) \<Rightarrow> Some ((fs', l\<lparr>wal_files := Some (sm', w', r)\<rparr>), out)))"

definition wal_ShouldCheckpoint :: "WAL \<Rightarrow> bool option" where
  "wal_ShouldCheckpoint l =
     (if wal_mode l = ModeOff then Some False
      else map_option (\<lambda>(sm, _, _). sm_ShouldCheckpoint sm) (wal_files l))"

text \<open>The remaining operations: the outer \<open>None\<close> is a loop that never ends.\<close>

definition wal_ReadUpTo :: "faults \<Rightarrow> nat \<Rightarrow> fs \<Rightarrow> WAL \<Rightarrow> (fs \<times> (Record list) outcome) option" where
  "wal_ReadUpTo flt uptoLSN fs l =
     (case wal_files l of
        None \<Rightarrow> Some (fs, Panicked)
      | Some (sm, _, _) \<Rightarrow>
          (case OpenReader flt fs sm of
             Inl e \<Rightarrow> Some (fs, Failed e)
           | Inr r \<Rightarrow> do {
               (fs', out) \<leftarrow> reader_ReadUpTo flt sm uptoLSN fs r;
               Some (fs', (case out of Failed e \<Rightarrow> Failed e | Panicked \<Rightarrow> Panicked | Done (g, _) \<Rightarrow> Done (records g)))
             }))"

definition wal_DeleteSegmentsBefore :: "faults \<Rightarrow> nat \<Rightarrow> fs \<Rightarrow> WAL \<Rightarrow> (fs \<times> WAL) outcome" where
  "wal_DeleteSegmentsBefore flt lsn fs l =
     (case wal_files l of
        None \<Rightarrow> Panicked
      | Some (sm, w, r) \<Rightarrow>
          (case DeleteSegmentsBefore flt lsn fs sm of
             Failed e \<Rightarrow> Failed e
           | Panicked \<Rightarrow> Panicked
           | Done (fs', sm', _) \<Rightarrow> Done (fs', l\<lparr>wal_files := Some (sm', w, r)\<rparr>)))"

text \<open>\<open>WAL.ReadAll\<close>: read, then clean up; the errors of the cleaning are ignored.\<close>

definition wal_ReadAll :: "faults \<Rightarrow> fs \<Rightarrow> WAL \<Rightarrow> ((fs \<times> WAL) \<times> (Record list) outcome) option" where
  "wal_ReadAll flt fs l =
     (if wal_mode l = ModeOff then Some ((fs, l), Done [])
      else case wal_files l of
        None \<Rightarrow> Some ((fs, l), Panicked)
      | Some (sm, w, r) \<Rightarrow> do {
          (fs1, out) \<leftarrow> reader_ReadAll flt sm fs r;
          (case out of
             Failed e \<Rightarrow> Some ((fs1, l), Failed e)
           | Panicked \<Rightarrow> Some ((fs1, l), Panicked)
           | Done (g, r') \<Rightarrow>
               let (fs2, _) = DeleteCheckpointFilesExcept flt (validCkptName g) fs1;
                   l' = l\<lparr>wal_files := Some (sm, w, r')\<rparr> in
               (case wal_DeleteSegmentsBefore flt (validCkptLSN g) fs2 l' of
                  Done (fs3, l3) \<Rightarrow> Some ((fst (DeleteTmpFiles flt fs3), l3), Done (records g))
                | Failed e \<Rightarrow> Some ((fs2, l'), Failed e)
                | Panicked \<Rightarrow> Some ((fs2, l'), Panicked)))
        })"

definition wal_Close :: "faults \<Rightarrow> WAL \<Rightarrow> wal_error option option" where
  "wal_Close flt l =
     (if wal_mode l = ModeOff then Some None
      else case wal_files l of
        None \<Rightarrow> None
      | Some (_, w, r) \<Rightarrow>
          Some (if \<not> wopen w \<or> fails flt SysClose (wfile w) then Some (IOError SysClose (wfile w))
            else if ropen r \<and> fails flt SysClose (rcurrent r) then Some (IOError SysClose (rcurrent r))
            else None))"

end
