(* ===== verification/Coordinator.thy ===== *)
theory Coordinator
  imports Compaction Wal
begin

text \<open>
  \<open>durable-mq/coordinator\<close>: the log and the catalog behind one lock, and the background
  checkpoint. Every operation is one critical section; a checkpoint is a goroutine of its
  own whose steps interleave with them. \<open>None\<close> is a panic or a loop that never ends.
\<close>

section \<open>Configuration and state\<close>

text \<open>The directory is named by \<open>cfgDir\<close>; its contents are the file system the operations take.\<close>

record Config =
  cfgDir :: string
  cfgMaxSegSize :: int
  cfgMode :: Mode
  cfgCheckpointThreshold :: int

definition walDirectory :: string where
  "walDirectory = ''durable-wal''"

definition maxLogSize :: int where
  "maxLogSize = 16 * 8 * 1024 * 1024"

definition withDefaults :: "Config \<Rightarrow> Config" where
  "withDefaults c =
     (let c1 = (if cfgDir c = '''' then c\<lparr>cfgDir := walDirectory\<rparr> else c);
          c2 = (if cfgMaxSegSize c1 = 0 then c1\<lparr>cfgMaxSegSize := maxLogSize\<rparr> else c1)
      in if cfgCheckpointThreshold c2 = 0 then c2\<lparr>cfgCheckpointThreshold := DefaultCheckpointThreshold\<rparr> else c2)"

datatype coord_error = LogError wal_error | ReplayError replay_error | QueueNotFound string | QueueDisappeared string

text \<open>Where the goroutine of \<open>runCheckpoint\<close> is: before each of its calls on the log.\<close>

datatype ckpt_pc =
    CkptBegin
  | CkptRead nat
  | CkptWrite nat "Record list"
  | CkptEnd nat string string
  | CkptDeleteSegments nat string
  | CkptDeleteFiles string

record Coordinator =
  clog :: WAL
  cat :: catalog
  deli :: "delivery option"
  checkpointing :: bool
  ckpt :: "ckpt_pc option"

definition NewCoordinatorWithConfig :: "faults \<Rightarrow> Config \<Rightarrow> fs \<Rightarrow> (fs \<times> Coordinator) outcome" where
  "NewCoordinatorWithConfig flt cfg fs =
     (let c = withDefaults cfg in
      case OpenWithOptions flt \<lparr>optMaxSegSize = cfgMaxSegSize c, optMode = cfgMode c,
             optCheckpointThreshold = cfgCheckpointThreshold c\<rparr> fs of
        Failed e \<Rightarrow> Failed e
      | Panicked \<Rightarrow> Panicked
      | Done (fs', l) \<Rightarrow>
          Done (fs', \<lparr>clog = l, cat = NewCatalog, deli = Some NewDelivery, checkpointing = False, ckpt = None\<rparr>))"

definition NewCoordinator :: "faults \<Rightarrow> fs \<Rightarrow> (fs \<times> Coordinator) outcome" where
  "NewCoordinator flt fs =
     NewCoordinatorWithConfig flt
       \<lparr>cfgDir = '''', cfgMaxSegSize = 0, cfgMode = ModeSync, cfgCheckpointThreshold = 0\<rparr> fs"

type_synonym 'a coord_result = "((fs \<times> Coordinator) \<times> (coord_error + 'a)) option"

section \<open>Replay\<close>

text \<open>
  \<open>ReplayLog\<close> runs once, at start-up: it hands over the delivery table. The catalog and the
  delivery table of a replay that fails half-way are not represented, since the program
  ends there.
\<close>

definition ReplayLog :: "faults \<Rightarrow> order \<Rightarrow> fs \<Rightarrow> Coordinator \<Rightarrow> (string list \<times> delivery) coord_result" where
  "ReplayLog flt ord fs c = do {
     ((fs', l), out) \<leftarrow> wal_ReadAll flt fs (clog c);
     let c' = c\<lparr>clog := l\<rparr>;
     (case (out, deli c) of
        (Failed e, _) \<Rightarrow> Some ((fs', c'), Inl (LogError e))
      | (Done recs, Some d) \<Rightarrow>
          (case replay recs (cat c, d) of
             Inl e \<Rightarrow> Some ((fs', c'), Inl (ReplayError e))
           | Inr (ct, d') \<Rightarrow>
               Some ((fs', c'\<lparr>cat := ct, deli := None\<rparr>), Inr (ReturnQueueNames ord ct, YieldDeliveryData d')))
      | _ \<Rightarrow> None)
   }"

definition coord_AllQueueInfo :: "order \<Rightarrow> Coordinator \<Rightarrow> QueueInfo list" where
  "coord_AllQueueInfo ord c = AllQueueInfo ord (cat c)"

definition coord_Close :: "faults \<Rightarrow> Coordinator \<Rightarrow> wal_error option option" where
  "coord_Close flt c = wal_Close flt (clog c)"

section \<open>Appending\<close>

text \<open>\<open>CompareAndSwap\<close> lets one checkpoint run at a time; the goroutine starts at its first call.\<close>

definition maybeCheckpoint :: "Coordinator \<Rightarrow> Coordinator option" where
  "maybeCheckpoint c = do {
     should \<leftarrow> wal_ShouldCheckpoint (clog c);
     Some (if \<not> should then c
       else if checkpointing c then c
       else c\<lparr>checkpointing := True, ckpt := Some CkptBegin\<rparr>)
   }"

definition appendLocked :: "faults \<Rightarrow> Record \<Rightarrow> fs \<Rightarrow> Coordinator \<Rightarrow> Record coord_result" where
  "appendLocked flt rec fs c = do {
     ((fs', l), out) \<leftarrow> wal_Append flt rec fs (clog c);
     Some ((fs', c\<lparr>clog := l\<rparr>), map_sum LogError id out)
   }"

definition coord_append :: "faults \<Rightarrow> Record \<Rightarrow> fs \<Rightarrow> Coordinator \<Rightarrow> Record coord_result" where
  "coord_append flt rec fs c = do {
     ((fs', c'), out) \<leftarrow> appendLocked flt rec fs c;
     (case out of
        Inl e \<Rightarrow> Some ((fs', c'), Inl e)
      | Inr rec' \<Rightarrow> do { c'' \<leftarrow> maybeCheckpoint c'; Some ((fs', c''), Inr rec') })
   }"

text \<open>Append a record, then apply it to the catalog.\<close>

definition log_catalog :: "faults \<Rightarrow> Record \<Rightarrow> fs \<Rightarrow> Coordinator \<Rightarrow> unit coord_result" where
  "log_catalog flt rec fs c = do {
     ((fs', c'), out) \<leftarrow> coord_append flt rec fs c;
     Some (case out of
        Inl e \<Rightarrow> ((fs', c'), Inl e)
      | Inr rec' \<Rightarrow>
          (case ProcessRecord rec' (cat c') of
             Inl e \<Rightarrow> ((fs', c'), Inl (ReplayError e))
           | Inr ct \<Rightarrow> ((fs', c'\<lparr>cat := ct\<rparr>), Inr ())))
   }"

definition mk_record :: "OpType \<Rightarrow> string \<Rightarrow> bytes \<Rightarrow> Record" where
  "mk_record op queueName payload = \<lparr>LSN = 0, Op = op, QueueName = queueName, RPayload = payload\<rparr>"

definition coord_CreateQueue :: "faults \<Rightarrow> string \<Rightarrow> fs \<Rightarrow> Coordinator \<Rightarrow> unit coord_result" where
  "coord_CreateQueue flt queueName fs c = log_catalog flt (mk_record OpCreateQueue queueName []) fs c"

definition coord_DeleteQueue :: "faults \<Rightarrow> string \<Rightarrow> fs \<Rightarrow> Coordinator \<Rightarrow> unit coord_result" where
  "coord_DeleteQueue flt queueName fs c =
     (if \<not> QueueExists queueName (cat c) then Some ((fs, c), Inl (QueueNotFound queueName))
      else log_catalog flt (mk_record OpDeleteQueue queueName []) fs c)"

definition coord_UpdateSubPolicy :: "faults \<Rightarrow> string \<Rightarrow> SubPolicy \<Rightarrow> fs \<Rightarrow> Coordinator \<Rightarrow> unit coord_result" where
  "coord_UpdateSubPolicy flt queueName policy fs c =
     (if \<not> QueueExists queueName (cat c) then Some ((fs, c), Inl (QueueNotFound queueName))
      else log_catalog flt (mk_record OpUpdateSubPolicy queueName (EncodeSubPolicy policy)) fs c)"

definition coord_DeleteSubPolicy :: "faults \<Rightarrow> string \<Rightarrow> string \<Rightarrow> fs \<Rightarrow> Coordinator \<Rightarrow> unit coord_result" where
  "coord_DeleteSubPolicy flt queueName subName fs c =
     (if \<not> QueueExists queueName (cat c) then Some ((fs, c), Inl (QueueNotFound queueName))
      else log_catalog flt
        (mk_record OpDeleteSubPolicy queueName (EncodeSubPolicy (zero_SubPolicy\<lparr>SubName := subName\<rparr>))) fs c)"

definition coord_Enqueue :: "faults \<Rightarrow> string \<Rightarrow> string \<Rightarrow> string \<Rightarrow> fs \<Rightarrow> Coordinator \<Rightarrow> policies coord_result" where
  "coord_Enqueue flt queueName msgId content fs c =
     (if \<not> QueueExists queueName (cat c) then Some ((fs, c), Inl (QueueNotFound queueName))
      else case FetchQueueSubList queueName (cat c) of
        None \<Rightarrow> Some ((fs, c), Inl (QueueDisappeared queueName))
      | Some subList \<Rightarrow> do {
          ((fs', c'), out) \<leftarrow> coord_append flt (mk_record OpEnqueue queueName
            (EncodeEnqueue \<lparr>enqMsgId = msgId, MsgContent = content, SubList = subList\<rparr>)) fs c;
          Some ((fs', c'), map_sum id (\<lambda>_. subList) out)
        })"

definition coord_Ack :: "faults \<Rightarrow> string \<Rightarrow> string \<Rightarrow> string \<Rightarrow> fs \<Rightarrow> Coordinator \<Rightarrow> unit coord_result" where
  "coord_Ack flt queueName msgId subName fs c = do {
     ((fs', c'), out) \<leftarrow> coord_append flt (mk_record OpAck queueName
       (EncodeAck \<lparr>ackMsgId = msgId, ackSubName = subName\<rparr>)) fs c;
     Some ((fs', c'), map_sum id (\<lambda>_. ()) out)
   }"

section \<open>Checkpoints\<close>

text \<open>
  One call of \<open>runCheckpoint\<close>. A call that fails, or panics, ends the goroutine: the flag is
  cleared and a later append starts afresh. The clean-up calls at the end are best effort.
  Reading up to \<open>lsn\<close> stops at the BEGIN record, which is in the file by then, so it is one
  step although appends may go on beside it. The identifier comes from \<open>google/uuid\<close>.
\<close>

definition ckpt_stop :: "Coordinator \<Rightarrow> Coordinator" where
  "ckpt_stop c = c\<lparr>checkpointing := False, ckpt := None\<rparr>"

definition ckpt_goto :: "ckpt_pc \<Rightarrow> Coordinator \<Rightarrow> Coordinator" where
  "ckpt_goto pc c = c\<lparr>ckpt := Some pc\<rparr>"

definition runCheckpoint ::
    "faults \<Rightarrow> orders \<Rightarrow> string option \<Rightarrow> fs \<Rightarrow> Coordinator \<Rightarrow> (fs \<times> Coordinator) option" where
  "runCheckpoint flt ord uid fs c =
     (case ckpt c of
        None \<Rightarrow> Some (fs, c)
      | Some CkptBegin \<Rightarrow>
          Some (case appendLocked flt (mk_record OpBeginCheckpoint [] []) fs c of
             None \<Rightarrow> (fs, ckpt_stop c)
           | Some ((fs', c'), Inl _) \<Rightarrow> (fs', ckpt_stop c')
           | Some ((fs', c'), Inr rec) \<Rightarrow> (fs', ckpt_goto (CkptRead (LSN rec)) c'))
      | Some (CkptRead lsn) \<Rightarrow> do {
          (fs', out) \<leftarrow> wal_ReadUpTo flt lsn fs (clog c);
          Some (fs', (case out of
             Done recs \<Rightarrow> ckpt_goto (CkptWrite lsn (CompactRecords ord recs)) c
           | _ \<Rightarrow> ckpt_stop c))
        }
      | Some (CkptWrite lsn recs) \<Rightarrow>
          Some (case uid of
             None \<Rightarrow> (fs, ckpt_stop c)
           | Some u \<Rightarrow>
               (case WriteCheckpointFile flt u recs fs of
                  (fs', Inl _) \<Rightarrow> (fs', ckpt_stop c)
                | (fs', Inr (name, checksum)) \<Rightarrow> (fs', ckpt_goto (CkptEnd lsn name checksum) c)))
      | Some (CkptEnd lsn name checksum) \<Rightarrow>
          Some (case appendLocked flt (mk_record OpEndCheckpoint []
                   (EncodeEndCheckpoint \<lparr>FileName = name, FileChecksum = checksum\<rparr>)) fs c of
             None \<Rightarrow> (fs, ckpt_stop c)
           | Some ((fs', c'), Inl _) \<Rightarrow> (fs', ckpt_stop c')
           | Some ((fs', c'), Inr _) \<Rightarrow> (fs', ckpt_goto (CkptDeleteSegments lsn name) c'))
      | Some (CkptDeleteSegments lsn name) \<Rightarrow>
          Some (case wal_DeleteSegmentsBefore flt lsn fs (clog c) of
             Done (fs', l) \<Rightarrow> (fs', ckpt_goto (CkptDeleteFiles name) (c\<lparr>clog := l\<rparr>))
           | _ \<Rightarrow> (fs, ckpt_stop c))
      | Some (CkptDeleteFiles name) \<Rightarrow>
          Some (fst (DeleteCheckpointFilesExcept flt name fs), ckpt_stop c))"

end
