(* ===== verification/Durable_MQ.thy ===== *)
theory Durable_MQ
  imports Coordinator Worker
begin

text \<open>
  \<open>durable-mq/queue\<close> and \<open>durable-mq/server\<close>: the durable publish/subscribe broker over the
  coordinator, its queue workers and its HTTP handlers. As in \<open>push-mq\<close>, every critical
  section is one operation on the state; the broker gives up its lock in the middle of
  \<open>Enqueue\<close>, and a worker logs every acknowledgement on its own, so both are several steps.
\<close>

section \<open>Messages and queues\<close>

record DurMsg =
  dmsgId :: string
  dpayload :: string
  dAcked :: "string fset"
  dRetryMap :: "(string, nat) fmap"
  SubPolicySnapshot :: policies

text \<open>\<open>onAck\<close> is the closure of \<open>CreateQueue\<close>: it acknowledges in the queue of this name.\<close>

record DurQueue = "DurMsg wqueue" +
  dname :: string

definition dur_NewQueue :: "string \<Rightarrow> DurQueue" where
  "dur_NewQueue name =
     \<lparr>qcount = 0, qhead = 0, qbuf = replicate initialCapacity None,
      hasWork = False, isClosed = False, dname = name\<rparr>"

text \<open>A nil set of acknowledgements is replaced by an empty one.\<close>

definition dur_NewQueueMsg :: "string \<Rightarrow> string \<Rightarrow> policies \<Rightarrow> string fset option \<Rightarrow> DurMsg" where
  "dur_NewQueueMsg msgId payload snapshot ackedSubs =
     \<lparr>dmsgId = msgId, dpayload = payload,
      dAcked = (case ackedSubs of None \<Rightarrow> {||} | Some a \<Rightarrow> a),
      dRetryMap = fmempty, SubPolicySnapshot = snapshot\<rparr>"

section \<open>Processing one message\<close>

definition dur_pending :: "DurMsg \<Rightarrow> policies" where
  "dur_pending msg = fmfilter (\<lambda>name. name |\<notin>| dAcked msg) (SubPolicySnapshot msg)"

definition dur_results :: "http \<Rightarrow> order \<Rightarrow> policies \<Rightarrow> DurMsg \<Rightarrow> (string \<times> bool) list" where
  "dur_results http ord policyByName msg =
     map (\<lambda>n. let sub = the (fmlookup policyByName n) in (SubName sub, sendMsg http sub (dpayload msg)))
       (ord (fmdom policyByName))"

definition dur_retries :: "DurMsg \<Rightarrow> string \<Rightarrow> nat" where
  "dur_retries msg name = (case fmlookup (dRetryMap msg) name of None \<Rightarrow> 0 | Some n \<Rightarrow> n)"

text \<open>
  One result: count a failure, and decide whether the subscriber is done. A name missing
  from \<open>policyByName\<close> reads as the zero policy.
\<close>

definition dur_judge :: "policies \<Rightarrow> string \<times> bool \<Rightarrow> DurMsg \<Rightarrow> DurMsg \<times> bool" where
  "dur_judge policyByName result msg =
     (if snd result then (msg, True)
      else let msg' = msg\<lparr>dRetryMap := fmupd (fst result) (dur_retries msg (fst result) + 1) (dRetryMap msg)\<rparr>;
               policy = (case fmlookup policyByName (fst result) of None \<Rightarrow> zero_SubPolicy | Some p \<Rightarrow> p)
           in (msg', int (dur_retries msg' (fst result)) \<ge> NumberOfRetries policy))"

section \<open>The broker\<close>

text \<open>
  The control states of a worker: as in \<open>push-mq\<close>, and \<open>DSettling\<close> holds the results that
  are still to be handled. An HTTP enqueue in progress has looked its queue up
  (\<open>EnqLog\<close>) or has logged its message (\<open>EnqAdd\<close>).
\<close>

datatype dur_pc =
    DPopping | DSending DurMsg policies | DSettling DurMsg policies "(string \<times> bool) list" bool
  | DSelecting | DExited

datatype enq_pc = EnqLookup string string | EnqLog nat string string | EnqAdd nat DurMsg

datatype dur_error = DQueueExists string | DTooManyQueues nat | DQueueNotFound string | DCoord coord_error

record dur_state =
  dfs :: fs
  dcord :: Coordinator
  dqueues :: "(string, nat) fmap"
  dnumQueues :: nat
  dheap :: "(nat, DurQueue) fmap"
  dworkers :: "(nat, dur_pc) fmap"
  dnextAddr :: nat
  denqs :: "(nat, enq_pc) fmap"

type_synonym dur_result = "(dur_state \<times> dur_error option) option"

definition NewBrokerWithConfig :: "faults \<Rightarrow> Config \<Rightarrow> fs \<Rightarrow> dur_state option" where
  "NewBrokerWithConfig flt cfg fs =
     (case NewCoordinatorWithConfig flt cfg fs of
        Done (fs', c) \<Rightarrow>
          Some \<lparr>dfs = fs', dcord = c, dqueues = fmempty, dnumQueues = 0, dheap = fmempty,
            dworkers = fmempty, dnextAddr = 0, denqs = fmempty\<rparr>
      | _ \<Rightarrow> None)"

text \<open>Running an operation of the coordinator.\<close>

definition with_cord :: "(fs \<Rightarrow> Coordinator \<Rightarrow> 'a coord_result) \<Rightarrow> dur_state \<Rightarrow> (dur_state \<times> (coord_error + 'a)) option" where
  "with_cord f s = do {
     ((fs', c'), out) \<leftarrow> f (dfs s) (dcord s);
     Some (s\<lparr>dfs := fs', dcord := c'\<rparr>, out)
   }"

definition install_queue :: "string \<Rightarrow> dur_state \<Rightarrow> dur_state" where
  "install_queue name s =
     (let a = dnextAddr s in
      s\<lparr>dqueues := fmupd name a (dqueues s), dnumQueues := dnumQueues s + 1,
        dheap := fmupd a (dur_NewQueue name) (dheap s),
        dworkers := fmupd a DPopping (dworkers s), dnextAddr := a + 1\<rparr>)"

definition dur_CreateQueue :: "faults \<Rightarrow> string \<Rightarrow> bool \<Rightarrow> dur_state \<Rightarrow> dur_result" where
  "dur_CreateQueue flt name fromWAL s =
     (if name |\<in>| fmdom (dqueues s) then Some (s, Some (DQueueExists name))
      else if dnumQueues s \<ge> 128 then Some (s, Some (DTooManyQueues (dnumQueues s)))
      else if fromWAL then Some (install_queue name s, None)
      else do {
        (s', out) \<leftarrow> with_cord (coord_CreateQueue flt name) s;
        Some (case out of
           Inl e \<Rightarrow> (s', Some (DCoord e))
         | Inr _ \<Rightarrow> (install_queue name s', None))
      })"

definition dur_DeleteQueue :: "faults \<Rightarrow> string \<Rightarrow> dur_state \<Rightarrow> dur_result" where
  "dur_DeleteQueue flt name s =
     (case fmlookup (dqueues s) name of
        None \<Rightarrow> Some (s, Some (DQueueNotFound name))
      | Some a \<Rightarrow> do {
          (s', out) \<leftarrow> with_cord (coord_DeleteQueue flt name) s;
          (case out of
             Inl e \<Rightarrow> Some (s', Some (DCoord e))
           | Inr _ \<Rightarrow> do {
               q \<leftarrow> fmlookup (dheap s') a;
               q' \<leftarrow> close_chan q;
               Some (s'\<lparr>dqueues := fmdrop name (dqueues s'), dnumQueues := dnumQueues s' - 1,
                 dheap := fmupd a q' (dheap s')\<rparr>, None)
             })
        })"

text \<open>\<open>Close\<close>: close every queue's channel, in some order, and drop the table.\<close>

fun close_all :: "nat list \<Rightarrow> (nat, DurQueue) fmap \<Rightarrow> (nat, DurQueue) fmap option" where
  "close_all [] h = Some h"
| "close_all (a # as) h = do { q \<leftarrow> fmlookup h a; q' \<leftarrow> close_chan q; close_all as (fmupd a q' h) }"

definition dur_Close :: "faults \<Rightarrow> order \<Rightarrow> dur_state \<Rightarrow> (dur_state \<times> wal_error option) option" where
  "dur_Close flt ord s = do {
     h \<leftarrow> close_all (map (\<lambda>n. the (fmlookup (dqueues s) n)) (ord (fmdom (dqueues s)))) (dheap s);
     e \<leftarrow> coord_Close flt (dcord s);
     Some (s\<lparr>dqueues := fmempty, dnumQueues := 0, dheap := h\<rparr>, e)
   }"

definition add_to_heap :: "nat \<Rightarrow> DurMsg \<Rightarrow> dur_state \<Rightarrow> dur_state option" where
  "add_to_heap a msg s = do {
     q \<leftarrow> fmlookup (dheap s) a;
     q' \<leftarrow> AddWake msg q;
     Some (s\<lparr>dheap := fmupd a q' (dheap s)\<rparr>)
   }"

text \<open>
  \<open>Enqueue\<close> of request \<open>h\<close>, one critical section at a time: the lookup, the append, the
  queue's \<open>Add\<close>. The identifier \<open>uuid\<close> comes from \<open>google/uuid\<close>.
\<close>

definition dur_Enqueue :: "faults \<Rightarrow> string \<Rightarrow> nat \<Rightarrow> dur_state \<Rightarrow> dur_result" where
  "dur_Enqueue flt uuid h s =
     (case fmlookup (denqs s) h of
        None \<Rightarrow> Some (s, None)
      | Some (EnqLookup queueName payload) \<Rightarrow>
          (case fmlookup (dqueues s) queueName of
             None \<Rightarrow> Some (s\<lparr>denqs := fmdrop h (denqs s)\<rparr>, Some (DQueueNotFound queueName))
           | Some a \<Rightarrow> Some (s\<lparr>denqs := fmupd h (EnqLog a queueName payload) (denqs s)\<rparr>, None))
      | Some (EnqLog a queueName payload) \<Rightarrow>
          let msgId = queueName @ ''-'' @ uuid in do {
          (s', out) \<leftarrow> with_cord (coord_Enqueue flt queueName msgId payload) s;
          Some (case out of
             Inl e \<Rightarrow> (s'\<lparr>denqs := fmdrop h (denqs s')\<rparr>, Some (DCoord e))
           | Inr subPolicies \<Rightarrow>
               (s'\<lparr>denqs := fmupd h (EnqAdd a (dur_NewQueueMsg msgId payload subPolicies None)) (denqs s')\<rparr>, None))
        }
      | Some (EnqAdd a msg) \<Rightarrow> do {
          s' \<leftarrow> add_to_heap a msg s;
          Some (s'\<lparr>denqs := fmdrop h (denqs s')\<rparr>, None)
        })"

definition EnqueueFromWAL :: "string \<Rightarrow> string \<Rightarrow> string \<Rightarrow> policies \<Rightarrow> string fset \<Rightarrow> dur_state \<Rightarrow> dur_state option" where
  "EnqueueFromWAL queueName msgId payload subPolicies ackedSubs s =
     (case fmlookup (dqueues s) queueName of
        None \<Rightarrow> Some s
      | Some a \<Rightarrow> add_to_heap a (dur_NewQueueMsg msgId payload subPolicies (Some ackedSubs)) s)"

definition dur_AllQueueInfo :: "order \<Rightarrow> dur_state \<Rightarrow> QueueInfo list" where
  "dur_AllQueueInfo ord s = coord_AllQueueInfo ord (dcord s)"

definition lift_cord :: "(dur_state \<times> (coord_error + 'a)) option \<Rightarrow> dur_result" where
  "lift_cord r = map_option (\<lambda>(s, out). (s, case out of Inl e \<Rightarrow> Some (DCoord e) | Inr _ \<Rightarrow> None)) r"

definition dur_AddSubscriber :: "faults \<Rightarrow> SubPolicy \<Rightarrow> string \<Rightarrow> dur_state \<Rightarrow> dur_result" where
  "dur_AddSubscriber flt metadata queueName s =
     lift_cord (with_cord (coord_UpdateSubPolicy flt queueName metadata) s)"

definition dur_UpdateSubscriber :: "faults \<Rightarrow> SubPolicy \<Rightarrow> string \<Rightarrow> dur_state \<Rightarrow> dur_result" where
  "dur_UpdateSubscriber flt metadata queueName s =
     lift_cord (with_cord (coord_UpdateSubPolicy flt queueName metadata) s)"

definition dur_RemoveSubscriber :: "faults \<Rightarrow> string \<Rightarrow> string \<Rightarrow> dur_state \<Rightarrow> dur_result" where
  "dur_RemoveSubscriber flt subName queueName s =
     lift_cord (with_cord (coord_DeleteSubPolicy flt queueName subName) s)"

section \<open>Restoring from the log\<close>

text \<open>
  \<open>RestoreWAL\<close> runs before the server listens. The workers it starts take their first steps
  after it. A queue that cannot be created is skipped, and so are its messages.
\<close>

fun restore_queues :: "faults \<Rightarrow> string list \<Rightarrow> dur_state \<Rightarrow> dur_state option" where
  "restore_queues flt [] s = Some s"
| "restore_queues flt (qName # qs) s = do {
     (s', _) \<leftarrow> dur_CreateQueue flt qName True s;
     restore_queues flt qs s'
   }"

definition hasUnackedSubs :: "DeliveryMessageInfo \<Rightarrow> bool" where
  "hasUnackedSubs mi \<longleftrightarrow> (\<exists>subName \<in> fset (fmdom (dSubList mi)). subName |\<notin>| dAckedSubs mi)"

fun restore_messages :: "string \<Rightarrow> (string \<times> DeliveryMessageInfo) list \<Rightarrow> dur_state \<Rightarrow> dur_state option" where
  "restore_messages qName [] s = Some s"
| "restore_messages qName ((msgId, mi) # ms) s =
     (if \<not> hasUnackedSubs mi then restore_messages qName ms s
      else do {
        s' \<leftarrow> EnqueueFromWAL qName msgId (Content mi) (dSubList mi) (dAckedSubs mi) s;
        restore_messages qName ms s'
      })"

definition ranged :: "order \<Rightarrow> (string, 'v) fmap \<Rightarrow> (string \<times> 'v) list" where
  "ranged ord m = map (\<lambda>k. (k, the (fmlookup m k))) (ord (fmdom m))"

fun restore_delivery :: "orders \<Rightarrow> (string \<times> DeliveryQueueInfo) list \<Rightarrow> dur_state \<Rightarrow> dur_state option" where
  "restore_delivery ord [] s = Some s"
| "restore_delivery ord ((qName, di) # ds) s =
     (if qName |\<notin>| fmdom (dqueues s) then restore_delivery ord ds s
      else do {
        s' \<leftarrow> restore_messages qName (ranged (ord (''messages/'' @ qName)) di) s;
        restore_delivery ord ds s'
      })"

definition RestoreWAL :: "faults \<Rightarrow> orders \<Rightarrow> dur_state \<Rightarrow> (dur_state \<times> (coord_error + unit)) option" where
  "RestoreWAL flt ord s = do {
     (s1, out) \<leftarrow> with_cord (ReplayLog flt (ord ''catalog'')) s;
     (case out of
        Inl e \<Rightarrow> Some (s1, Inl e)
      | Inr (qs, dInfo) \<Rightarrow> do {
          s2 \<leftarrow> restore_queues flt qs s1;
          s3 \<leftarrow> restore_delivery ord (ranged (ord ''delivery'') dInfo) s2;
          Some (s3, Inr ())
        })
   }"

section \<open>Workers\<close>

text \<open>
  One step of the worker at address \<open>a\<close>: a pop, the fan-out, the handling of one result
  (which logs an acknowledgement), the requeue, or the \<open>select\<close>, whose choice between two
  ready channels is \<open>pick\<close>. An acknowledgement that cannot be logged is not recorded.
\<close>

definition set_pc :: "nat \<Rightarrow> dur_pc \<Rightarrow> dur_state \<Rightarrow> dur_state" where
  "set_pc a pc s = s\<lparr>dworkers := fmupd a pc (dworkers s)\<rparr>"

definition dur_settle_one ::
    "faults \<Rightarrow> string \<Rightarrow> policies \<Rightarrow> string \<times> bool \<Rightarrow> DurMsg \<Rightarrow> bool \<Rightarrow> dur_state \<Rightarrow> (dur_state \<times> DurMsg \<times> bool) option" where
  "dur_settle_one flt name policyByName result msg anySubsRemaining s =
     (let (msg', acked) = dur_judge policyByName result msg in
      if \<not> acked then Some (s, msg', True)
      else do {
        (s', out) \<leftarrow> with_cord (coord_Ack flt name (dmsgId msg') (fst result)) s;
        Some (case out of
           Inl _ \<Rightarrow> (s', msg', True)
         | Inr _ \<Rightarrow> (s', msg'\<lparr>dAcked := finsert (fst result) (dAcked msg')\<rparr>, anySubsRemaining))
      })"

definition dur_worker :: "faults \<Rightarrow> http \<Rightarrow> order \<Rightarrow> bool \<Rightarrow> nat \<Rightarrow> dur_state \<Rightarrow> dur_state option" where
  "dur_worker flt http ord pick a s =
     (case (fmlookup (dheap s) a, fmlookup (dworkers s) a) of
        (Some q, Some DPopping) \<Rightarrow> do {
          (r, q') \<leftarrow> Pop q;
          Some (set_pc a (case r of
                None \<Rightarrow> DSelecting
              | Some m \<Rightarrow>
                  let policyByName = dur_pending m in
                  if maplen policyByName = 0 then DPopping else DSending m policyByName)
            (s\<lparr>dheap := fmupd a q' (dheap s)\<rparr>))
        }
      | (Some q, Some (DSending m policyByName)) \<Rightarrow>
          Some (set_pc a (DSettling m policyByName (dur_results http ord policyByName m) False) s)
      | (Some q, Some (DSettling m policyByName (r # rs) rem)) \<Rightarrow> do {
          (s', m', rem') \<leftarrow> dur_settle_one flt (dname q) policyByName r m rem s;
          Some (set_pc a (DSettling m' policyByName rs rem') s')
        }
      | (Some q, Some (DSettling m policyByName [] rem)) \<Rightarrow> do {
          s' \<leftarrow> (if rem then add_to_heap a m s else Some s);
          Some (set_pc a DPopping s')
        }
      | (Some q, Some DSelecting) \<Rightarrow>
          if hasWork q \<and> (pick \<or> \<not> isClosed q)
          then Some (set_pc a DPopping (s\<lparr>dheap := fmupd a (q\<lparr>hasWork := False\<rparr>) (dheap s)\<rparr>))
          else if isClosed q then Some (set_pc a DExited s)
          else Some s
      | _ \<Rightarrow> Some s)"

section \<open>The HTTP layer\<close>

text \<open>
  A handler answers with a status code. A body that cannot be read is \<open>None\<close>. The broker
  is asked through the operations above; \<open>HandleEnqueue\<close> ends when its request leaves
  \<open>denqs\<close>, and answers 202 exactly if the last step had no error.
\<close>

definition status_of :: "nat \<Rightarrow> 'e option \<Rightarrow> nat" where
  "status_of ok e = (case e of None \<Rightarrow> ok | Some _ \<Rightarrow> 400)"

definition answer :: "nat \<Rightarrow> (dur_state \<times> 'e option) option \<Rightarrow> (dur_state \<times> nat) option" where
  "answer ok r = map_option (\<lambda>(s, e). (s, status_of ok e)) r"

definition json_QueueInfo :: "QueueInfo \<Rightarrow> json" where
  "json_QueueInfo q = JObj [(''Name'', JStr (qiName q)), (''SubPolicies'', json_map json_SubPolicy (qiSubs q))]"

definition HandleListQueues :: "order \<Rightarrow> dur_state \<Rightarrow> nat \<times> bytes" where
  "HandleListQueues ord s =
     (200, print_json (JArr (map json_QueueInfo (dur_AllQueueInfo ord s))) @ [CHR 0x0A])"

definition HandleQueueCreation :: "faults \<Rightarrow> string \<Rightarrow> dur_state \<Rightarrow> (dur_state \<times> nat) option" where
  "HandleQueueCreation flt name s = answer 201 (dur_CreateQueue flt name False s)"

definition HandleQueueDeletion :: "faults \<Rightarrow> string \<Rightarrow> dur_state \<Rightarrow> (dur_state \<times> nat) option" where
  "HandleQueueDeletion flt name s = answer 204 (dur_DeleteQueue flt name s)"

text \<open>The request's goroutine \<open>h\<close> starts when the body has been read.\<close>

definition HandleEnqueue :: "nat \<Rightarrow> string \<Rightarrow> string option \<Rightarrow> dur_state \<Rightarrow> dur_state \<times> nat option" where
  "HandleEnqueue h name body s =
     (case body of
        None \<Rightarrow> (s, Some 400)
      | Some b \<Rightarrow> (s\<lparr>denqs := fmupd h (EnqLookup name b) (denqs s)\<rparr>, None))"

definition HandleEnqueue_step :: "faults \<Rightarrow> string \<Rightarrow> nat \<Rightarrow> dur_state \<Rightarrow> (dur_state \<times> nat option) option" where
  "HandleEnqueue_step flt uuid h s = do {
     (s', e) \<leftarrow> dur_Enqueue flt uuid h s;
     Some (s', if h |\<in>| fmdom (denqs s') then None else Some (status_of 202 e))
   }"

definition HandleSubPolicyCreation :: "faults \<Rightarrow> string \<Rightarrow> string option \<Rightarrow> dur_state \<Rightarrow> (dur_state \<times> nat) option" where
  "HandleSubPolicyCreation flt queueName body s =
     (case body of
        None \<Rightarrow> Some (s, 400)
      | Some b \<Rightarrow>
          (case DecodeSubPolicy b of
             None \<Rightarrow> Some (s, 400)
           | Some policy \<Rightarrow> answer 201 (dur_AddSubscriber flt policy queueName s)))"

definition HandleSubPolicyUpdate :: "faults \<Rightarrow> string \<Rightarrow> string \<Rightarrow> string option \<Rightarrow> dur_state \<Rightarrow> (dur_state \<times> nat) option" where
  "HandleSubPolicyUpdate flt queueName subName body s =
     (case body of
        None \<Rightarrow> Some (s, 400)
      | Some b \<Rightarrow>
          (case DecodeSubPolicy b of
             None \<Rightarrow> Some (s, 400)
           | Some policy \<Rightarrow> answer 200 (dur_UpdateSubscriber flt (policy\<lparr>SubName := subName\<rparr>) queueName s)))"

definition HandleSubPolicyDeletion :: "faults \<Rightarrow> string \<Rightarrow> string \<Rightarrow> dur_state \<Rightarrow> (dur_state \<times> nat) option" where
  "HandleSubPolicyDeletion flt queueName subName s = answer 204 (dur_RemoveSubscriber flt subName queueName s)"

end
