(* ===== verification/Dist_Command.thy ===== *)
theory Dist_Command
  imports Codec
begin

text \<open>
  \<open>dist-mq/command\<close>: the entries of the replicated log. A command is encoded to JSON by the
  node that proposes it and decoded by every node that applies it, so decoding must return
  what was proposed.
\<close>

section \<open>Commands\<close>

datatype CmdType =
    CmdCreateQueue | CmdDeleteQueue | CmdPutSubPolicy | CmdDeleteSubPolicy | CmdEnqueue | CmdAck
  | CmdOther nat

definition type_code :: "CmdType \<Rightarrow> nat" where
  "type_code t =
     (case t of CmdCreateQueue \<Rightarrow> 1 | CmdDeleteQueue \<Rightarrow> 2 | CmdPutSubPolicy \<Rightarrow> 3
      | CmdDeleteSubPolicy \<Rightarrow> 4 | CmdEnqueue \<Rightarrow> 5 | CmdAck \<Rightarrow> 6 | CmdOther n \<Rightarrow> n)"

definition code_type :: "nat \<Rightarrow> CmdType" where
  "code_type n =
     (if n = 1 then CmdCreateQueue else if n = 2 then CmdDeleteQueue else if n = 3 then CmdPutSubPolicy
      else if n = 4 then CmdDeleteSubPolicy else if n = 5 then CmdEnqueue else if n = 6 then CmdAck
      else CmdOther n)"

definition CmdType_String :: "CmdType \<Rightarrow> string" where
  "CmdType_String t =
     (case t of CmdCreateQueue \<Rightarrow> ''CreateQueue'' | CmdDeleteQueue \<Rightarrow> ''DeleteQueue''
      | CmdPutSubPolicy \<Rightarrow> ''PutSubPolicy'' | CmdDeleteSubPolicy \<Rightarrow> ''DeleteSubPolicy''
      | CmdEnqueue \<Rightarrow> ''Enqueue'' | CmdAck \<Rightarrow> ''Ack''
      | CmdOther n \<Rightarrow> ''Type('' @ dec_nat n @ '')'')"

text \<open>\<open>SubNames\<close> may be nil (\<open>None\<close>); a nil \<open>SubList\<close> reads as an empty map.\<close>

record Command =
  cmdType :: CmdType
  cmdQueueName :: string
  cmdMsgID :: string
  cmdPayload :: string
  cmdSubName :: string
  cmdPolicy :: SubPolicy
  cmdSubNames :: "string list option"
  cmdSubList :: policies

definition zero_Command :: Command where
  "zero_Command = \<lparr>cmdType = CmdOther 0, cmdQueueName = [], cmdMsgID = [], cmdPayload = [], cmdSubName = [],
     cmdPolicy = zero_SubPolicy, cmdSubNames = None, cmdSubList = fmempty\<rparr>"

definition NewCreateQueue :: "string \<Rightarrow> Command" where
  "NewCreateQueue queueName = zero_Command\<lparr>cmdType := CmdCreateQueue, cmdQueueName := queueName\<rparr>"

definition NewDeleteQueue :: "string \<Rightarrow> Command" where
  "NewDeleteQueue queueName = zero_Command\<lparr>cmdType := CmdDeleteQueue, cmdQueueName := queueName\<rparr>"

definition NewPutSubPolicy :: "string \<Rightarrow> SubPolicy \<Rightarrow> Command" where
  "NewPutSubPolicy queueName policy =
     zero_Command\<lparr>cmdType := CmdPutSubPolicy, cmdQueueName := queueName, cmdPolicy := policy\<rparr>"

definition NewDeleteSubPolicy :: "string \<Rightarrow> string \<Rightarrow> Command" where
  "NewDeleteSubPolicy queueName subName =
     zero_Command\<lparr>cmdType := CmdDeleteSubPolicy, cmdQueueName := queueName, cmdSubName := subName\<rparr>"

definition NewEnqueue :: "string \<Rightarrow> string \<Rightarrow> string \<Rightarrow> policies \<Rightarrow> Command" where
  "NewEnqueue queueName msgID payload subList =
     zero_Command\<lparr>cmdType := CmdEnqueue, cmdQueueName := queueName, cmdMsgID := msgID,
       cmdPayload := payload, cmdSubList := subList\<rparr>"

definition NewAck :: "string \<Rightarrow> string \<Rightarrow> string list \<Rightarrow> Command" where
  "NewAck queueName msgID subNames =
     zero_Command\<lparr>cmdType := CmdAck, cmdQueueName := queueName, cmdMsgID := msgID, cmdSubNames := Some subNames\<rparr>"

datatype cmd_error =
    EmptyEntry | BadJson | EmptyQueueName | EmptySubName | EmptyMsgID | UnknownType nat

definition validate :: "Command \<Rightarrow> cmd_error option" where
  "validate c =
     (if cmdQueueName c = '''' then Some EmptyQueueName
      else case cmdType c of
        CmdCreateQueue \<Rightarrow> None
      | CmdDeleteQueue \<Rightarrow> None
      | CmdPutSubPolicy \<Rightarrow> if SubName (cmdPolicy c) = '''' then Some EmptySubName else None
      | CmdDeleteSubPolicy \<Rightarrow> if cmdSubName c = '''' then Some EmptySubName else None
      | CmdEnqueue \<Rightarrow> if cmdMsgID c = '''' then Some EmptyMsgID else None
      | CmdAck \<Rightarrow> if cmdMsgID c = '''' then Some EmptyMsgID else None
      | CmdOther n \<Rightarrow> Some (UnknownType n))"

section \<open>Encoding\<close>

text \<open>A field tagged \<open>omitempty\<close> or \<open>omitzero\<close> is left out when it is empty.\<close>

definition omit :: "bool \<Rightarrow> string \<Rightarrow> json \<Rightarrow> (string \<times> json) list" where
  "omit e k v = (if e then [] else [(k, v)])"

definition json_Command :: "Command \<Rightarrow> json" where
  "json_Command c = JObj
     ([(''Type'', JNum (dec_nat (type_code (cmdType c)))), (''QueueName'', JStr (cmdQueueName c))] @
      omit (cmdMsgID c = '''') ''MsgId'' (JStr (cmdMsgID c)) @
      omit (cmdPayload c = '''') ''Payload'' (JStr (cmdPayload c)) @
      omit (cmdSubName c = '''') ''SubName'' (JStr (cmdSubName c)) @
      omit (cmdPolicy c = zero_SubPolicy) ''Policy'' (json_SubPolicy (cmdPolicy c)) @
      omit (cmdSubNames c = None \<or> cmdSubNames c = Some []) ''SubNames''
        (JArr (map JStr (case cmdSubNames c of None \<Rightarrow> [] | Some ns \<Rightarrow> ns))) @
      omit (maplen (cmdSubList c) = 0) ''SubList'' (json_map json_SubPolicy (cmdSubList c)))"

definition cmd_Encode :: "Command \<Rightarrow> cmd_error + bytes" where
  "cmd_Encode c = (case validate c of Some e \<Rightarrow> Inl e | None \<Rightarrow> Inr (print_json (json_Command c)))"

section \<open>Decoding\<close>

definition set_uint :: "nat \<Rightarrow> (nat \<Rightarrow> 'a \<Rightarrow> 'a) \<Rightarrow> json \<Rightarrow> 'a \<Rightarrow> 'a option" where
  "set_uint bits upd v a =
     (case v of
        JNum n \<Rightarrow> (case ParseUint64 n of None \<Rightarrow> None | Some i \<Rightarrow> if i < 2 ^ bits then Some (upd i a) else None)
      | JNull \<Rightarrow> Some a
      | _ \<Rightarrow> None)"

text \<open>
  A slice is decoded from zero elements: \<open>null\<close> inside it is the zero value. (Under a key that is
  repeated, \<open>encoding/json\<close> would reuse the elements of the slice before; no encoder repeats a key.)
\<close>

fun decode_list :: "(json \<Rightarrow> 'v option) \<Rightarrow> json list \<Rightarrow> 'v list option" where
  "decode_list elem [] = Some []"
| "decode_list elem (v # vs) = do { x \<leftarrow> elem v; xs \<leftarrow> decode_list elem vs; Some (x # xs) }"

definition set_list :: "(json \<Rightarrow> 'v option) \<Rightarrow> ('v list option \<Rightarrow> 'a \<Rightarrow> 'a) \<Rightarrow> json \<Rightarrow> 'a \<Rightarrow> 'a option" where
  "set_list elem upd v a =
     (case v of
        JArr vs \<Rightarrow> map_option (\<lambda>xs. upd (Some xs) a) (decode_list elem vs)
      | JNull \<Rightarrow> Some (upd None a)
      | _ \<Rightarrow> None)"

definition decode_string :: "json \<Rightarrow> string option" where
  "decode_string v = (case v of JStr s \<Rightarrow> Some s | JNull \<Rightarrow> Some [] | _ \<Rightarrow> None)"

definition Command_fields :: "Command field list" where
  "Command_fields =
     [(''Type'', set_uint 8 (\<lambda>n c. c\<lparr>cmdType := code_type n\<rparr>)),
      (''QueueName'', set_string (\<lambda>s c. c\<lparr>cmdQueueName := s\<rparr>)),
      (''MsgId'', set_string (\<lambda>s c. c\<lparr>cmdMsgID := s\<rparr>)),
      (''Payload'', set_string (\<lambda>s c. c\<lparr>cmdPayload := s\<rparr>)),
      (''SubName'', set_string (\<lambda>s c. c\<lparr>cmdSubName := s\<rparr>)),
      (''Policy'', \<lambda>v c. map_option (\<lambda>p. c\<lparr>cmdPolicy := p\<rparr>) (set_struct SubPolicy_fields v (cmdPolicy c))),
      (''SubNames'', set_list decode_string (\<lambda>ns c. c\<lparr>cmdSubNames := ns\<rparr>)),
      (''SubList'', \<lambda>v c. map_option (\<lambda>m. c\<lparr>cmdSubList := m\<rparr>) (set_map decode_policy v (cmdSubList c)))]"

definition cmd_Decode :: "bytes \<Rightarrow> cmd_error + Command" where
  "cmd_Decode data =
     (if data = [] then Inl EmptyEntry
      else case Unmarshal Command_fields zero_Command data of
        None \<Rightarrow> Inl BadJson
      | Some c \<Rightarrow>
          (case validate c of
             Some e \<Rightarrow> Inl e
           | None \<Rightarrow>
               Inr (if cmdType c = CmdAck \<and> cmdSubNames c = None then c\<lparr>cmdSubNames := Some []\<rparr> else c)))"

section \<open>Decoding gives back what was encoded\<close>

text \<open>
  A command as the constructors build it, with text that is valid UTF-8: only an \<open>Ack\<close>
  carries subscriber names.
\<close>

definition command_ok :: "Command \<Rightarrow> bool" where
  "command_ok c \<longleftrightarrow> validate c = None \<and>
     valid_utf8 (cmdQueueName c) \<and> valid_utf8 (cmdMsgID c) \<and> valid_utf8 (cmdPayload c) \<and>
     valid_utf8 (cmdSubName c) \<and> policy_text (cmdPolicy c) \<and> policies_text (cmdSubList c) \<and>
     (case cmdSubNames c of None \<Rightarrow> cmdType c \<noteq> CmdAck | Some ns \<Rightarrow> list_all valid_utf8 ns \<and> (ns = [] \<longrightarrow> cmdType c = CmdAck))"

lemma code_type_type_code: "\<forall>n. t \<noteq> CmdOther n \<Longrightarrow> code_type (type_code t) = t"
  by (cases t) (simp_all add: code_type_def type_code_def)

lemma type_code_small: "\<forall>n. t \<noteq> CmdOther n \<Longrightarrow> type_code t < 2 ^ 8"
  by (cases t) (simp_all add: type_code_def)

lemma set_uint_dec [struct_simps]:
  "n < 2 ^ b \<Longrightarrow> b \<le> 64 \<Longrightarrow> set_uint b upd (JNum (dec_nat n)) a = Some (upd n a)"
proof -
  assume n: "n < 2 ^ b" "b \<le> 64"
  have "(2::nat) ^ b \<le> 2 ^ 64" using n(2) by (rule power_increasing) simp
  then show ?thesis using n by (simp add: set_uint_def ParseUint64_dec_nat)
qed

lemma decode_strings: "decode_list decode_string (map JStr ns) = Some ns"
  by (induction ns) (simp_all add: decode_string_def)

lemma set_fields_append:
  "set_fields fs (xs @ ys) a = Option.bind (set_fields fs xs a) (set_fields fs ys)"
  by (induction xs arbitrary: a) (auto split: bind_splits)

lemma set_fields_omit:
  "set_fields fs (omit e k v) a = (if e then Some a else set_field fs k v a)"
  by (cases "set_field fs k v a") (simp_all add: omit_def)

lemma fold_key_command [struct_simps]:
  "fold_key ''Type'' = ''TYPE''" "fold_key ''QueueName'' = ''QUEUENAME''" "fold_key ''Payload'' = ''PAYLOAD''"
  "fold_key ''Policy'' = ''POLICY''" "fold_key ''SubNames'' = ''SUBNAMES''"
  by code_simp+

lemma set_struct_JObj: "set_struct fs (JObj kvs) a = set_fields fs kvs a"
  by (simp add: set_struct_def)

lemma set_field_Command:
  "set_field Command_fields ''Type'' v c = set_uint 8 (\<lambda>n c. c\<lparr>cmdType := code_type n\<rparr>) v c"
  "set_field Command_fields ''QueueName'' v c = set_string (\<lambda>s c. c\<lparr>cmdQueueName := s\<rparr>) v c"
  "set_field Command_fields ''MsgId'' v c = set_string (\<lambda>s c. c\<lparr>cmdMsgID := s\<rparr>) v c"
  "set_field Command_fields ''Payload'' v c = set_string (\<lambda>s c. c\<lparr>cmdPayload := s\<rparr>) v c"
  "set_field Command_fields ''SubName'' v c = set_string (\<lambda>s c. c\<lparr>cmdSubName := s\<rparr>) v c"
  "set_field Command_fields ''Policy'' v c =
     map_option (\<lambda>p. c\<lparr>cmdPolicy := p\<rparr>) (set_struct SubPolicy_fields v (cmdPolicy c))"
  "set_field Command_fields ''SubNames'' v c = set_list decode_string (\<lambda>ns c. c\<lparr>cmdSubNames := ns\<rparr>) v c"
  "set_field Command_fields ''SubList'' v c =
     map_option (\<lambda>m. c\<lparr>cmdSubList := m\<rparr>) (set_map decode_policy v (cmdSubList c))"
  by (simp_all add: Command_fields_def struct_simps)

lemma valid_command_names [simp]:
  "valid_utf8 ''Type''" "valid_utf8 ''QueueName''" "valid_utf8 ''Payload''" "valid_utf8 ''Policy''"
  "valid_utf8 ''SubNames''"
  by (simp_all add: valid_utf8.simps code_def)

lemma dec_nat_dec_int: "dec_nat n = dec_int (int n)"
  by (simp add: dec_int_def)

lemma printable_Command:
  assumes "command_ok c"
  shows "printable 10000 (json_Command c)"
proof -
  have "printable 9999 (json_SubPolicy (cmdPolicy c))"
    using assms by (intro printable_SubPolicy) (simp_all add: command_ok_def)
  moreover have "printable 9999 (json_map json_SubPolicy (cmdSubList c))"
    by (rule printable_json_map)
      (use assms in \<open>auto simp: command_ok_def policies_text_def intro!: printable_SubPolicy\<close>)
  moreover have "\<forall>x \<in> set (case cmdSubNames c of None \<Rightarrow> [] | Some ns \<Rightarrow> ns). valid_utf8 x"
    using assms by (auto simp: command_ok_def list_all_iff split: option.splits)
  moreover have "\<exists>i. dec_nat (type_code (cmdType c)) = dec_int i"
    using dec_nat_dec_int by blast
  ultimately show ?thesis
    using assms by (auto simp: json_Command_def omit_def command_ok_def)
qed

lemma set_struct_Command:
  assumes "command_ok c"
  shows "set_struct Command_fields (json_Command c) zero_Command =
    Some (if cmdSubNames c = Some [] then c\<lparr>cmdSubNames := None\<rparr> else c)"
proof -
  have ty: "\<forall>n. cmdType c \<noteq> CmdOther n"
    using assms by (auto simp: command_ok_def validate_def split: if_splits)
  have pol: "set_struct SubPolicy_fields (json_SubPolicy (cmdPolicy c)) zero_SubPolicy = Some (cmdPolicy c)"
    using assms by (intro set_struct_SubPolicy) (simp add: command_ok_def policy_text_def)
  have subs: "set_map decode_policy (json_map json_SubPolicy (cmdSubList c)) fmempty = Some (cmdSubList c)"
    using assms by (intro decode_policies) (simp add: command_ok_def)
  show ?thesis
    using type_code_small [OF ty] code_type_type_code [OF ty] pol subs
    by (cases c, cases "cmdSubNames c")
      (auto simp: set_struct_JObj json_Command_def set_fields_append set_fields_omit set_field_Command
        zero_Command_def set_list_def decode_strings set_string_simps set_uint_dec)
qed

lemma cmd_roundtrip:
  assumes "command_ok c"
  shows "\<exists>data. cmd_Encode c = Inr data \<and> cmd_Decode data = Inr c"
proof -
  have v: "validate c = None" using assms by (simp add: command_ok_def)
  have "validate (c\<lparr>cmdSubNames := None\<rparr>) = validate c"
    by (simp add: validate_def cong: CmdType.case_cong)
  then have v': "validate (if cmdSubNames c = Some [] then c\<lparr>cmdSubNames := None\<rparr> else c) = None"
    using v by simp
  have ack: "cmdSubNames c = Some [] \<Longrightarrow> cmdType c = CmdAck" "cmdSubNames c = None \<Longrightarrow> cmdType c \<noteq> CmdAck"
    using assms by (auto simp: command_ok_def)
  have ne: "print_json (json_Command c) \<noteq> []" by (simp add: json_Command_def)
  have "cmd_Decode (print_json (json_Command c)) = Inr c"
    using parse_json_print [OF printable_Command [OF assms]] set_struct_Command [OF assms] v' ne ack
    by (auto simp: cmd_Decode_def Unmarshal_def)
  then show ?thesis by (simp add: cmd_Encode_def v)
qed

section \<open>What a log entry can hold\<close>

definition cmd_text :: "Command \<Rightarrow> bool" where
  "cmd_text c \<longleftrightarrow> valid_utf8 (cmdQueueName c) \<and> valid_utf8 (cmdMsgID c) \<and> valid_utf8 (cmdPayload c) \<and>
     valid_utf8 (cmdSubName c) \<and> policy_text (cmdPolicy c) \<and> policies_text (cmdSubList c)"

lemma keeps_uint:
  "(\<And>i a. i < 2 ^ b \<Longrightarrow> P a \<Longrightarrow> P (upd i a)) \<Longrightarrow> field_keeps P (n, set_uint b upd)"
  by (auto simp: field_keeps_def set_uint_def split: json.splits option.splits if_splits)

lemma keeps_list:
  assumes "\<And>xs a. P a \<Longrightarrow> P (upd xs a)"
  shows "field_keeps P (n, set_list elem upd)"
  using assms by (auto simp: field_keeps_def set_list_def split: json.splits)

lemma keeps_policies:
  assumes "\<And>m a. policies_text m \<Longrightarrow> P a \<Longrightarrow> P (upd m a)" "\<And>a. P a \<Longrightarrow> policies_text (get a)"
  shows "field_keeps P (n, \<lambda>v a. map_option (\<lambda>m. upd m a) (set_map decode_policy v (get a)))"
  using assms by (auto simp: field_keeps_def dest: set_map_text)

lemma keeps_Command: "\<forall>f \<in> set Command_fields. field_keeps cmd_text f"
proof -
  have "field_keeps cmd_text (''Policy'',
      \<lambda>v c. map_option (\<lambda>p. c\<lparr>cmdPolicy := p\<rparr>) (set_struct SubPolicy_fields v (cmdPolicy c)))"
    by (auto simp: field_keeps_def cmd_text_def dest: set_struct_keeps [OF keeps_SubPolicy])
  then show ?thesis
    by (auto simp: Command_fields_def cmd_text_def intro!: keeps_uint keeps_string keeps_list keeps_policies)
qed

lemma cmd_Decode_text:
  assumes "cmd_Decode data = Inr c"
  shows "cmd_text c" "validate c = None"
proof -
  obtain c0 where c0: "Unmarshal Command_fields zero_Command data = Some c0" "validate c0 = None"
    "c = c0 \<or> c = c0\<lparr>cmdSubNames := Some []\<rparr>"
    using assms by (auto simp: cmd_Decode_def split: if_splits option.splits)
  have "cmd_text c0"
    by (rule Unmarshal_keeps [OF c0(1) _ keeps_Command]) (simp add: cmd_text_def zero_Command_def)
  then show "cmd_text c" using c0(3) by (auto simp: cmd_text_def)
  have "validate (c0\<lparr>cmdSubNames := Some []\<rparr>) = validate c0"
    by (simp add: validate_def cong: CmdType.case_cong)
  then show "validate c = None" using c0 by auto
qed

section \<open>Properties\<close>

text \<open>
  C33. A command a node proposes reaches the state machine of every node unchanged: encoding
  a valid command whose strings are valid UTF-8 succeeds, and decoding the bytes gives back
  the command, fields left out for being empty included.
\<close>

theorem dist_command_roundtrip:
  assumes "command_ok c"
  shows "\<exists>data. cmd_Encode c = Inr data \<and> cmd_Decode data = Inr c"
  using assms by (rule cmd_roundtrip)

definition sample_enqueue :: Command where
  "sample_enqueue = NewEnqueue ''orders'' ''orders-1'' ''hello'' (fmupd ''audit'' sample_policy fmempty)"

lemma sample_enqueue_ok: "command_ok sample_enqueue"
  by (simp add: command_ok_def sample_enqueue_def NewEnqueue_def zero_Command_def validate_def
      policies_text_def policy_text_def sample_policy_def zero_SubPolicy_def int64_def valid_utf8.simps code_def)

theorem dist_command_roundtrip_witness:
  "\<exists>data. cmd_Encode sample_enqueue = Inr data \<and> cmd_Decode data = Inr sample_enqueue"
  by (rule dist_command_roundtrip [OF sample_enqueue_ok])

text \<open>
  C34. Decoding only ever yields valid UTF-8, so no log entry decodes to a command whose payload
  is not: a message body that is not text, which the server accepts, is stored and
  delivered as something else.
\<close>

theorem dist_binary_payload_altered:
  assumes "\<not> valid_utf8 (cmdPayload c)"
  shows "cmd_Decode data \<noteq> Inr c"
  using assms cmd_Decode_text(1) [of data c] by (auto simp: cmd_text_def)

theorem dist_binary_payload_altered_witness:
  "(case cmd_Encode (NewEnqueue ''q'' ''q-1'' [CHR 0xFF] fmempty) of
      Inl _ \<Rightarrow> False
    | Inr data \<Rightarrow> cmd_Decode data \<noteq> Inr (NewEnqueue ''q'' ''q-1'' [CHR 0xFF] fmempty))"
proof -
  have "\<not> valid_utf8 [CHR 0xFF]" by (simp add: valid_utf8.simps code_def)
  then have "cmd_Decode data \<noteq> Inr (NewEnqueue ''q'' ''q-1'' [CHR 0xFF] fmempty)" for data
    using dist_binary_payload_altered [of "NewEnqueue ''q'' ''q-1'' [CHR 0xFF] fmempty" data]
    by (simp add: NewEnqueue_def)
  moreover have "validate (NewEnqueue ''q'' ''q-1'' [CHR 0xFF] fmempty) = None"
    by (simp add: validate_def NewEnqueue_def zero_Command_def)
  ultimately show ?thesis by (simp add: cmd_Encode_def)
qed

end
