(* ===== verification/Dist_Storage.thy ===== *)
theory Dist_Storage
  imports Dist_Command
begin

text \<open>
  \<open>dist-mq/storage\<close>, \<open>dist-mq/model\<close> and \<open>dist-mq/fsm\<close>: the replicated state machine. Every
  node applies the same log entries to an in-memory store; snapshots are its JSON form. The
  store is a value here, so the copies the code takes of its maps need no definition.
\<close>

section \<open>State\<close>

record MessageInfo =
  miMsgID :: string
  miPayload :: string
  miSubList :: policies
  miAckedSubs :: "string list"

definition mi_PendingSubs :: "MessageInfo \<Rightarrow> policies" where
  "mi_PendingSubs m = fmfilter (\<lambda>name. name \<notin> set (miAckedSubs m)) (miSubList m)"

record DistQueueInfo =
  diName :: string
  diSubs :: policies
  diMessages :: "MessageInfo list"

record messageState =
  msSeq :: nat
  msMsgID :: string
  msPayload :: string
  msSubList :: policies
  msAcked :: "string fset"

record queueState =
  qsName :: string
  qsSubs :: policies
  qsMessages :: "(string, messageState) fmap"

record InMemoryStorage =
  stQueues :: "(string, queueState) fmap"
  nextSeq :: nat

datatype storage_error = ErrQueueNotFound | ErrQueueExists

definition NewInMemoryStorage :: InMemoryStorage where
  "NewInMemoryStorage = \<lparr>stQueues = fmempty, nextSeq = 0\<rparr>"

definition sortedKeys :: "string fset \<Rightarrow> string list" where
  "sortedKeys K = sorted_list_of_fset K"

definition toMessageInfo :: "messageState \<Rightarrow> MessageInfo" where
  "toMessageInfo m =
     \<lparr>miMsgID = msMsgID m, miPayload = msPayload m, miSubList = msSubList m, miAckedSubs = sortedKeys (msAcked m)\<rparr>"

section \<open>Mutations\<close>

definition st_CreateQueue :: "string \<Rightarrow> InMemoryStorage \<Rightarrow> storage_error + InMemoryStorage" where
  "st_CreateQueue name s =
     (if name |\<in>| fmdom (stQueues s) then Inl ErrQueueExists
      else Inr (s\<lparr>stQueues := fmupd name \<lparr>qsName = name, qsSubs = fmempty, qsMessages = fmempty\<rparr> (stQueues s)\<rparr>))"

definition st_DeleteQueue :: "string \<Rightarrow> InMemoryStorage \<Rightarrow> storage_error + InMemoryStorage" where
  "st_DeleteQueue name s =
     (if name |\<notin>| fmdom (stQueues s) then Inl ErrQueueNotFound
      else Inr (s\<lparr>stQueues := fmdrop name (stQueues s)\<rparr>))"

definition st_PutSubPolicy :: "string \<Rightarrow> SubPolicy \<Rightarrow> InMemoryStorage \<Rightarrow> storage_error + InMemoryStorage" where
  "st_PutSubPolicy queueName policy s =
     (case fmlookup (stQueues s) queueName of
        None \<Rightarrow> Inl ErrQueueNotFound
      | Some q \<Rightarrow>
          Inr (s\<lparr>stQueues := fmupd queueName (q\<lparr>qsSubs := fmupd (SubName policy) policy (qsSubs q)\<rparr>) (stQueues s)\<rparr>))"

definition st_DeleteSubPolicy :: "string \<Rightarrow> string \<Rightarrow> InMemoryStorage \<Rightarrow> storage_error + InMemoryStorage" where
  "st_DeleteSubPolicy queueName subName s =
     (case fmlookup (stQueues s) queueName of
        None \<Rightarrow> Inl ErrQueueNotFound
      | Some q \<Rightarrow>
          Inr (s\<lparr>stQueues := fmupd queueName (q\<lparr>qsSubs := fmdrop subName (qsSubs q)\<rparr>) (stQueues s)\<rparr>))"

text \<open>The sequence number is a \<open>uint64\<close> and wraps around.\<close>

definition st_Enqueue ::
    "string \<Rightarrow> string \<Rightarrow> string \<Rightarrow> policies \<Rightarrow> InMemoryStorage \<Rightarrow> storage_error + (MessageInfo \<times> InMemoryStorage)" where
  "st_Enqueue queueName msgID payload subList s =
     (case fmlookup (stQueues s) queueName of
        None \<Rightarrow> Inl ErrQueueNotFound
      | Some q \<Rightarrow>
          (case fmlookup (qsMessages q) msgID of
             Some existing \<Rightarrow> Inr (toMessageInfo existing, s)
           | None \<Rightarrow>
               let msg = \<lparr>msSeq = nextSeq s, msMsgID = msgID, msPayload = payload, msSubList = subList, msAcked = {||}\<rparr>;
                   s1 = s\<lparr>nextSeq := (nextSeq s + 1) mod 2 ^ 64\<rparr>;
                   s2 = (if maplen (msSubList msg) > 0
                     then s1\<lparr>stQueues := fmupd queueName (q\<lparr>qsMessages := fmupd msgID msg (qsMessages q)\<rparr>) (stQueues s1)\<rparr>
                     else s1)
               in Inr (toMessageInfo msg, s2)))"

fun mark_acked :: "string list \<Rightarrow> messageState \<Rightarrow> messageState" where
  "mark_acked [] msg = msg"
| "mark_acked (subName # subNames) msg =
     mark_acked subNames
       (if subName |\<notin>| fmdom (msSubList msg) then msg else msg\<lparr>msAcked := finsert subName (msAcked msg)\<rparr>)"

definition st_Ack :: "string \<Rightarrow> string \<Rightarrow> string list \<Rightarrow> InMemoryStorage \<Rightarrow> InMemoryStorage" where
  "st_Ack queueName msgID subNames s =
     (case fmlookup (stQueues s) queueName of
        None \<Rightarrow> s
      | Some q \<Rightarrow>
          (case fmlookup (qsMessages q) msgID of
             None \<Rightarrow> s
           | Some msg \<Rightarrow>
               let msg' = mark_acked subNames msg;
                   ms = (if fcard (msAcked msg') \<ge> maplen (msSubList msg')
                     then fmdrop msgID (qsMessages q) else fmupd msgID msg' (qsMessages q))
               in s\<lparr>stQueues := fmupd queueName (q\<lparr>qsMessages := ms\<rparr>) (stQueues s)\<rparr>))"

section \<open>Reads\<close>

text \<open>
  The values of a map in the order it is ranged over. \<open>sort.Slice\<close> is not stable, which a
  stable sort of an arbitrary order accounts for.
\<close>

definition vals :: "order \<Rightarrow> (string, 'v) fmap \<Rightarrow> 'v list" where
  "vals ord m = map (\<lambda>k. the (fmlookup m k)) (ord (fmdom m))"

definition QueueNames :: "order \<Rightarrow> InMemoryStorage \<Rightarrow> string list" where
  "QueueNames ord s = sort (ord (fmdom (stQueues s)))"

definition messagesInOrder :: "order \<Rightarrow> queueState \<Rightarrow> MessageInfo list" where
  "messagesInOrder ord q = map toMessageInfo (sort_key msSeq (vals ord (qsMessages q)))"

definition st_AllQueueInfo :: "order \<Rightarrow> InMemoryStorage \<Rightarrow> DistQueueInfo list" where
  "st_AllQueueInfo ord s = sort_key diName
     (map (\<lambda>q. \<lparr>diName = qsName q, diSubs = qsSubs q, diMessages = messagesInOrder ord q\<rparr>) (vals ord (stQueues s)))"

definition FetchSubList :: "string \<Rightarrow> InMemoryStorage \<Rightarrow> policies option" where
  "FetchSubList queueName s = map_option qsSubs (fmlookup (stQueues s) queueName)"

definition PendingMessages :: "order \<Rightarrow> string \<Rightarrow> InMemoryStorage \<Rightarrow> storage_error + MessageInfo list" where
  "PendingMessages ord queueName s =
     (case fmlookup (stQueues s) queueName of
        None \<Rightarrow> Inl ErrQueueNotFound
      | Some q \<Rightarrow> Inr (messagesInOrder ord q))"

section \<open>Snapshots\<close>

record snapshotMessage =
  smSeq :: nat
  smMsgID :: string
  smPayload :: string
  smSubList :: policies
  smAckedSubs :: "string list"

record snapshotQueue =
  sqName :: string
  sqSubs :: policies
  sqMessages :: "snapshotMessage list"

record snapshotState =
  snNextSeq :: nat
  snQueues :: "snapshotQueue list"

definition snap_message :: "messageState \<Rightarrow> snapshotMessage" where
  "snap_message m =
     \<lparr>smSeq = msSeq m, smMsgID = msMsgID m, smPayload = msPayload m, smSubList = msSubList m,
      smAckedSubs = sortedKeys (msAcked m)\<rparr>"

definition snap_queue :: "order \<Rightarrow> queueState \<Rightarrow> snapshotQueue" where
  "snap_queue ord q =
     \<lparr>sqName = qsName q, sqSubs = qsSubs q,
      sqMessages = sort_key smSeq (map snap_message (vals ord (qsMessages q)))\<rparr>"

definition snap_state :: "order \<Rightarrow> InMemoryStorage \<Rightarrow> snapshotState" where
  "snap_state ord s =
     \<lparr>snNextSeq = nextSeq s, snQueues = sort_key sqName (map (snap_queue ord) (vals ord (stQueues s)))\<rparr>"

definition json_snapshotMessage :: "snapshotMessage \<Rightarrow> json" where
  "json_snapshotMessage m = JObj
     [(''Seq'', JNum (dec_nat (smSeq m))), (''MsgId'', JStr (smMsgID m)), (''Payload'', JStr (smPayload m)),
      (''SubList'', json_map json_SubPolicy (smSubList m)), (''AckedSubs'', JArr (map JStr (smAckedSubs m)))]"

definition json_snapshotQueue :: "snapshotQueue \<Rightarrow> json" where
  "json_snapshotQueue q = JObj
     [(''Name'', JStr (sqName q)), (''Subs'', json_map json_SubPolicy (sqSubs q)),
      (''Messages'', JArr (map json_snapshotMessage (sqMessages q)))]"

definition json_snapshotState :: "snapshotState \<Rightarrow> json" where
  "json_snapshotState s = JObj
     [(''NextSeq'', JNum (dec_nat (snNextSeq s))), (''Queues'', JArr (map json_snapshotQueue (snQueues s)))]"

definition Snapshot :: "order \<Rightarrow> InMemoryStorage \<Rightarrow> bytes" where
  "Snapshot ord s = print_json (json_snapshotState (snap_state ord s))"

definition some_list :: "'a list option \<Rightarrow> 'a list" where
  "some_list x = (case x of None \<Rightarrow> [] | Some xs \<Rightarrow> xs)"

definition set_policies_field :: "('a \<Rightarrow> policies) \<Rightarrow> (policies \<Rightarrow> 'a \<Rightarrow> 'a) \<Rightarrow> json \<Rightarrow> 'a \<Rightarrow> 'a option" where
  "set_policies_field get upd v a = map_option (\<lambda>m. upd m a) (set_map decode_policy v (get a))"

definition snapshotMessage_fields :: "snapshotMessage field list" where
  "snapshotMessage_fields =
     [(''Seq'', set_uint 64 (\<lambda>n m. m\<lparr>smSeq := n\<rparr>)),
      (''MsgId'', set_string (\<lambda>x m. m\<lparr>smMsgID := x\<rparr>)),
      (''Payload'', set_string (\<lambda>x m. m\<lparr>smPayload := x\<rparr>)),
      (''SubList'', set_policies_field smSubList (\<lambda>x m. m\<lparr>smSubList := x\<rparr>)),
      (''AckedSubs'', set_list decode_string (\<lambda>x m. m\<lparr>smAckedSubs := some_list x\<rparr>))]"

definition decode_snapshotMessage :: "json \<Rightarrow> snapshotMessage option" where
  "decode_snapshotMessage v = set_struct snapshotMessage_fields v
     \<lparr>smSeq = 0, smMsgID = [], smPayload = [], smSubList = fmempty, smAckedSubs = []\<rparr>"

definition snapshotQueue_fields :: "snapshotQueue field list" where
  "snapshotQueue_fields =
     [(''Name'', set_string (\<lambda>x q. q\<lparr>sqName := x\<rparr>)),
      (''Subs'', set_policies_field sqSubs (\<lambda>x q. q\<lparr>sqSubs := x\<rparr>)),
      (''Messages'', set_list decode_snapshotMessage (\<lambda>x q. q\<lparr>sqMessages := some_list x\<rparr>))]"

definition decode_snapshotQueue :: "json \<Rightarrow> snapshotQueue option" where
  "decode_snapshotQueue v = set_struct snapshotQueue_fields v \<lparr>sqName = [], sqSubs = fmempty, sqMessages = []\<rparr>"

definition snapshotState_fields :: "snapshotState field list" where
  "snapshotState_fields =
     [(''NextSeq'', set_uint 64 (\<lambda>n s. s\<lparr>snNextSeq := n\<rparr>)),
      (''Queues'', set_list decode_snapshotQueue (\<lambda>x s. s\<lparr>snQueues := some_list x\<rparr>))]"

definition restore_message :: "snapshotMessage \<Rightarrow> messageState" where
  "restore_message m =
     \<lparr>msSeq = smSeq m, msMsgID = smMsgID m, msPayload = smPayload m, msSubList = smSubList m,
      msAcked = fset_of_list (smAckedSubs m)\<rparr>"

definition restore_queue :: "snapshotQueue \<Rightarrow> queueState" where
  "restore_queue q =
     \<lparr>qsName = sqName q, qsSubs = sqSubs q,
      qsMessages = fold (\<lambda>m. fmupd (smMsgID m) (restore_message m)) (sqMessages q) fmempty\<rparr>"

text \<open>A snapshot that does not decode leaves the store as it is.\<close>

definition Restore :: "bytes \<Rightarrow> InMemoryStorage \<Rightarrow> InMemoryStorage option" where
  "Restore data s = do {
     snap \<leftarrow> Unmarshal snapshotState_fields \<lparr>snNextSeq = 0, snQueues = []\<rparr> data;
     Some (s\<lparr>stQueues := fold (\<lambda>q. fmupd (sqName q) (restore_queue q)) (snQueues snap) fmempty,
             nextSeq := snNextSeq snap\<rparr>)
   }"

section \<open>The state machine\<close>

text \<open>What \<open>Apply\<close> returns: nil, a message, or an error.\<close>

datatype fsm_response = RespNil | RespMsg MessageInfo | RespStorage storage_error | RespDecode nat cmd_error

definition respond :: "InMemoryStorage \<Rightarrow> storage_error + InMemoryStorage \<Rightarrow> InMemoryStorage \<times> fsm_response" where
  "respond s r = (case r of Inl e \<Rightarrow> (s, RespStorage e) | Inr s' \<Rightarrow> (s', RespNil))"

text \<open>The last case of the switch is not reached: \<open>Decode\<close> validates the type.\<close>

definition Apply :: "nat \<Rightarrow> bytes \<Rightarrow> InMemoryStorage \<Rightarrow> InMemoryStorage \<times> fsm_response" where
  "Apply index data s =
     (case cmd_Decode data of
        Inl e \<Rightarrow> (s, RespDecode index e)
      | Inr cmd \<Rightarrow>
          (case cmdType cmd of
             CmdCreateQueue \<Rightarrow> respond s (st_CreateQueue (cmdQueueName cmd) s)
           | CmdDeleteQueue \<Rightarrow> respond s (st_DeleteQueue (cmdQueueName cmd) s)
           | CmdPutSubPolicy \<Rightarrow> respond s (st_PutSubPolicy (cmdQueueName cmd) (cmdPolicy cmd) s)
           | CmdDeleteSubPolicy \<Rightarrow> respond s (st_DeleteSubPolicy (cmdQueueName cmd) (cmdSubName cmd) s)
           | CmdAck \<Rightarrow> (st_Ack (cmdQueueName cmd) (cmdMsgID cmd) (some_list (cmdSubNames cmd)) s, RespNil)
           | CmdEnqueue \<Rightarrow>
               (case st_Enqueue (cmdQueueName cmd) (cmdMsgID cmd) (cmdPayload cmd) (cmdSubList cmd) s of
                  Inl e \<Rightarrow> (s, RespStorage e)
                | Inr (msg, s') \<Rightarrow> (s', RespMsg msg))
           | CmdOther n \<Rightarrow> (s, RespDecode index (UnknownType n))))"

text \<open>\<open>FSM.Snapshot\<close> and \<open>Persist\<close> write the bytes of the store; \<open>Restore\<close> reads them.\<close>

definition fsm_Snapshot :: "order \<Rightarrow> InMemoryStorage \<Rightarrow> bytes" where
  "fsm_Snapshot ord s = Snapshot ord s"

definition Persist :: "(bytes \<Rightarrow> bool) \<Rightarrow> bool \<Rightarrow> bytes \<Rightarrow> bytes option" where
  "Persist write_ok close_ok data = (if \<not> write_ok data then None else if close_ok then Some data else None)"

definition fsm_Restore :: "bytes option \<Rightarrow> InMemoryStorage \<Rightarrow> InMemoryStorage option" where
  "fsm_Restore data s = (case data of None \<Rightarrow> None | Some b \<Rightarrow> Restore b s)"

text \<open>A node's state after the entries of a log, numbered from \<open>i\<close>.\<close>

fun apply_log :: "nat \<Rightarrow> bytes list \<Rightarrow> InMemoryStorage \<Rightarrow> InMemoryStorage" where
  "apply_log i [] s = s"
| "apply_log i (e # es) s = apply_log (i + 1) es (fst (Apply i e s))"

end
