(* ===== verification/Dist_Node.thy ===== *)
theory Dist_Node
  imports Dist_Storage
begin

text \<open>
  \<open>dist-mq/node\<close>: proposing commands to \<open>hashicorp/raft\<close>. Raft is a parameter: it takes the
  bytes of an entry and the local store and returns the store and either an error or what
  the state machine answered. What the code relies on is \<open>raft_commits\<close>: an entry whose
  future succeeds has been applied to the local store, among other entries.
\<close>

datatype raft_error = ErrNotLeader | ErrTimeout | ErrShutdown

type_synonym raft = "bytes \<Rightarrow> InMemoryStorage \<Rightarrow> InMemoryStorage \<times> (raft_error + fsm_response)"

definition raft_commits :: "raft \<Rightarrow> bool" where
  "raft_commits raft \<longleftrightarrow> (\<forall>data s.
     (case raft data s of
        (s', Inl _) \<Rightarrow> \<exists>i es. s' = apply_log i es s
      | (s', Inr resp) \<Rightarrow>
          \<exists>i before after. resp = snd (Apply (i + length before) data (apply_log i before s)) \<and>
            s' = apply_log i (before @ data # after) s))"

datatype node_error = Invalid cmd_error | RaftError raft_error | StoreError storage_error
  | EntryError nat cmd_error | UnexpectedResponse

definition propose :: "raft \<Rightarrow> Command \<Rightarrow> InMemoryStorage \<Rightarrow> InMemoryStorage \<times> (node_error + fsm_response)" where
  "propose raft cmd s =
     (case cmd_Encode cmd of
        Inl e \<Rightarrow> (s, Inl (Invalid e))
      | Inr data \<Rightarrow>
          (case raft data s of
             (s', Inl e) \<Rightarrow> (s', Inl (RaftError e))
           | (s', Inr resp) \<Rightarrow>
               (s', (case resp of
                  RespStorage e \<Rightarrow> Inl (StoreError e)
                | RespDecode i e \<Rightarrow> Inl (EntryError i e)
                | r \<Rightarrow> Inr r))))"

type_synonym node_result = "InMemoryStorage \<times> node_error option"

definition just_error :: "InMemoryStorage \<times> (node_error + 'a) \<Rightarrow> node_result" where
  "just_error r = (fst r, case snd r of Inl e \<Rightarrow> Some e | Inr _ \<Rightarrow> None)"

definition node_CreateQueue :: "raft \<Rightarrow> string \<Rightarrow> InMemoryStorage \<Rightarrow> node_result" where
  "node_CreateQueue raft queueName s = just_error (propose raft (NewCreateQueue queueName) s)"

definition node_DeleteQueue :: "raft \<Rightarrow> string \<Rightarrow> InMemoryStorage \<Rightarrow> node_result" where
  "node_DeleteQueue raft queueName s = just_error (propose raft (NewDeleteQueue queueName) s)"

definition node_PutSubPolicy :: "raft \<Rightarrow> string \<Rightarrow> SubPolicy \<Rightarrow> InMemoryStorage \<Rightarrow> node_result" where
  "node_PutSubPolicy raft queueName policy s = just_error (propose raft (NewPutSubPolicy queueName policy) s)"

definition node_DeleteSubPolicy :: "raft \<Rightarrow> string \<Rightarrow> string \<Rightarrow> InMemoryStorage \<Rightarrow> node_result" where
  "node_DeleteSubPolicy raft queueName subName s = just_error (propose raft (NewDeleteSubPolicy queueName subName) s)"

definition node_Enqueue ::
    "raft \<Rightarrow> string \<Rightarrow> string \<Rightarrow> string \<Rightarrow> policies \<Rightarrow> InMemoryStorage \<Rightarrow> InMemoryStorage \<times> (node_error + MessageInfo)" where
  "node_Enqueue raft queueName msgID payload subList s =
     (case propose raft (NewEnqueue queueName msgID payload subList) s of
        (s', Inl e) \<Rightarrow> (s', Inl e)
      | (s', Inr (RespMsg msg)) \<Rightarrow> (s', Inr msg)
      | (s', Inr _) \<Rightarrow> (s', Inl UnexpectedResponse))"

definition node_Ack :: "raft \<Rightarrow> string \<Rightarrow> string \<Rightarrow> string list \<Rightarrow> InMemoryStorage \<Rightarrow> node_result" where
  "node_Ack raft queueName msgID subNames s = just_error (propose raft (NewAck queueName msgID subNames) s)"

text \<open>The members of a new cluster: the configured peers, or this node alone.\<close>

record Peer =
  peerID :: string
  peerAddress :: string

definition bootstrapConfig :: "string \<Rightarrow> string \<Rightarrow> Peer list \<Rightarrow> (string \<times> string) list" where
  "bootstrapConfig nodeID localAddr peers =
     (if peers = [] then [(nodeID, localAddr)] else map (\<lambda>p. (peerID p, peerAddress p)) peers)"

text \<open>Raft reports the leader's identity, or the empty string during an election.\<close>

definition LeaderID :: "string \<Rightarrow> string option" where
  "LeaderID i = (if i = '''' then None else Some i)"

end
