(* ===== verification/Dist_Delivery.thy ===== *)
theory Dist_Delivery
  imports Dist_Node Ring_Buffer
begin

text \<open>
  \<open>dist-mq/delivery\<close>: the leader's delivery machinery. A manager builds queues and workers
  when its node becomes leader and abandons them when it stops being leader; everything it
  holds can be rebuilt from the replicated store.
\<close>

section \<open>Queues\<close>

record DistMsg =
  qmMsgID :: string
  qmPayload :: string
  qmSubList :: policies
  qmAcked :: "string fset"
  qmRetryMap :: "(string, nat) fmap"

record DistQueue = "DistMsg ring" +
  dqHasWork :: bool
  dqName :: string

definition dist_NewQueue :: "string \<Rightarrow> DistQueue" where
  "dist_NewQueue name =
     \<lparr>qcount = 0, qhead = 0, qbuf = replicate initialCapacity None, dqHasWork = False, dqName = name\<rparr>"

definition dist_NewQueueMsg :: "MessageInfo \<Rightarrow> DistMsg" where
  "dist_NewQueueMsg info =
     \<lparr>qmMsgID = miMsgID info, qmPayload = miPayload info, qmSubList = miSubList info,
      qmAcked = fset_of_list (miAckedSubs info), qmRetryMap = fmempty\<rparr>"

definition qm_PendingSubs :: "DistMsg \<Rightarrow> policies" where
  "qm_PendingSubs m = fmfilter (\<lambda>name. name |\<notin>| qmAcked m) (qmSubList m)"

definition qm_Done :: "DistMsg \<Rightarrow> bool" where
  "qm_Done m \<longleftrightarrow> fcard (qmAcked m) \<ge> maplen (qmSubList m)"

text \<open>
  The wake-up is sent after the lock is released; a worker that takes the message before
  finds a wake-up for nothing later, which it ignores. The two are one step here.
\<close>

definition dist_Add :: "DistMsg \<Rightarrow> DistQueue \<Rightarrow> DistQueue option" where
  "dist_Add msg q = do { q' \<leftarrow> Add msg q; Some (q'\<lparr>dqHasWork := True\<rparr>) }"

text \<open>As \<open>Pop\<close> of the other queues, but the slot is cleared.\<close>

definition dist_Pop :: "('a, 'z) ring_scheme \<Rightarrow> ('a option \<times> ('a, 'z) ring_scheme) option" where
  "dist_Pop q =
     (if qcount q = 0 then Some (None, q)
      else if qhead q \<ge> length (qbuf q) then None
      else do {
        let msg = qbuf q ! qhead q;
        let q0 = q\<lparr>qbuf := (qbuf q)[qhead q := None]\<rparr>;
        h \<leftarrow> go_mod (qhead q0 + 1) (length (qbuf q0));
        let q1 = q0\<lparr>qhead := h, qcount := qcount q0 - 1\<rparr>;
        q2 \<leftarrow> (if qcount q1 * 4 \<le> length (qbuf q1) then compact q1 else Some q1);
        Some (msg, q2)
      })"

section \<open>State of the manager\<close>

text \<open>
  Where a worker is. \<open>WFinish\<close> holds the subscribers that are finished after a fan-out,
  \<open>WAck\<close> has found that it still runs, \<open>WAfter\<close> has recorded the acknowledgement and
  \<open>WDone\<close> is about to tell the manager.
\<close>

datatype dist_pc =
    WCheck | WPop | WSend DistMsg | WFinish DistMsg "string list" | WAck DistMsg "string list"
  | WAfter DistMsg | WDone string | WSelect | WExit

text \<open>
  Channels and queues are numbered as they are made. \<open>closed\<close> are the stop channels that
  have been closed; a worker keeps the queue and the channel it was started with.
\<close>

record Manager =
  mqueues :: "(string, nat) fmap"
  inFlightMsgs :: "string fset"
  stopCh :: "nat option"
  mheap :: "(nat, DistQueue) fmap"
  mworkers :: "(nat, dist_pc) fmap"
  mstop :: "(nat, nat) fmap"
  mclosed :: "nat fset"
  mnext :: nat

definition NewManager :: Manager where
  "NewManager = \<lparr>mqueues = fmempty, inFlightMsgs = {||}, stopCh = None, mheap = fmempty,
     mworkers = fmempty, mstop = fmempty, mclosed = {||}, mnext = 0\<rparr>"

definition queueFor :: "string \<Rightarrow> nat \<Rightarrow> Manager \<Rightarrow> nat \<times> Manager" where
  "queueFor queueName stop m =
     (case fmlookup (mqueues m) queueName of
        Some a \<Rightarrow> (a, m)
      | None \<Rightarrow>
          let a = mnext m in
          (a, m\<lparr>mqueues := fmupd queueName a (mqueues m), mheap := fmupd a (dist_NewQueue queueName) (mheap m),
             mworkers := fmupd a WCheck (mworkers m), mstop := fmupd a stop (mstop m), mnext := a + 1\<rparr>))"

definition Schedule :: "string \<Rightarrow> MessageInfo \<Rightarrow> Manager \<Rightarrow> Manager option" where
  "Schedule queueName msg m =
     (case stopCh m of
        None \<Rightarrow> Some m
      | Some stop \<Rightarrow>
          if miMsgID msg |\<in>| inFlightMsgs m then Some m
          else if maplen (mi_PendingSubs msg) = 0 then Some m
          else
            let (a, m1) = queueFor queueName stop (m\<lparr>inFlightMsgs := finsert (miMsgID msg) (inFlightMsgs m)\<rparr>) in do {
              q \<leftarrow> fmlookup (mheap m1) a;
              q' \<leftarrow> dist_Add (dist_NewQueueMsg msg) q;
              Some (m1\<lparr>mheap := fmupd a q' (mheap m1)\<rparr>)
            })"

text \<open>Closing a channel that is closed already would panic.\<close>

definition demote :: "Manager \<Rightarrow> Manager option" where
  "demote m =
     (case stopCh m of
        None \<Rightarrow> Some m
      | Some stop \<Rightarrow>
          if stop |\<in>| mclosed m then None
          else Some (m\<lparr>mclosed := finsert stop (mclosed m), stopCh := None, mqueues := fmempty, inFlightMsgs := {||}\<rparr>))"

definition open_term :: "Manager \<Rightarrow> Manager" where
  "open_term m = m\<lparr>stopCh := Some (mnext m), mnext := mnext m + 1\<rparr>"

definition forget :: "string \<Rightarrow> Manager \<Rightarrow> Manager" where
  "forget msgID m = m\<lparr>inFlightMsgs := inFlightMsgs m |-| {|msgID|}\<rparr>"

text \<open>
  \<open>sweep\<close>: what it reads of the store, queue by queue, and then schedules message by
  message. A queue that has gone in between has no messages.
\<close>

definition sweep_reads :: "order \<Rightarrow> InMemoryStorage \<Rightarrow> (string \<times> MessageInfo) list" where
  "sweep_reads ord store =
     concat (map (\<lambda>q. map (Pair q) (case PendingMessages ord q store of Inl _ \<Rightarrow> [] | Inr msgs \<Rightarrow> msgs))
       (QueueNames ord store))"

fun schedule_all :: "(string \<times> MessageInfo) list \<Rightarrow> Manager \<Rightarrow> Manager option" where
  "schedule_all [] m = Some m"
| "schedule_all ((q, msg) # msgs) m = do { m' \<leftarrow> Schedule q msg m; schedule_all msgs m' }"

definition sweep :: "order \<Rightarrow> InMemoryStorage \<Rightarrow> Manager \<Rightarrow> Manager option" where
  "sweep ord store m = schedule_all (sweep_reads ord store) m"

text \<open>\<open>promote\<close> with the outcome of the barrier; the flag says whether it took over.\<close>

definition promote :: "order \<Rightarrow> bool \<Rightarrow> InMemoryStorage \<Rightarrow> Manager \<Rightarrow> (Manager \<times> bool) option" where
  "promote ord barrier store m = do {
     m1 \<leftarrow> demote m;
     if \<not> barrier then Some (m1, False)
     else do { m2 \<leftarrow> sweep ord store (open_term m1); Some (m2, True) }
   }"

definition promoteAttempts :: nat where
  "promoteAttempts = 4"

text \<open>Each attempt sees whether the node still leads, and how the barrier ends.\<close>

fun promote_loop :: "order \<Rightarrow> (bool \<times> bool) list \<Rightarrow> InMemoryStorage \<Rightarrow> Manager \<Rightarrow> Manager option" where
  "promote_loop ord [] store m = Some m"
| "promote_loop ord ((leads, barrier) # rest) store m =
     (if \<not> leads then Some m
      else do {
        (m', done) \<leftarrow> promote ord barrier store m;
        if done then Some m' else promote_loop ord rest store m'
      })"

definition promoteWithRetry :: "order \<Rightarrow> (nat \<Rightarrow> bool \<times> bool) \<Rightarrow> InMemoryStorage \<Rightarrow> Manager \<Rightarrow> Manager option" where
  "promoteWithRetry ord attempts store m = promote_loop ord (map attempts [0..<promoteAttempts]) store m"

text \<open>One pass of \<open>Run\<close>: a value from the leadership channel.\<close>

definition manager_Run :: "order \<Rightarrow> (nat \<Rightarrow> bool \<times> bool) \<Rightarrow> bool \<Rightarrow> InMemoryStorage \<Rightarrow> Manager \<Rightarrow> Manager option" where
  "manager_Run ord attempts leader store m =
     (if leader then promoteWithRetry ord attempts store m else demote m)"

section \<open>Workers\<close>

definition dist_retries :: "DistMsg \<Rightarrow> string \<Rightarrow> nat" where
  "dist_retries m n = (case fmlookup (qmRetryMap m) n of None \<Rightarrow> 0 | Some k \<Rightarrow> k)"

definition dist_results :: "http \<Rightarrow> order \<Rightarrow> DistMsg \<Rightarrow> (string \<times> bool) list" where
  "dist_results http ord msg =
     map (\<lambda>n. let sub = the (fmlookup (qm_PendingSubs msg) n) in (SubName sub, sendMsg http sub (qmPayload msg)))
       (ord (fmdom (qm_PendingSubs msg)))"

text \<open>The loop over the results: who is finished, and the failures counted.\<close>

fun dist_collect :: "policies \<Rightarrow> (string \<times> bool) list \<Rightarrow> DistMsg \<Rightarrow> string list \<Rightarrow> DistMsg \<times> string list" where
  "dist_collect pending [] msg finished = (msg, finished)"
| "dist_collect pending ((name, True) # rs) msg finished = dist_collect pending rs msg (finished @ [name])"
| "dist_collect pending ((name, False) # rs) msg finished =
     (let msg' = msg\<lparr>qmRetryMap := fmupd name (dist_retries msg name + 1) (qmRetryMap msg)\<rparr>;
          policy = (case fmlookup pending name of None \<Rightarrow> zero_SubPolicy | Some p \<Rightarrow> p)
      in dist_collect pending rs msg'
           (if int (dist_retries msg' name) \<ge> NumberOfRetries policy then finished @ [name] else finished))"

record dist_state =
  dstore :: InMemoryStorage
  dmgr :: Manager

definition set_wpc :: "nat \<Rightarrow> dist_pc \<Rightarrow> dist_state \<Rightarrow> dist_state" where
  "set_wpc a pc s = s\<lparr>dmgr := (dmgr s)\<lparr>mworkers := fmupd a pc (mworkers (dmgr s))\<rparr>\<rparr>"

definition set_queue :: "nat \<Rightarrow> DistQueue \<Rightarrow> dist_state \<Rightarrow> dist_state" where
  "set_queue a q s = s\<lparr>dmgr := (dmgr s)\<lparr>mheap := fmupd a q (mheap (dmgr s))\<rparr>\<rparr>"

definition stopped :: "nat \<Rightarrow> Manager \<Rightarrow> bool" where
  "stopped a m = (case fmlookup (mstop m) a of None \<Rightarrow> False | Some c \<Rightarrow> c |\<in>| mclosed m)"

text \<open>
  One step of the worker of the queue at \<open>a\<close> (\<open>Run\<close> and \<open>Process\<close>). An acknowledgement is
  proposed through raft; \<open>pick\<close> is the choice of \<open>select\<close> between two ready channels.
\<close>

definition dist_worker :: "http \<Rightarrow> order \<Rightarrow> raft \<Rightarrow> bool \<Rightarrow> nat \<Rightarrow> dist_state \<Rightarrow> dist_state option" where
  "dist_worker http ord raft pick a s =
     (case (fmlookup (mheap (dmgr s)) a, fmlookup (mworkers (dmgr s)) a) of
        (Some q, Some WCheck) \<Rightarrow> Some (set_wpc a (if stopped a (dmgr s) then WExit else WPop) s)
      | (Some q, Some WPop) \<Rightarrow> do {
          (r, q') \<leftarrow> dist_Pop q;
          Some (set_wpc a (case r of
              None \<Rightarrow> WSelect
            | Some msg \<Rightarrow> if maplen (qm_PendingSubs msg) = 0 then WDone (qmMsgID msg) else WSend msg)
            (set_queue a q' s))
        }
      | (Some q, Some (WSend msg)) \<Rightarrow>
          (let (msg', finished) = dist_collect (qm_PendingSubs msg) (dist_results http ord msg) msg []
           in Some (set_wpc a (WFinish msg' (sort finished)) s))
      | (Some q, Some (WFinish msg finished)) \<Rightarrow>
          Some (set_wpc a (if stopped a (dmgr s) then WCheck
            else if finished = [] then WAfter msg else WAck msg finished) s)
      | (Some q, Some (WAck msg finished)) \<Rightarrow>
          (case node_Ack raft (dqName q) (qmMsgID msg) finished (dstore s) of
             (store', Some _) \<Rightarrow> do {
               q' \<leftarrow> dist_Add msg q;
               Some (set_wpc a WCheck (set_queue a q' (s\<lparr>dstore := store'\<rparr>)))
             }
           | (store', None) \<Rightarrow>
               Some (set_wpc a (WAfter (msg\<lparr>qmAcked := qmAcked msg |\<union>| fset_of_list finished\<rparr>)) (s\<lparr>dstore := store'\<rparr>)))
      | (Some q, Some (WAfter msg)) \<Rightarrow>
          if qm_Done msg then Some (set_wpc a (WDone (qmMsgID msg)) s)
          else do { q' \<leftarrow> dist_Add msg q; Some (set_wpc a WCheck (set_queue a q' s)) }
      | (Some q, Some (WDone msgID)) \<Rightarrow> Some (set_wpc a WCheck (s\<lparr>dmgr := forget msgID (dmgr s)\<rparr>))
      | (Some q, Some WSelect) \<Rightarrow>
          if dqHasWork q \<and> (pick \<or> \<not> stopped a (dmgr s))
          then Some (set_wpc a WCheck (set_queue a (q\<lparr>dqHasWork := False\<rparr>) s))
          else if stopped a (dmgr s) then Some (set_wpc a WExit s)
          else Some s
      | _ \<Rightarrow> Some s)"

end
