(* ===== verification/Dist_Server.thy ===== *)
theory Dist_Server
  imports Dist_Delivery
begin

text \<open>
  \<open>dist-mq/server\<close> and the flag parser of \<open>dist-mq/main.go\<close>: the HTTP layer over the raft node, the
  local store and the delivery manager.
\<close>

section \<open>Responses\<close>

text \<open>A status code, the address sent with a 421, and whether \<open>Retry-After\<close> is set.\<close>

record response =
  rstatus :: nat
  leaderHeader :: "string option"
  retryAfter :: bool

definition plain :: "nat \<Rightarrow> response" where
  "plain c = \<lparr>rstatus = c, leaderHeader = None, retryAfter = False\<rparr>"

definition writeError :: "node_error \<Rightarrow> response" where
  "writeError e =
     (case e of
        StoreError ErrQueueNotFound \<Rightarrow> plain 404
      | StoreError ErrQueueExists \<Rightarrow> plain 409
      | _ \<Rightarrow> (plain 503)\<lparr>retryAfter := True\<rparr>)"

text \<open>What raft says about leadership, and where the peers listen.\<close>

record cluster =
  IsLeader :: bool
  leaderId :: string
  peerHTTP :: "(string, string) fmap"

definition requireLeader :: "cluster \<Rightarrow> (dist_state \<Rightarrow> (dist_state \<times> response) option) \<Rightarrow>
    dist_state \<Rightarrow> (dist_state \<times> response) option" where
  "requireLeader cl handler s =
     (if IsLeader cl then handler s
      else case LeaderID (leaderId cl) of
        None \<Rightarrow> Some (s, (plain 503)\<lparr>retryAfter := True\<rparr>)
      | Some i \<Rightarrow> Some (s, (plain 421)\<lparr>leaderHeader := fmlookup (peerHTTP cl) i\<rparr>))"

definition on_node :: "nat \<Rightarrow> (InMemoryStorage \<Rightarrow> node_result) \<Rightarrow> dist_state \<Rightarrow> (dist_state \<times> response) option" where
  "on_node ok f s =
     (let (store', e) = f (dstore s) in
      Some (s\<lparr>dstore := store'\<rparr>, case e of None \<Rightarrow> plain ok | Some err \<Rightarrow> writeError err))"

section \<open>Handlers\<close>

definition json_MessageInfo :: "MessageInfo \<Rightarrow> json" where
  "json_MessageInfo m = JObj
     [(''MsgId'', JStr (miMsgID m)), (''Payload'', JStr (miPayload m)),
      (''SubList'', json_map json_SubPolicy (miSubList m)), (''AckedSubs'', JArr (map JStr (miAckedSubs m)))]"

definition json_DistQueueInfo :: "DistQueueInfo \<Rightarrow> json" where
  "json_DistQueueInfo q = JObj
     [(''Name'', JStr (diName q)), (''SubPolicies'', json_map json_SubPolicy (diSubs q)),
      (''Messages'', JArr (map json_MessageInfo (diMessages q)))]"

definition dist_HandleListQueues :: "order \<Rightarrow> dist_state \<Rightarrow> nat \<times> bytes" where
  "dist_HandleListQueues ord s =
     (200, print_json (JArr (map json_DistQueueInfo (st_AllQueueInfo ord (dstore s)))) @ [CHR 0x0A])"

definition dist_HandleQueueCreation :: "raft \<Rightarrow> string \<Rightarrow> dist_state \<Rightarrow> (dist_state \<times> response) option" where
  "dist_HandleQueueCreation raft queueName = on_node 201 (node_CreateQueue raft queueName)"

definition dist_HandleQueueDeletion :: "raft \<Rightarrow> string \<Rightarrow> dist_state \<Rightarrow> (dist_state \<times> response) option" where
  "dist_HandleQueueDeletion raft queueName = on_node 204 (node_DeleteQueue raft queueName)"

text \<open>The identifier comes from \<open>google/uuid\<close>, before the entry is proposed.\<close>

definition dist_HandleEnqueue :: "raft \<Rightarrow> string \<Rightarrow> string \<Rightarrow> string option \<Rightarrow> dist_state \<Rightarrow> (dist_state \<times> response) option" where
  "dist_HandleEnqueue raft uuid queueName body s =
     (case body of
        None \<Rightarrow> Some (s, plain 400)
      | Some b \<Rightarrow>
          (case FetchSubList queueName (dstore s) of
             None \<Rightarrow> Some (s, writeError (StoreError ErrQueueNotFound))
           | Some subList \<Rightarrow>
               (case node_Enqueue raft queueName (queueName @ ''-'' @ uuid) b subList (dstore s) of
                  (store', Inl e) \<Rightarrow> Some (s\<lparr>dstore := store'\<rparr>, writeError e)
                | (store', Inr msg) \<Rightarrow> do {
                    m \<leftarrow> Schedule queueName msg (dmgr s);
                    Some (s\<lparr>dstore := store', dmgr := m\<rparr>, plain 202)
                  })))"

definition decodeSubPolicy :: "string option \<Rightarrow> SubPolicy option" where
  "decodeSubPolicy body = (case body of None \<Rightarrow> None | Some b \<Rightarrow> DecodeSubPolicy b)"

definition dist_HandleSubPolicyCreation :: "raft \<Rightarrow> string \<Rightarrow> string option \<Rightarrow> dist_state \<Rightarrow> (dist_state \<times> response) option" where
  "dist_HandleSubPolicyCreation raft queueName body s =
     (case decodeSubPolicy body of
        None \<Rightarrow> Some (s, plain 400)
      | Some policy \<Rightarrow> on_node 201 (node_PutSubPolicy raft queueName policy) s)"

definition dist_HandleSubPolicyUpdate :: "raft \<Rightarrow> string \<Rightarrow> string \<Rightarrow> string option \<Rightarrow> dist_state \<Rightarrow> (dist_state \<times> response) option" where
  "dist_HandleSubPolicyUpdate raft queueName subName body s =
     (case decodeSubPolicy body of
        None \<Rightarrow> Some (s, plain 400)
      | Some policy \<Rightarrow> on_node 200 (node_PutSubPolicy raft queueName (policy\<lparr>SubName := subName\<rparr>)) s)"

definition dist_HandleSubPolicyDeletion :: "raft \<Rightarrow> string \<Rightarrow> string \<Rightarrow> dist_state \<Rightarrow> (dist_state \<times> response) option" where
  "dist_HandleSubPolicyDeletion raft queueName subName = on_node 204 (node_DeleteSubPolicy raft queueName subName)"

section \<open>The list of peers\<close>

text \<open>\<open>parsePeers\<close>: \<open>id=raftAddr=httpBaseURL\<close>, comma separated; \<open>None\<close> is the error.\<close>

fun parse_entries :: "string list \<Rightarrow> Peer list \<Rightarrow> (string, string) fmap \<Rightarrow> (Peer list \<times> (string, string) fmap) option" where
  "parse_entries [] peers http = Some (peers, http)"
| "parse_entries (entry # rest) peers http =
     (let e = TrimSpace entry in
      if e = '''' then parse_entries rest peers http
      else case Split (CHR ''='') e of
        [i, raftAddr, url] \<Rightarrow>
          parse_entries rest (peers @ [\<lparr>peerID = i, peerAddress = raftAddr\<rparr>]) (fmupd i url http)
      | _ \<Rightarrow> None)"

definition parsePeers :: "string \<Rightarrow> (Peer list \<times> (string, string) fmap) option" where
  "parsePeers raw =
     (if TrimSpace raw = '''' then Some ([], fmempty)
      else parse_entries (Split (CHR '','') raw) [] fmempty)"

end
