(* ===== verification/Dist_Manager.thy ===== *)
theory Dist_Manager
  imports Dist_Server
begin

text \<open>
  The delivery manager of \<open>dist-mq\<close> in operation: leadership changes, scheduling and the steps of
  the workers of all terms interleaved in any way, with any answers from raft and from the
  subscribers.
\<close>

section \<open>The queue that clears its slots\<close>

lemma ring_slots_tl_clear:
  assumes "0 < qcount q" "qhead q < length (qbuf q)" "qcount q \<le> length (qbuf q)"
  shows "ring_slots (q\<lparr>qbuf := (qbuf q)[qhead q := None], qhead := (qhead q + 1) mod length (qbuf q), qcount := qcount q - 1\<rparr>)
    = tl (ring_slots q)"
proof -
  let ?n = "length (qbuf q)"
  have ne: "qhead q \<noteq> (qhead q + Suc i) mod ?n" if "i < qcount q - 1" for i
    using that assms by (simp add: wrapped_index [of _ _ _ "qcount q"] del: add_Suc_right) arith
  have "ring_slots (q\<lparr>qbuf := (qbuf q)[qhead q := None], qhead := (qhead q + 1) mod ?n, qcount := qcount q - 1\<rparr>)
    = ring_slots (q\<lparr>qhead := (qhead q + 1) mod ?n, qcount := qcount q - 1\<rparr>)"
    using ne by (auto simp: ring_slots_def mod_simps)
  then show ?thesis using ring_slots_tl [OF assms(1,2)] by simp
qed

lemma dist_Pop_Nil: "ring_contents q = [] \<Longrightarrow> dist_Pop q = Some (None, q)"
  by (metis dist_Pop_def length_ring_contents list.size(3))

lemma dist_Pop_Cons:
  assumes "ring_inv q" "ring_contents q = x # xs"
  shows "\<exists>q'. dist_Pop q = Some (Some x, q') \<and> ring_inv q' \<and> ring_contents q' = xs \<and> ring.more q' = ring.more q"
proof -
  let ?q1 = "q\<lparr>qbuf := (qbuf q)[qhead q := None], qhead := (qhead q + 1) mod length (qbuf q), qcount := qcount q - 1\<rparr>"
  have c: "0 < qcount q" using assms(2) by (metis length_Cons length_ring_contents zero_less_Suc)
  have h: "qhead q < length (qbuf q)" "0 < length (qbuf q)" and r: "qcount q < length (qbuf q)"
    using assms(1) by (auto simp: ring_inv_def)
  have h': "Suc (qhead q) mod length (qbuf q) < length (qbuf q)"
    using h(2) by (rule mod_less_divisor)
  have slots: "ring_slots ?q1 = map Some xs"
    using ring_slots_tl_clear [OF c h(1) less_imp_le [OF r]] ring_inv_slots [OF assms(1)] assms(2) by simp
  have hd: "qbuf q ! qhead q = Some x"
    using ring_slots_hd [OF c h(1)] ring_inv_slots [OF assms(1)] assms(2) by simp
  show ?thesis
  proof (cases "(qcount q - 1) * 4 \<le> length (qbuf q)")
    case True
    then have pop: "dist_Pop q = map_option (\<lambda>q2. (Some x, q2)) (compact ?q1)"
      using c h hd by (auto simp: dist_Pop_def Let_def slice_simps split: bind_splits)
    have room: "qcount q - 1 < max (length (qbuf q) div 2) initialCapacity"
      using assms(1) True c by (auto simp: ring_inv_def initialCapacity_def)
    obtain q' where "compact ?q1 = Some q'" "ring_slots q' = ring_slots ?q1"
      "qcount q' = qcount q - 1" "length (qbuf q') = max (length (qbuf q) div 2) initialCapacity"
      "qhead q' = 0" "ring.more q' = ring.more q"
      using compact_slots [of ?q1] r room h' by force
    then show ?thesis
      using assms(1) slots ring_contents_Some [of q' xs] room pop c
      by (auto simp: ring_inv_def initialCapacity_def max_def)
  next
    case False
    then have "dist_Pop q = Some (Some x, ?q1)"
      using c h hd by (auto simp: dist_Pop_def Let_def slice_simps)
    then show ?thesis
      using assms(1) slots ring_contents_Some [OF slots] False c h'
      by (auto simp: ring_inv_def)
  qed
qed

lemma dist_upd [simp]:
  "ring_inv (q\<lparr>dqHasWork := w\<rparr>) = ring_inv q" "ring_contents (q\<lparr>dqHasWork := w\<rparr>) = ring_contents q"
  by (simp_all add: ring_inv_def ring_contents_def ring_slots_def)

lemma dist_more:
  "ring.more q' = ring.more q \<Longrightarrow> dqHasWork q' = dqHasWork q \<and> dqName q' = dqName q"
  by (cases q; cases q') simp

lemma dist_Add_ok:
  assumes "ring_inv q"
  obtains q' where "dist_Add x q = Some q'" "ring_inv q'" "ring_contents q' = ring_contents q @ [x]" "dqHasWork q'" "dqName q' = dqName q"
proof -
  obtain q1 where "Add x q = Some q1" "ring_inv q1" "ring_contents q1 = ring_contents q @ [x]" "ring.more q1 = ring.more q"
    using Add_contents [OF assms] by blast
  then show ?thesis using that [of "q1\<lparr>dqHasWork := True\<rparr>"] dist_more [of q1 q] by (simp add: dist_Add_def)
qed

lemma dist_NewQueue_inv [simp]: "ring_inv (dist_NewQueue n)" "ring_contents (dist_NewQueue n) = []"
  by (simp_all add: dist_NewQueue_def ring_inv_def ring_contents_def ring_slots_def initialCapacity_def)

lemma dist_Pop_ok:
  assumes "ring_inv q"
  obtains r q' where "dist_Pop q = Some (r, q')" "ring_inv q'" "ring_contents q' = tl (ring_contents q)"
    "r = (case ring_contents q of [] \<Rightarrow> None | m # _ \<Rightarrow> Some m)" "dqHasWork q' = dqHasWork q" "dqName q' = dqName q"
proof (cases "ring_contents q")
  case Nil
  then show ?thesis using that [of None q] dist_Pop_Nil [of q] assms by simp
next
  case (Cons m ms)
  obtain q' where q': "dist_Pop q = Some (Some m, q')" "ring_inv q'" "ring_contents q' = ms" "ring.more q' = ring.more q"
    using dist_Pop_Cons [OF assms Cons] by blast
  show ?thesis using that [OF q'(1,2)] q'(3) Cons dist_more [OF q'(4)] by simp
qed

interpretation dist: fifo dist_Add dist_Pop ring_inv ring_contents
proof unfold_locales
  fix q :: DistQueue and x :: DistMsg and xs :: "DistMsg list"
  assume inv: "ring_inv q"
  show "\<exists>q'. dist_Add x q = Some q' \<and> ring_inv q' \<and> ring_contents q' = ring_contents q @ [x]"
    using dist_Add_ok [OF inv] by metis
  show "dist_Pop q = Some (None, q)" if "ring_contents q = []"
    using that by (rule dist_Pop_Nil)
  show "\<exists>q'. dist_Pop q = Some (Some x, q') \<and> ring_inv q' \<and> ring_contents q' = xs" if "ring_contents q = x # xs"
    using dist_Pop_Cons [OF inv that] by blast
qed

section \<open>The invariant\<close>

definition wcell_ok :: "DistQueue \<Rightarrow> dist_pc \<Rightarrow> bool" where
  "wcell_ok q w \<longleftrightarrow> ring_inv q \<and> (w = WSelect \<longrightarrow> ring_contents q \<noteq> [] \<longrightarrow> dqHasWork q)"

text \<open>Every queue has a worker with a stop channel; a worker exits only if its channel is closed.\<close>

definition wheap_ok :: "Manager \<Rightarrow> nat \<Rightarrow> bool" where
  "wheap_ok m a \<longleftrightarrow>
     (case (fmlookup (mheap m) a, fmlookup (mworkers m) a, fmlookup (mstop m) a) of
        (None, None, None) \<Rightarrow> True
      | (Some q, Some w, Some c) \<Rightarrow> a < mnext m \<and> c < mnext m \<and> wcell_ok q w \<and> (w = WExit \<longrightarrow> c |\<in>| mclosed m)
      | _ \<Rightarrow> False)"

text \<open>
  The channel of the current term is open, and the queues in the table belong to it.
\<close>

definition mgr_inv :: "Manager \<Rightarrow> bool" where
  "mgr_inv m \<longleftrightarrow> (\<forall>a. wheap_ok m a) \<and> (\<forall>c. stopCh m = Some c \<longrightarrow> c |\<notin>| mclosed m \<and> c < mnext m) \<and>
     (\<forall>c. c |\<in>| mclosed m \<longrightarrow> c < mnext m) \<and>
     (\<forall>n a. fmlookup (mqueues m) n = Some a \<longrightarrow>
        (\<exists>q. fmlookup (mheap m) a = Some q \<and> dqName q = n) \<and> stopCh m \<noteq> None \<and> fmlookup (mstop m) a = stopCh m)"

lemma mgr_inv_cell:
  assumes "mgr_inv m" "fmlookup (mheap m) a = Some q"
  obtains w c where "fmlookup (mworkers m) a = Some w" "fmlookup (mstop m) a = Some c" "wcell_ok q w" "a < mnext m" "c < mnext m"
    "w = WExit \<longrightarrow> c |\<in>| mclosed m"
proof -
  have "wheap_ok m a" using assms(1) by (simp add: mgr_inv_def)
  with assms(2) show ?thesis by (auto simp: wheap_ok_def split: option.splits intro: that)
qed

lemma mgr_invI:
  assumes "\<And>a. wheap_ok m a" "\<And>c. stopCh m = Some c \<Longrightarrow> c |\<notin>| mclosed m \<and> c < mnext m"
    "\<And>c. c |\<in>| mclosed m \<Longrightarrow> c < mnext m"
    "\<And>n a. fmlookup (mqueues m) n = Some a \<Longrightarrow>
        (\<exists>q. fmlookup (mheap m) a = Some q \<and> dqName q = n) \<and> stopCh m \<noteq> None \<and> fmlookup (mstop m) a = stopCh m"
  shows "mgr_inv m"
  using assms unfolding mgr_inv_def by blast

lemma mgr_invD:
  assumes "mgr_inv m"
  shows "wheap_ok m a" "stopCh m = Some c \<Longrightarrow> c |\<notin>| mclosed m \<and> c < mnext m" "c |\<in>| mclosed m \<Longrightarrow> c < mnext m"
    "fmlookup (mqueues m) n = Some a \<Longrightarrow>
        (\<exists>q. fmlookup (mheap m) a = Some q \<and> dqName q = n) \<and> stopCh m \<noteq> None \<and> fmlookup (mstop m) a = stopCh m"
  using assms unfolding mgr_inv_def by blast+

lemma wheap_mono:
  assumes "wheap_ok m a" "fmlookup (mheap m') a = fmlookup (mheap m) a" "fmlookup (mworkers m') a = fmlookup (mworkers m) a"
    "fmlookup (mstop m') a = fmlookup (mstop m) a" "mnext m \<le> mnext m'" "mclosed m |\<subseteq>| mclosed m'"
  shows "wheap_ok m' a"
  using assms by (fastforce simp: wheap_ok_def split: option.splits)

lemma mgr_inv_new: "mgr_inv NewManager"
  by (rule mgr_invI) (simp_all add: NewManager_def wheap_ok_def)

text \<open>An operation on one queue and its worker.\<close>

lemma mgr_inv_upd:
  assumes "mgr_inv m" "fmlookup (mheap m) a = Some q" "wcell_ok q' w'" "dqName q' = dqName q" "w' = WExit \<longrightarrow> stopped a m"
  shows "mgr_inv (m\<lparr>mheap := fmupd a q' (mheap m), mworkers := fmupd a w' (mworkers m)\<rparr>)"
proof (rule mgr_invI)
  let ?m = "m\<lparr>mheap := fmupd a q' (mheap m), mworkers := fmupd a w' (mworkers m)\<rparr>"
  fix b
  obtain w c where w: "fmlookup (mstop m) a = Some c" "a < mnext m" "c < mnext m" by (rule mgr_inv_cell [OF assms(1,2)])
  show "wheap_ok ?m b"
  proof (cases "b = a")
    case True
    then show ?thesis using w assms(3,5) by (simp add: wheap_ok_def stopped_def)
  next
    case False
    then show ?thesis using wheap_mono [OF mgr_invD(1) [OF assms(1)], of ?m b] by simp
  qed
next
  fix n b assume "fmlookup (mqueues (m\<lparr>mheap := fmupd a q' (mheap m), mworkers := fmupd a w' (mworkers m)\<rparr>)) n = Some b"
  then show "(\<exists>r. fmlookup (mheap (m\<lparr>mheap := fmupd a q' (mheap m), mworkers := fmupd a w' (mworkers m)\<rparr>)) b = Some r \<and> dqName r = n) \<and>
      stopCh (m\<lparr>mheap := fmupd a q' (mheap m), mworkers := fmupd a w' (mworkers m)\<rparr>) \<noteq> None \<and>
      fmlookup (mstop (m\<lparr>mheap := fmupd a q' (mheap m), mworkers := fmupd a w' (mworkers m)\<rparr>)) b =
      stopCh (m\<lparr>mheap := fmupd a q' (mheap m), mworkers := fmupd a w' (mworkers m)\<rparr>)"
    using mgr_invD(4) [OF assms(1), of n b] assms(2,4) by (cases "b = a") auto
qed (use mgr_invD(2,3) [OF assms(1)] in simp_all)

lemma mgr_inv_upd_heap:
  assumes "mgr_inv m" "fmlookup (mheap m) a = Some q" "fmlookup (mworkers m) a = Some w" "wcell_ok q' w" "dqName q' = dqName q"
  shows "mgr_inv (m\<lparr>mheap := fmupd a q' (mheap m)\<rparr>)"
proof -
  have "w = WExit \<longrightarrow> stopped a m"
    using mgr_inv_cell [OF assms(1,2)] assms(3) by (force simp: stopped_def)
  from mgr_inv_upd [OF assms(1,2,4,5) this] show ?thesis using assms(3) by (simp add: fmupd_same)
qed

lemma mgr_inv_upd_worker:
  assumes "mgr_inv m" "fmlookup (mheap m) a = Some q" "wcell_ok q w'" "w' = WExit \<longrightarrow> stopped a m"
  shows "mgr_inv (m\<lparr>mworkers := fmupd a w' (mworkers m)\<rparr>)"
  using mgr_inv_upd [OF assms(1-3) refl assms(4)] assms(2) by (simp add: fmupd_same)

lemma mgr_inv_inflight [simp]: "mgr_inv (m\<lparr>inFlightMsgs := x\<rparr>) = mgr_inv m"
proof -
  have "wheap_ok (m\<lparr>inFlightMsgs := x\<rparr>) a = wheap_ok m a" for a
    using wheap_mono [of m a "m\<lparr>inFlightMsgs := x\<rparr>"] wheap_mono [of "m\<lparr>inFlightMsgs := x\<rparr>" a m] by auto
  then show ?thesis by (simp add: mgr_inv_def)
qed

section \<open>Every operation keeps the invariant and none panics\<close>

lemma queueFor_ok:
  assumes "mgr_inv m" "stopCh m = Some c"
  obtains a m1 where "queueFor n c m = (a, m1)" "mgr_inv m1" "fmlookup (mqueues m1) n = Some a" "stopCh m1 = Some c"
    "inFlightMsgs m1 = inFlightMsgs m"
proof (cases "fmlookup (mqueues m) n")
  case (Some a)
  then show ?thesis using that [of a m] assms by (simp add: queueFor_def)
next
  case None
  let ?a = "mnext m"
  let ?m = "m\<lparr>mqueues := fmupd n ?a (mqueues m), mheap := fmupd ?a (dist_NewQueue n) (mheap m),
    mworkers := fmupd ?a WCheck (mworkers m), mstop := fmupd ?a c (mstop m), mnext := ?a + 1\<rparr>"
  have c: "c |\<notin>| mclosed m" "c < mnext m" using mgr_invD(2) [OF assms] by simp_all
  have cell: "wcell_ok (dist_NewQueue n) WCheck" "dqName (dist_NewQueue n) = n"
    by (simp add: wcell_ok_def) (simp add: dist_NewQueue_def)
  have fresh: "fmlookup (mheap m) ?a = None"
    using mgr_invD(1) [OF assms(1), of ?a] by (auto simp: wheap_ok_def split: option.splits)
  have "mgr_inv ?m"
  proof (rule mgr_invI)
    fix b
    show "wheap_ok ?m b"
    proof (cases "b = ?a")
      case True
      then show ?thesis using cell(1) c by (simp add: wheap_ok_def)
    next
      case False
      then show ?thesis using wheap_mono [OF mgr_invD(1) [OF assms(1)], of ?m b] by simp
    qed
  next
    fix k b assume k: "fmlookup (mqueues ?m) k = Some b"
    show "(\<exists>q. fmlookup (mheap ?m) b = Some q \<and> dqName q = k) \<and> stopCh ?m \<noteq> None \<and> fmlookup (mstop ?m) b = stopCh ?m"
    proof (cases "k = n")
      case True
      then show ?thesis using k cell(2) assms(2) by simp
    next
      case False
      then have "fmlookup (mqueues m) k = Some b" using k by simp
      then show ?thesis using mgr_invD(4) [OF assms(1), of k b] fresh by auto
    qed
  next
    fix d assume "d |\<in>| mclosed ?m"
    then show "d < mnext ?m" using mgr_invD(3) [OF assms(1), of d] by simp
  qed (use c assms(2) in simp)
  then show ?thesis using that [of ?a ?m] None assms(2) by (simp add: queueFor_def Let_def)
qed

lemma Schedule_ok:
  assumes "mgr_inv m"
  shows "\<exists>m'. Schedule n msg m = Some m' \<and> mgr_inv m' \<and> stopCh m' = stopCh m"
proof (cases "stopCh m = None \<or> miMsgID msg |\<in>| inFlightMsgs m \<or> maplen (mi_PendingSubs msg) = 0")
  case True
  then show ?thesis using assms by (auto simp: Schedule_def split: option.split)
next
  case False
  then obtain c where c: "stopCh m = Some c" by auto
  let ?m = "m\<lparr>inFlightMsgs := finsert (miMsgID msg) (inFlightMsgs m)\<rparr>"
  have "mgr_inv ?m" "stopCh ?m = Some c" using assms c by simp_all
  then obtain a m1 where m1: "queueFor n c ?m = (a, m1)" "mgr_inv m1" "fmlookup (mqueues m1) n = Some a" "stopCh m1 = Some c"
    by (rule queueFor_ok)
  obtain q where q: "fmlookup (mheap m1) a = Some q" using mgr_invD(4) [OF m1(2,3)] by blast
  obtain w where w: "fmlookup (mworkers m1) a = Some w" "wcell_ok q w" by (rule mgr_inv_cell [OF m1(2) q])
  have "ring_inv q" using w(2) by (simp add: wcell_ok_def)
  then obtain q' where q': "dist_Add (dist_NewQueueMsg msg) q = Some q'" "ring_inv q'" "dqHasWork q'" "dqName q' = dqName q"
    by (rule dist_Add_ok)
  have "wcell_ok q' w" using q'(2,3) by (simp add: wcell_ok_def)
  from mgr_inv_upd_heap [OF m1(2) q w(1) this q'(4)] show ?thesis
    using False c m1(1,4) q q'(1) by (simp add: Schedule_def)
qed

lemma schedule_all_ok:
  assumes "mgr_inv m"
  shows "\<exists>m'. schedule_all msgs m = Some m' \<and> mgr_inv m'"
  using assms
proof (induction msgs arbitrary: m)
  case (Cons p msgs)
  obtain n msg where p: "p = (n, msg)" by (cases p)
  obtain m1 where "Schedule n msg m = Some m1" "mgr_inv m1" using Schedule_ok [OF Cons.prems] by blast
  then show ?case using Cons.IH p by simp
qed simp

lemma demote_ok:
  assumes "mgr_inv m"
  shows "\<exists>m'. demote m = Some m' \<and> mgr_inv m' \<and> stopCh m' = None"
proof (cases "stopCh m")
  case None
  then show ?thesis using assms by (simp add: demote_def)
next
  case (Some c)
  let ?m = "m\<lparr>mclosed := finsert c (mclosed m), stopCh := None, mqueues := fmempty, inFlightMsgs := {||}\<rparr>"
  have c: "c |\<notin>| mclosed m" "c < mnext m" using mgr_invD(2) [OF assms Some] by simp_all
  have "mgr_inv ?m"
  proof (rule mgr_invI)
    fix b
    show "wheap_ok ?m b" using wheap_mono [OF mgr_invD(1) [OF assms], of ?m b] by auto
  next
    fix d assume "d |\<in>| mclosed ?m"
    then show "d < mnext ?m" using c mgr_invD(3) [OF assms, of d] by auto
  qed simp_all
  then show ?thesis using Some c by (simp add: demote_def)
qed

lemma open_term_ok:
  assumes "mgr_inv m" "stopCh m = None"
  shows "mgr_inv (open_term m)"
proof (rule mgr_invI)
  fix b
  show "wheap_ok (open_term m) b" using wheap_mono [OF mgr_invD(1) [OF assms(1)], of "open_term m" b] by (simp add: open_term_def)
next
  fix c assume "stopCh (open_term m) = Some c"
  then show "c |\<notin>| mclosed (open_term m) \<and> c < mnext (open_term m)"
    using mgr_invD(3) [OF assms(1), of "mnext m"] by (auto simp: open_term_def)
next
  fix c assume "c |\<in>| mclosed (open_term m)"
  then show "c < mnext (open_term m)" using mgr_invD(3) [OF assms(1), of c] by (simp add: open_term_def)
next
  fix n a assume "fmlookup (mqueues (open_term m)) n = Some a"
  then show "(\<exists>q. fmlookup (mheap (open_term m)) a = Some q \<and> dqName q = n) \<and> stopCh (open_term m) \<noteq> None \<and>
      fmlookup (mstop (open_term m)) a = stopCh (open_term m)"
    using mgr_invD(4) [OF assms(1), of n a] assms(2) by (simp add: open_term_def)
qed

lemma promote_ok:
  assumes "mgr_inv m"
  shows "\<exists>m' done. promote ord barrier store m = Some (m', done) \<and> mgr_inv m'"
proof -
  obtain m1 where m1: "demote m = Some m1" "mgr_inv m1" "stopCh m1 = None" using demote_ok [OF assms] by blast
  obtain m2 where "schedule_all (sweep_reads ord store) (open_term m1) = Some m2" "mgr_inv m2"
    using schedule_all_ok [OF open_term_ok [OF m1(2,3)]] by blast
  then show ?thesis using m1 by (cases barrier) (auto simp: promote_def sweep_def)
qed

lemma promote_loop_ok: "mgr_inv m \<Longrightarrow> \<exists>m'. promote_loop ord as store m = Some m' \<and> mgr_inv m'"
proof (induction ord as store m rule: promote_loop.induct)
  case (2 ord leads barrier rest store m)
  obtain m' d where p: "promote ord barrier store m = Some (m', d)" "mgr_inv m'" using promote_ok [OF "2.prems"] by blast
  then show ?case using "2.IH" [of "(m', d)" m' d] "2.prems" by (cases leads; cases d) auto
qed simp

lemma manager_Run_ok: "mgr_inv m \<Longrightarrow> \<exists>m'. manager_Run ord attempts leader store m = Some m' \<and> mgr_inv m'"
  using promote_loop_ok [of m ord "map attempts [0..<promoteAttempts]" store] demote_ok [of m]
  by (auto simp: manager_Run_def promoteWithRetry_def)

lemma forget_ok: "mgr_inv (forget i m) = mgr_inv m"
  by (simp add: forget_def)

lemma set_wpc_inv:
  assumes "mgr_inv (dmgr s)" "fmlookup (mheap (dmgr s)) a = Some q" "wcell_ok q w" "w = WExit \<longrightarrow> stopped a (dmgr s)"
  shows "mgr_inv (dmgr (set_wpc a w s))"
  using mgr_inv_upd_worker [OF assms] by (simp add: set_wpc_def)

lemma set_both_inv:
  assumes "mgr_inv (dmgr s)" "fmlookup (mheap (dmgr s)) a = Some q" "wcell_ok q' w" "dqName q' = dqName q" "w \<noteq> WExit"
  shows "mgr_inv (dmgr (set_wpc a w (set_queue a q' s)))"
  using mgr_inv_upd [OF assms(1-4)] assms(5) by (simp add: set_wpc_def set_queue_def)

lemma set_queue_add:
  assumes "mgr_inv (dmgr s)" "fmlookup (mheap (dmgr s)) a = Some q" "wcell_ok q w"
  obtains q' where "dist_Add msg q = Some q'" "mgr_inv (dmgr (set_wpc a WCheck (set_queue a q' s)))"
    "ring_contents q' = ring_contents q @ [msg]"
proof -
  have "ring_inv q" using assms(3) by (simp add: wcell_ok_def)
  then obtain q' where q': "dist_Add msg q = Some q'" "ring_inv q'" "ring_contents q' = ring_contents q @ [msg]" "dqName q' = dqName q"
    by (rule dist_Add_ok)
  have "mgr_inv (dmgr (set_wpc a WCheck (set_queue a q' s)))"
    by (rule set_both_inv [OF assms(1,2) _ q'(4)]) (simp_all add: wcell_ok_def q'(2))
  from that [OF q'(1) this q'(3)] show ?thesis .
qed

lemma wcell_free: "wcell_ok q w \<Longrightarrow> w' \<noteq> WSelect \<Longrightarrow> wcell_ok q w'"
  by (simp add: wcell_ok_def)

lemma worker_pop_ok:
  assumes "mgr_inv (dmgr s)" "fmlookup (mheap (dmgr s)) a = Some q" "wcell_ok q w" "fmlookup (mworkers (dmgr s)) a = Some WPop"
  shows "\<exists>s'. dist_worker http ord raft pick a s = Some s' \<and> mgr_inv (dmgr s')"
proof -
  have "ring_inv q" using assms(3) by (simp add: wcell_ok_def)
  then obtain r q' where pop: "dist_Pop q = Some (r, q')" "ring_inv q'" "ring_contents q' = tl (ring_contents q)"
    "r = (case ring_contents q of [] \<Rightarrow> None | m # _ \<Rightarrow> Some m)" "dqName q' = dqName q" by (rule dist_Pop_ok)
  define w' where "w' = (case r of None \<Rightarrow> WSelect
    | Some msg \<Rightarrow> if maplen (qm_PendingSubs msg) = 0 then WDone (qmMsgID msg) else WSend msg)"
  have "wcell_ok q' w'" "w' \<noteq> WExit"
    using pop(2-4) by (auto simp: wcell_ok_def w'_def split: list.splits option.splits)
  from set_both_inv [OF assms(1,2) this(1) pop(5) this(2)] show ?thesis
    using assms(2,4) pop(1) by (simp add: dist_worker_def w'_def)
qed

lemma worker_ack_ok:
  assumes "mgr_inv (dmgr s)" "fmlookup (mheap (dmgr s)) a = Some q" "wcell_ok q w" "fmlookup (mworkers (dmgr s)) a = Some (WAck msg finished)"
  shows "\<exists>s'. dist_worker http ord raft pick a s = Some s' \<and> mgr_inv (dmgr s')"
proof -
  obtain store' e where ack: "node_Ack raft (dqName q) (qmMsgID msg) finished (dstore s) = (store', e)" by (meson surj_pair)
  let ?s = "s\<lparr>dstore := store'\<rparr>"
  have s: "mgr_inv (dmgr ?s)" "fmlookup (mheap (dmgr ?s)) a = Some q" using assms(1,2) by simp_all
  show ?thesis
  proof (cases e)
    case None
    then show ?thesis using ack assms(2,4) set_wpc_inv [OF s wcell_free [OF assms(3)]] by (simp add: dist_worker_def)
  next
    case (Some err)
    obtain q' where "dist_Add msg q = Some q'" "mgr_inv (dmgr (set_wpc a WCheck (set_queue a q' ?s)))"
      by (rule set_queue_add [OF s assms(3)])
    then show ?thesis using Some ack assms(2,4) by (simp add: dist_worker_def)
  qed
qed

lemma worker_ok:
  assumes "mgr_inv (dmgr s)"
  shows "\<exists>s'. dist_worker http ord raft pick a s = Some s' \<and> mgr_inv (dmgr s')"
proof (cases "fmlookup (mheap (dmgr s)) a")
  case None
  then show ?thesis using assms by (simp add: dist_worker_def)
next
  case (Some q)
  obtain w c where w: "fmlookup (mworkers (dmgr s)) a = Some w" "fmlookup (mstop (dmgr s)) a = Some c" "wcell_ok q w"
    by (rule mgr_inv_cell [OF assms Some])
  note free = set_wpc_inv [OF assms Some wcell_free [OF w(3)]]
  note eq = dist_worker_def Some w(1)
  show ?thesis
  proof (cases w)
    case WPop
    then show ?thesis using worker_pop_ok [OF assms Some w(3)] w(1) by simp
  next
    case (WAck msg finished)
    then show ?thesis using worker_ack_ok [OF assms Some w(3)] w(1) by simp
  next
    case WCheck
    then show ?thesis using free by (simp add: eq)
  next
    case (WSend msg)
    then show ?thesis using free by (simp add: eq split: prod.splits)
  next
    case (WFinish msg finished)
    then show ?thesis using free by (simp add: eq)
  next
    case (WAfter msg)
    obtain q' where "dist_Add msg q = Some q'" "mgr_inv (dmgr (set_wpc a WCheck (set_queue a q' s)))"
      by (rule set_queue_add [OF assms Some w(3)])
    then show ?thesis using free WAfter by (simp add: eq)
  next
    case (WDone i)
    have "mgr_inv (dmgr (s\<lparr>dmgr := forget i (dmgr s)\<rparr>))" using assms by (simp add: forget_ok)
    from set_wpc_inv [OF this _ wcell_free [OF w(3)]] show ?thesis using WDone Some by (simp add: eq forget_def)
  next
    case WSelect
    have "wcell_ok (q\<lparr>dqHasWork := False\<rparr>) WCheck" using w(3) by (simp add: wcell_ok_def)
    from set_both_inv [OF assms Some this] show ?thesis using free assms WSelect by (simp add: eq)
  next
    case WExit
    then show ?thesis using assms by (simp add: eq)
  qed
qed

section \<open>A node in operation\<close>

text \<open>A request as it is routed, with what it brings.\<close>

datatype dist_request =
    ReqCreate string | ReqDelete string | ReqEnqueue string string "string option"
  | ReqSubscribe string "string option" | ReqResubscribe string string "string option" | ReqUnsubscribe string string

definition serve :: "cluster \<Rightarrow> raft \<Rightarrow> dist_request \<Rightarrow> dist_state \<Rightarrow> (dist_state \<times> response) option" where
  "serve cl raft r =
     requireLeader cl (case r of
        ReqCreate n \<Rightarrow> dist_HandleQueueCreation raft n
      | ReqDelete n \<Rightarrow> dist_HandleQueueDeletion raft n
      | ReqEnqueue uuid n body \<Rightarrow> dist_HandleEnqueue raft uuid n body
      | ReqSubscribe n body \<Rightarrow> dist_HandleSubPolicyCreation raft n body
      | ReqResubscribe n sub body \<Rightarrow> dist_HandleSubPolicyUpdate raft n sub body
      | ReqUnsubscribe n sub \<Rightarrow> dist_HandleSubPolicyDeletion raft n sub)"

text \<open>
  What happens to a node: a request; a change of leadership; a sweep of the reconcile loop; a call of
  \<open>Schedule\<close> with a message read some time before; a step of a worker of this term or of an
  earlier one; and entries or a snapshot that raft applies. A promotion in one step is one order
  of events among others: it gives up the manager's lock after \<open>demote\<close> (which is also what \<open>Stop\<close>
  calls), again after opening the term, and between the messages its sweep schedules, and
  \<open>OnDemote\<close>, \<open>OnOpen\<close> and \<open>OnSchedule\<close> are these pieces, with anything in between.
\<close>

datatype dist_event =
    OnRequest cluster raft dist_request
  | OnLeadership order "nat \<Rightarrow> bool \<times> bool" bool
  | OnDemote
  | OnOpen
  | OnSweep order
  | OnSchedule string MessageInfo
  | OnWorker http order raft bool nat
  | OnApply nat bytes
  | OnRestore bytes

definition dist_event :: "dist_event \<Rightarrow> dist_state \<Rightarrow> dist_state option" where
  "dist_event e s =
     (case e of
        OnRequest cl raft r \<Rightarrow> map_option fst (serve cl raft r s)
      | OnLeadership ord attempts leader \<Rightarrow> map_option (\<lambda>m. s\<lparr>dmgr := m\<rparr>) (manager_Run ord attempts leader (dstore s) (dmgr s))
      | OnDemote \<Rightarrow> map_option (\<lambda>m. s\<lparr>dmgr := m\<rparr>) (demote (dmgr s))
      | OnOpen \<Rightarrow> Some (if stopCh (dmgr s) = None then s\<lparr>dmgr := open_term (dmgr s)\<rparr> else s)
      | OnSweep ord \<Rightarrow> map_option (\<lambda>m. s\<lparr>dmgr := m\<rparr>) (sweep ord (dstore s) (dmgr s))
      | OnSchedule n msg \<Rightarrow> map_option (\<lambda>m. s\<lparr>dmgr := m\<rparr>) (Schedule n msg (dmgr s))
      | OnWorker http ord raft pick a \<Rightarrow> dist_worker http ord raft pick a s
      | OnApply i entry \<Rightarrow> Some (s\<lparr>dstore := fst (Apply i entry (dstore s))\<rparr>)
      | OnRestore b \<Rightarrow> (case fsm_Restore (Some b) (dstore s) of None \<Rightarrow> Some s | Some st \<Rightarrow> Some (s\<lparr>dstore := st\<rparr>)))"

fun dist_run :: "dist_event list \<Rightarrow> dist_state \<Rightarrow> dist_state option" where
  "dist_run [] s = Some s"
| "dist_run (e # es) s = do { s' \<leftarrow> dist_event e s; dist_run es s' }"

definition dist_start :: dist_state where
  "dist_start = \<lparr>dstore = NewInMemoryStorage, dmgr = NewManager\<rparr>"

lemma on_node_total: "\<exists>s' r. on_node c f s = Some (s', r) \<and> (dmgr s' = dmgr s \<or> P s')"
  by (auto simp: on_node_def Let_def split: prod.splits)

text \<open>A handler calls \<open>Schedule\<close> at most once, and otherwise leaves the manager alone.\<close>

lemma serve_total:
  assumes "\<And>n msg. \<exists>m. Schedule n msg (dmgr s) = Some m"
  shows "\<exists>s' resp. serve cl raft r s = Some (s', resp) \<and>
    (dmgr s' = dmgr s \<or> (\<exists>n msg. Schedule n msg (dmgr s) = Some (dmgr s')))"
proof (cases "IsLeader cl")
  case False
  then show ?thesis by (auto simp: serve_def requireLeader_def split: option.split)
next
  case True
  have enq: "\<exists>s' resp. dist_HandleEnqueue raft uuid n body s = Some (s', resp) \<and>
      (dmgr s' = dmgr s \<or> (\<exists>n msg. Schedule n msg (dmgr s) = Some (dmgr s')))" for uuid n body
  proof (cases "\<exists>b subs st msg. body = Some b \<and> FetchSubList n (dstore s) = Some subs \<and>
      node_Enqueue raft n (n @ ''-'' @ uuid) b subs (dstore s) = (st, Inr msg)")
    case True
    then obtain b subs st msg where *: "body = Some b" "FetchSubList n (dstore s) = Some subs"
      "node_Enqueue raft n (n @ ''-'' @ uuid) b subs (dstore s) = (st, Inr msg)" by blast
    obtain m where m: "Schedule n msg (dmgr s) = Some m" using assms by blast
    have "dist_HandleEnqueue raft uuid n body s = Some (s\<lparr>dstore := st, dmgr := m\<rparr>, plain 202)"
      using * m by (simp add: dist_HandleEnqueue_def)
    then show ?thesis using m by (metis (mono_tags) dist_state.ext_inject dist_state.surjective dist_state.update_convs(2))
  next
    case False
    then show ?thesis by (auto simp: dist_HandleEnqueue_def split: option.split prod.split sum.split)
  qed
  show ?thesis
    by (cases r) (use True enq in \<open>simp_all add: serve_def requireLeader_def dist_HandleQueueCreation_def dist_HandleQueueDeletion_def
      dist_HandleSubPolicyCreation_def dist_HandleSubPolicyUpdate_def dist_HandleSubPolicyDeletion_def on_node_total
      del: ex_simps split: option.split\<close>)
qed

lemma dist_event_ok:
  assumes "mgr_inv (dmgr s)"
  shows "\<exists>s'. dist_event e s = Some s' \<and> mgr_inv (dmgr s')"
proof (cases e)
  case (OnRequest cl raft r)
  obtain s' resp where "serve cl raft r s = Some (s', resp)"
    "dmgr s' = dmgr s \<or> (\<exists>n msg. Schedule n msg (dmgr s) = Some (dmgr s'))"
    using serve_total [of s cl raft r] Schedule_ok [OF assms] by blast
  moreover from this have "mgr_inv (dmgr s')" using Schedule_ok [OF assms] assms by (metis option.inject)
  ultimately show ?thesis using OnRequest by (simp add: dist_event_def)
next
  case (OnLeadership ord attempts leader)
  then show ?thesis using manager_Run_ok [OF assms] by (fastforce simp: dist_event_def)
next
  case OnDemote
  then show ?thesis using demote_ok [OF assms] by (fastforce simp: dist_event_def)
next
  case OnOpen
  then show ?thesis using open_term_ok [OF assms] assms by (simp add: dist_event_def)
next
  case (OnSweep ord)
  then show ?thesis using schedule_all_ok [OF assms] by (fastforce simp: dist_event_def sweep_def)
next
  case (OnSchedule n msg)
  then show ?thesis using Schedule_ok [OF assms] by (fastforce simp: dist_event_def)
next
  case (OnWorker http ord raft pick a)
  then show ?thesis using worker_ok [OF assms] by (simp add: dist_event_def)
qed (use assms in \<open>auto simp: dist_event_def split: option.split\<close>)

lemma dist_run_ok: "mgr_inv (dmgr s) \<Longrightarrow> \<exists>s'. dist_run es s = Some s' \<and> mgr_inv (dmgr s')"
proof (induction es arbitrary: s)
  case (Cons e es)
  then show ?case using dist_event_ok [OF Cons.prems, of e] by fastforce
qed simp

lemma dist_start_inv: "mgr_inv (dmgr dist_start)"
  by (simp add: dist_start_def mgr_inv_new)

text \<open>A node that becomes the leader and schedules one message.\<close>

definition sample_info :: MessageInfo where
  "sample_info = \<lparr>miMsgID = ''q-1'', miPayload = ''hello'',
     miSubList = fmupd ''s'' \<lparr>SubName = ''s'', SubURL = ''http://s'', NumberOfRetries = 3\<rparr> fmempty, miAckedSubs = []\<rparr>"

definition sample_term :: "dist_event list" where
  "sample_term = [OnLeadership sorted_list_of_fset (\<lambda>_. (True, True)) True, OnSchedule ''q'' sample_info]"

lemmas sample_term_simps =
  sample_term_def sample_info_def dist_start_def NewInMemoryStorage_def NewManager_def dist_event_def manager_Run_def
  promoteWithRetry_def promoteAttempts_def promote_def demote_def open_term_def sweep_def sweep_reads_def QueueNames_def
  sorted_list_of_fset.rep_eq Schedule_def queueFor_def mi_PendingSubs_def upt_rec

lemma sample_term_run:
  "\<exists>s q. dist_run sample_term dist_start = Some s \<and> fmlookup (mqueues (dmgr s)) ''q'' = Some 1 \<and>
     fmlookup (mheap (dmgr s)) 1 = Some q \<and> ring_contents q = [dist_NewQueueMsg sample_info]"
proof -
  obtain q where "dist_Add (dist_NewQueueMsg sample_info) (dist_NewQueue ''q'') = Some q" "ring_contents q = [dist_NewQueueMsg sample_info]"
    using dist_Add_ok [OF dist_NewQueue_inv(1)] by (metis append_Nil dist_NewQueue_inv(2))
  then show ?thesis by (simp add: sample_term_simps)
qed

section \<open>No panic, no lost wake-up\<close>

text \<open>
  C15. Whatever a node of \<open>dist-mq\<close> is asked and however its leadership, its workers of this and of
  earlier terms and the entries of raft interleave, no operation panics (no index out of range
  and no channel closed twice). In the state reached every delivery queue has a worker; a worker that waits while its
  queue holds messages has a wake-up pending; a worker has exited only if its term is over; and
  the queues of the table belong to the term that is open now, under their own names.
\<close>

theorem dist_node_never_panics:
  "\<exists>s. dist_run es dist_start = Some s \<and>
     (\<forall>a q. fmlookup (mheap (dmgr s)) a = Some q \<longrightarrow>
        (\<exists>w. fmlookup (mworkers (dmgr s)) a = Some w \<and>
           (w = WSelect \<and> ring_contents q \<noteq> [] \<longrightarrow> dqHasWork q) \<and> (w = WExit \<longrightarrow> stopped a (dmgr s)))) \<and>
     (\<forall>n a. fmlookup (mqueues (dmgr s)) n = Some a \<longrightarrow>
        \<not> stopped a (dmgr s) \<and> map_option dqName (fmlookup (mheap (dmgr s)) a) = Some n)"
proof -
  obtain s where s: "dist_run es dist_start = Some s" and inv: "mgr_inv (dmgr s)"
    using dist_run_ok [OF dist_start_inv] by blast
  have heap: "\<exists>w. fmlookup (mworkers (dmgr s)) a = Some w \<and>
      (w = WSelect \<and> ring_contents q \<noteq> [] \<longrightarrow> dqHasWork q) \<and> (w = WExit \<longrightarrow> stopped a (dmgr s))"
    if h: "fmlookup (mheap (dmgr s)) a = Some q" for a q
  proof -
    obtain w c where "fmlookup (mworkers (dmgr s)) a = Some w" "fmlookup (mstop (dmgr s)) a = Some c" "wcell_ok q w"
      "w = WExit \<longrightarrow> c |\<in>| mclosed (dmgr s)" by (rule mgr_inv_cell [OF inv h])
    then show ?thesis by (simp add: wcell_ok_def stopped_def)
  qed
  have tab: "\<not> stopped a (dmgr s) \<and> map_option dqName (fmlookup (mheap (dmgr s)) a) = Some n"
    if h: "fmlookup (mqueues (dmgr s)) n = Some a" for n a
  proof -
    obtain q c where q: "fmlookup (mheap (dmgr s)) a = Some q" "dqName q = n" "stopCh (dmgr s) = Some c" "fmlookup (mstop (dmgr s)) a = Some c"
      using mgr_invD(4) [OF inv h] by (metis option.exhaust)
    then show ?thesis using mgr_invD(2) [OF inv q(3)] by (simp add: stopped_def)
  qed
  show ?thesis by (intro exI [of _ s] conjI allI impI s heap tab)
qed

theorem dist_node_never_panics_witness:
  "\<exists>s q w. dist_run sample_term dist_start = Some s \<and> fmlookup (mqueues (dmgr s)) ''q'' = Some 1 \<and> \<not> stopped 1 (dmgr s) \<and>
     fmlookup (mheap (dmgr s)) 1 = Some q \<and> dqName q = ''q'' \<and> ring_contents q \<noteq> [] \<and> fmlookup (mworkers (dmgr s)) 1 = Some w"
proof -
  obtain s q where s: "dist_run sample_term dist_start = Some s" "fmlookup (mqueues (dmgr s)) ''q'' = Some 1"
    "fmlookup (mheap (dmgr s)) 1 = Some q" "ring_contents q = [dist_NewQueueMsg sample_info]"
    using sample_term_run by blast
  then show ?thesis using dist_node_never_panics [of sample_term] by fastforce
qed

end
