(* ===== verification/Dist_Replica.thy ===== *)
theory Dist_Replica
  imports Dist_Storage
begin

text \<open>
  What holds of the replicated store after any log: its invariant, and that snapshots are
  complete and identical on every node, so a node restored from a snapshot is
  indistinguishable from one that applied the whole log.
\<close>

section \<open>The invariant of the store\<close>

definition find_ms :: "InMemoryStorage \<Rightarrow> string \<Rightarrow> string \<Rightarrow> messageState option" where
  "find_ms s q m = Option.bind (fmlookup (stQueues s) q) (\<lambda>qs. fmlookup (qsMessages qs) m)"

text \<open>
  Tables are keyed by the names their rows carry; every stored message is still owed to
  somebody and has a sequence number of its own, below \<open>nextSeq\<close>.
\<close>

definition queue_ok :: "string \<Rightarrow> queueState \<Rightarrow> bool" where
  "queue_ok n q \<longleftrightarrow> qsName q = n \<and> valid_utf8 n \<and> policies_text (qsSubs q)"

definition msg_ok :: "nat \<Rightarrow> string \<Rightarrow> messageState \<Rightarrow> bool" where
  "msg_ok k m ms \<longleftrightarrow> msMsgID ms = m \<and> msAcked ms |\<subset>| fmdom (msSubList ms) \<and> msSeq ms < k \<and>
     valid_utf8 m \<and> valid_utf8 (msPayload ms) \<and> policies_text (msSubList ms)"

definition storage_inv :: "InMemoryStorage \<Rightarrow> bool" where
  "storage_inv s \<longleftrightarrow>
     (\<forall>n q. fmlookup (stQueues s) n = Some q \<longrightarrow> queue_ok n q) \<and>
     (\<forall>n m ms. find_ms s n m = Some ms \<longrightarrow> msg_ok (nextSeq s) m ms) \<and>
     (\<forall>n m ms n' m' ms'. find_ms s n m = Some ms \<longrightarrow> find_ms s n' m' = Some ms' \<longrightarrow> msSeq ms = msSeq ms' \<longrightarrow>
        n = n' \<and> m = m')"

lemma storage_invD:
  assumes "storage_inv s"
  shows "fmlookup (stQueues s) n = Some q \<Longrightarrow> queue_ok n q"
    and "find_ms s n m = Some ms \<Longrightarrow> msg_ok (nextSeq s) m ms"
    and "find_ms s n m = Some ms \<Longrightarrow> find_ms s n' m' = Some ms' \<Longrightarrow> msSeq ms = msSeq ms' \<Longrightarrow> n = n' \<and> m = m'"
  using assms unfolding storage_inv_def by blast+

lemma storage_invI:
  assumes "\<And>n q. fmlookup (stQueues s) n = Some q \<Longrightarrow> queue_ok n q"
    and "\<And>n m ms. find_ms s n m = Some ms \<Longrightarrow> msg_ok (nextSeq s) m ms"
    and "\<And>n m ms n' m' ms'. find_ms s n m = Some ms \<Longrightarrow> find_ms s n' m' = Some ms' \<Longrightarrow> msSeq ms = msSeq ms' \<Longrightarrow>
      n = n' \<and> m = m'"
  shows "storage_inv s"
  using assms unfolding storage_inv_def by blast

text \<open>An operation whose messages are among those there were, with the same numbers, keeps it.\<close>

lemma storage_inv_sub:
  assumes inv: "storage_inv s" and seq: "nextSeq s \<le> nextSeq s'"
    and q: "\<And>n q. fmlookup (stQueues s') n = Some q \<Longrightarrow> queue_ok n q"
    and m: "\<And>n m ms. find_ms s' n m = Some ms \<Longrightarrow>
      \<exists>ms0. find_ms s n m = Some ms0 \<and> msSeq ms = msSeq ms0 \<and> msg_ok (nextSeq s) m ms"
  shows "storage_inv s'"
proof (rule storage_invI)
  show "queue_ok n q" if "fmlookup (stQueues s') n = Some q" for n q using q that .
  show "msg_ok (nextSeq s') m ms" if "find_ms s' n m = Some ms" for n m ms
    using m [OF that] seq by (auto simp: msg_ok_def)
  show "n = n' \<and> m = m'" if h: "find_ms s' n m = Some ms" "find_ms s' n' m' = Some ms'" "msSeq ms = msSeq ms'"
    for n m ms n' m' ms'
  proof -
    obtain a b where "find_ms s n m = Some a" "msSeq ms = msSeq a" "find_ms s n' m' = Some b" "msSeq ms' = msSeq b"
      using m [OF h(1)] m [OF h(2)] by blast
    then show ?thesis using storage_invD(3) [OF inv] h(3) by simp
  qed
qed

lemma find_ms_simps:
  "find_ms (s\<lparr>nextSeq := k\<rparr>) n m = find_ms s n m"
  "find_ms (s\<lparr>stQueues := fmdrop x (stQueues s)\<rparr>) n m = (if n = x then None else find_ms s n m)"
  "find_ms (s\<lparr>stQueues := fmupd x q (stQueues s)\<rparr>) n m =
     (if n = x then fmlookup (qsMessages q) m else find_ms s n m)"
  by (simp_all add: find_ms_def)

lemma find_ms_lookup: "fmlookup (stQueues s) n = Some q \<Longrightarrow> find_ms s n m = fmlookup (qsMessages q) m"
  by (simp add: find_ms_def)

lemma inv_CreateQueue:
  assumes "storage_inv s" "st_CreateQueue n s = Inr s'" "valid_utf8 n"
  shows "storage_inv s' \<and> nextSeq s' = nextSeq s"
proof -
  have s': "s' = s\<lparr>stQueues := fmupd n \<lparr>qsName = n, qsSubs = fmempty, qsMessages = fmempty\<rparr> (stQueues s)\<rparr>"
    using assms(2) by (simp add: st_CreateQueue_def split: if_splits)
  have "storage_inv s'"
    by (rule storage_inv_sub [OF assms(1)])
      (use storage_invD(1,2) [OF assms(1)] assms(3) in
        \<open>auto simp: s' find_ms_simps queue_ok_def split: if_splits\<close>)
  then show ?thesis by (simp add: s')
qed

lemma inv_DeleteQueue:
  assumes "storage_inv s" "st_DeleteQueue n s = Inr s'"
  shows "storage_inv s' \<and> nextSeq s' = nextSeq s"
proof -
  have s': "s' = s\<lparr>stQueues := fmdrop n (stQueues s)\<rparr>"
    using assms(2) by (simp add: st_DeleteQueue_def split: if_splits)
  have "storage_inv s'"
    by (rule storage_inv_sub [OF assms(1)])
      (use storage_invD(1,2) [OF assms(1)] in \<open>auto simp: s' find_ms_simps split: if_splits\<close>)
  then show ?thesis by (simp add: s')
qed

lemma inv_subs:
  assumes "storage_inv s" "fmlookup (stQueues s) n = Some q" "policies_text subs"
  shows "storage_inv (s\<lparr>stQueues := fmupd n (q\<lparr>qsSubs := subs\<rparr>) (stQueues s)\<rparr>)"
  by (rule storage_inv_sub [OF assms(1)])
    (use storage_invD(1,2) [OF assms(1)] assms(2,3) in
      \<open>auto simp: find_ms_simps queue_ok_def find_ms_lookup [OF assms(2), symmetric] split: if_splits\<close>)

lemma inv_PutSubPolicy:
  assumes "storage_inv s" "st_PutSubPolicy n p s = Inr s'" "policy_text p"
  shows "storage_inv s' \<and> nextSeq s' = nextSeq s"
proof -
  obtain q where q: "fmlookup (stQueues s) n = Some q"
    "s' = s\<lparr>stQueues := fmupd n (q\<lparr>qsSubs := fmupd (SubName p) p (qsSubs q)\<rparr>) (stQueues s)\<rparr>"
    using assms(2) by (auto simp: st_PutSubPolicy_def split: option.splits)
  have "policies_text (fmupd (SubName p) p (qsSubs q))"
    using storage_invD(1) [OF assms(1) q(1)] assms(3)
    by (auto simp: queue_ok_def policy_text_def intro!: policies_text_upd)
  then show ?thesis using inv_subs [OF assms(1) q(1)] by (simp add: q(2))
qed

lemma inv_DeleteSubPolicy:
  assumes "storage_inv s" "st_DeleteSubPolicy n x s = Inr s'"
  shows "storage_inv s' \<and> nextSeq s' = nextSeq s"
proof -
  obtain q where q: "fmlookup (stQueues s) n = Some q"
    "s' = s\<lparr>stQueues := fmupd n (q\<lparr>qsSubs := fmdrop x (qsSubs q)\<rparr>) (stQueues s)\<rparr>"
    using assms(2) by (auto simp: st_DeleteSubPolicy_def split: option.splits)
  have "policies_text (fmdrop x (qsSubs q))"
    using storage_invD(1) [OF assms(1) q(1)] by (simp add: queue_ok_def policies_text_drop)
  then show ?thesis using inv_subs [OF assms(1) q(1)] by (simp add: q(2))
qed

lemma mark_acked_spec:
  "mark_acked ns ms = ms\<lparr>msAcked := msAcked ms |\<union>| (fset_of_list ns |\<inter>| fmdom (msSubList ms))\<rparr>"
  by (induction ns ms rule: mark_acked.induct) (auto simp: fset_eq_iff)

lemma acked_complete:
  assumes "A |\<subseteq>| fmdom m"
  shows "fcard A \<ge> maplen m \<longleftrightarrow> A = fmdom m"
  using assms fcard_seteq [of A "fmdom m"] by (auto simp: maplen_def)

lemma find_Ack:
  assumes inv: "storage_inv s"
  shows "find_ms (st_Ack n m ns s) n' m' =
    (if n' = n \<and> m' = m then
       Option.bind (find_ms s n m) (\<lambda>ms.
         if fmdom (msSubList ms) |\<subseteq>| msAcked ms |\<union>| fset_of_list ns then None
         else Some (ms\<lparr>msAcked := msAcked ms |\<union>| (fset_of_list ns |\<inter>| fmdom (msSubList ms))\<rparr>))
     else find_ms s n' m')"
proof (cases "find_ms s n m")
  case None
  then have "st_Ack n m ns s = s"
    by (auto simp: st_Ack_def find_ms_def split: option.splits bind_splits)
  then show ?thesis using None by auto
next
  case (Some ms)
  then obtain q where q: "fmlookup (stQueues s) n = Some q" "fmlookup (qsMessages q) m = Some ms"
    by (auto simp: find_ms_def split: bind_splits)
  let ?A = "msAcked ms |\<union>| (fset_of_list ns |\<inter>| fmdom (msSubList ms))"
  have sub: "msAcked ms |\<subseteq>| fmdom (msSubList ms)"
    using storage_invD(2) [OF inv Some] by (auto simp: msg_ok_def)
  then have "fcard ?A \<ge> maplen (msSubList ms) \<longleftrightarrow> ?A = fmdom (msSubList ms)"
    by (intro acked_complete) auto
  also have "\<dots> \<longleftrightarrow> fmdom (msSubList ms) |\<subseteq>| msAcked ms |\<union>| fset_of_list ns"
    using sub by (auto simp: fset_eq_iff)
  finally show ?thesis
    using q Some by (auto simp: st_Ack_def mark_acked_spec Let_def find_ms_simps find_ms_lookup [OF q(1)])
qed

lemma Ack_queues:
  "fmlookup (stQueues (st_Ack n m ns s)) x = Some q' \<Longrightarrow>
   \<exists>q. fmlookup (stQueues s) x = Some q \<and> qsName q' = qsName q \<and> qsSubs q' = qsSubs q"
  "nextSeq (st_Ack n m ns s) = nextSeq s"
  by (auto simp: st_Ack_def Let_def split: option.splits if_splits)

lemma inv_Ack:
  assumes "storage_inv s"
  shows "storage_inv (st_Ack n m ns s) \<and> nextSeq (st_Ack n m ns s) = nextSeq s"
proof -
  have "storage_inv (st_Ack n m ns s)"
  proof (rule storage_inv_sub [OF assms])
    show "nextSeq s \<le> nextSeq (st_Ack n m ns s)" by (simp add: Ack_queues(2))
    show "queue_ok x q" if "fmlookup (stQueues (st_Ack n m ns s)) x = Some q" for x q
      using Ack_queues(1) [OF that] storage_invD(1) [OF assms] by (auto simp: queue_ok_def)
    show "\<exists>ms0. find_ms s x y = Some ms0 \<and> msSeq ms = msSeq ms0 \<and> msg_ok (nextSeq s) y ms"
      if h: "find_ms (st_Ack n m ns s) x y = Some ms" for x y ms
    proof (cases "x = n \<and> y = m")
      case True
      then obtain ms0 where ms0: "find_ms s n m = Some ms0"
        "\<not> fmdom (msSubList ms0) |\<subseteq>| msAcked ms0 |\<union>| fset_of_list ns"
        "ms = ms0\<lparr>msAcked := msAcked ms0 |\<union>| (fset_of_list ns |\<inter>| fmdom (msSubList ms0))\<rparr>"
        using h by (auto simp: find_Ack [OF assms] split: bind_splits if_splits)
      have "msg_ok (nextSeq s) m ms0" using storage_invD(2) [OF assms ms0(1)] .
      then have "msg_ok (nextSeq s) m ms" using ms0(2,3) by (auto simp: msg_ok_def)
      then show ?thesis using ms0(1,3) True by simp
    next
      case False
      then have "find_ms s x y = Some ms" using h by (auto simp: find_Ack [OF assms])
      then show ?thesis using storage_invD(2) [OF assms] by blast
    qed
  qed
  then show ?thesis by (simp add: Ack_queues(2))
qed

lemma inv_Enqueue:
  assumes inv: "storage_inv s" and e: "st_Enqueue n m p subs s = Inr (mi, s')"
    and tx: "valid_utf8 m" "valid_utf8 p" "policies_text subs" and k: "nextSeq s + 1 < 2 ^ 64"
  shows "storage_inv s' \<and> nextSeq s' \<le> nextSeq s + 1"
proof -
  obtain q where q: "fmlookup (stQueues s) n = Some q"
    using e by (auto simp: st_Enqueue_def split: option.splits)
  let ?ms = "\<lparr>msSeq = nextSeq s, msMsgID = m, msPayload = p, msSubList = subs, msAcked = {||}\<rparr>"
  consider (same) "s' = s" | (empty) "s' = s\<lparr>nextSeq := nextSeq s + 1\<rparr>"
    | (new) "0 < maplen subs" "find_ms s n m = None"
        "s' = s\<lparr>nextSeq := nextSeq s + 1, stQueues := fmupd n (q\<lparr>qsMessages := fmupd m ?ms (qsMessages q)\<rparr>) (stQueues s)\<rparr>"
    using e q k by (auto simp: st_Enqueue_def Let_def find_ms_def split: option.splits if_splits)
  then show ?thesis
  proof cases
    case same
    then show ?thesis using inv by simp
  next
    case empty
    have "storage_inv s'"
      by (rule storage_inv_sub [OF inv])
        (use storage_invD(1,2) [OF inv] in \<open>auto simp: empty find_ms_simps\<close>)
    then show ?thesis by (simp add: empty)
  next
    case new
    have f: "find_ms s' x y = (if x = n \<and> y = m then Some ?ms else find_ms s x y)" for x y
      using q by (auto simp: new(3) find_ms_def)
    have k': "nextSeq s' = nextSeq s + 1" by (simp add: new(3))
    have "fmdom subs \<noteq> {||}" using new(1) by (auto simp: maplen_def fcard_fempty)
    then have ne: "{||} |\<subset>| fmdom subs" by auto
    have "storage_inv s'"
    proof (rule storage_invI)
      show "queue_ok x q'" if "fmlookup (stQueues s') x = Some q'" for x q'
        using that storage_invD(1) [OF inv] q by (auto simp: new(3) queue_ok_def split: if_splits)
      show "msg_ok (nextSeq s') y ms" if "find_ms s' x y = Some ms" for x y ms
        using that storage_invD(2) [OF inv, of x y ms] tx ne k'
        by (auto simp: f msg_ok_def split: if_splits)
      have lt: "msSeq ms < nextSeq s" if "find_ms s x y = Some ms" for x y ms
        using storage_invD(2) [OF inv that] by (simp add: msg_ok_def)
      show "x = x' \<and> y = y'" if h: "find_ms s' x y = Some ms" "find_ms s' x' y' = Some ms'" "msSeq ms = msSeq ms'"
        for x y ms x' y' ms'
        using h lt [of x y ms] lt [of x' y' ms'] storage_invD(3) [OF inv, of x y ms x' y' ms']
        unfolding f by (cases "x = n \<and> y = m"; cases "x' = n \<and> y' = m") auto
    qed
    then show ?thesis by (simp add: new(3))
  qed
qed

lemma inv_Apply:
  assumes inv: "storage_inv s" and k: "nextSeq s + 1 < 2 ^ 64"
  shows "storage_inv (fst (Apply i data s)) \<and> nextSeq (fst (Apply i data s)) \<le> nextSeq s + 1"
proof (cases "cmd_Decode data")
  case (Inr c)
  have t: "valid_utf8 (cmdQueueName c)" "valid_utf8 (cmdMsgID c)" "valid_utf8 (cmdPayload c)"
    "policy_text (cmdPolicy c)" "policies_text (cmdSubList c)"
    using cmd_Decode_text(1) [OF Inr] by (simp_all add: cmd_text_def)
  show ?thesis
  proof (cases "cmdType c")
    case CmdEnqueue
    then show ?thesis
      using inv inv_Enqueue [OF inv _ t(2,3,5) k]
      by (auto simp: Apply_def Inr split: sum.splits prod.splits)
  qed (use inv inv_CreateQueue [OF inv _ t(1)] inv_DeleteQueue [OF inv] inv_PutSubPolicy [OF inv _ t(4)]
      inv_DeleteSubPolicy [OF inv] inv_Ack [OF inv] in
      \<open>auto simp: Apply_def Inr respond_def split: sum.splits\<close>)
qed (use inv in \<open>simp add: Apply_def\<close>)

lemma inv_init: "storage_inv NewInMemoryStorage"
  by (simp add: storage_inv_def NewInMemoryStorage_def find_ms_def)

lemma apply_log_append: "apply_log i (xs @ ys) s = apply_log (i + length xs) ys (apply_log i xs s)"
  by (induction xs arbitrary: i s) simp_all

lemma inv_apply_log:
  assumes "storage_inv s" "nextSeq s + length es < 2 ^ 64"
  shows "storage_inv (apply_log i es s) \<and> nextSeq (apply_log i es s) \<le> nextSeq s + length es"
  using assms
proof (induction es arbitrary: i s)
  case (Cons e es)
  have 1: "storage_inv (fst (Apply i e s)) \<and> nextSeq (fst (Apply i e s)) \<le> nextSeq s + 1"
    by (rule inv_Apply) (use Cons.prems in simp_all)
  then show ?case using Cons.IH [of "fst (Apply i e s)" "i + 1"] Cons.prems by simp
qed simp

section \<open>Sorting and rebuilding a table\<close>

lemma sort_key_perm:
  assumes "mset xs = mset ys" "distinct (map f xs)"
  shows "sort_key f xs = sort_key f ys"
proof (rule properties_for_sort_key [symmetric])
  show "mset (sort_key f xs) = mset ys" using assms(1) by simp
  show "sorted (map f (sort_key f xs))" by simp
  have inj: "inj_on f (set xs)" using assms(2) by (simp add: distinct_map)
  have "distinct xs" using assms(2) by (simp add: distinct_map)
  then have d: "distinct xs" "distinct ys" "set ys = set xs"
    using mset_eq_imp_distinct_iff [OF assms(1)] mset_eq_setD [OF assms(1)] by simp_all
  have one: "filter (\<lambda>x. f k = f x) zs = [k]" if "k \<in> set zs" "distinct zs" "set zs \<subseteq> set xs" for k zs
  proof -
    have "filter (\<lambda>x. f k = f x) zs = filter (\<lambda>x. x = k) zs"
      by (rule filter_cong) (use that inj in \<open>auto dest: inj_onD\<close>)
    also have "\<dots> = [k]" using that(1,2) by (induction zs) (auto simp: filter_empty_conv)
    finally show ?thesis .
  qed
  show "filter (\<lambda>x. f k = f x) (sort_key f xs) = filter (\<lambda>x. f k = f x) ys" if "k \<in> set (sort_key f xs)" for k
    using one [of k "sort_key f xs"] one [of k ys] that d by simp
qed

lemma mset_vals:
  assumes "visits_all ord" "visits_all ord'"
  shows "mset (vals ord m) = mset (vals ord' m)"
proof -
  have "mset (ord K) = mset (ord' K)" for K
    using assms by (metis set_eq_iff_mset_eq_distinct visits_allD)
  then show ?thesis by (simp only: vals_def mset_map)
qed

lemma distinct_vals:
  assumes "visits_all ord" "\<And>k v k' v'. fmlookup m k = Some v \<Longrightarrow> fmlookup m k' = Some v' \<Longrightarrow> f v = f v' \<Longrightarrow> k = k'"
  shows "distinct (map f (vals ord m))"
proof -
  have s: "set (ord (fmdom m)) = fset (fmdom m)" "distinct (ord (fmdom m))" using visits_allD [OF assms(1)] by simp_all
  have "inj_on (\<lambda>k. f (the (fmlookup m k))) (set (ord (fmdom m)))"
    using assms(2) by (auto simp: s inj_on_def fmlookup_dom_iff)
  then show ?thesis using s(2) by (simp add: vals_def distinct_map comp_def)
qed

lemma set_vals:
  assumes "visits_all ord"
  shows "set (vals ord m) = {v. \<exists>k. fmlookup m k = Some v}"
  using visits_allD(2) [OF assms, of "fmdom m"] by (force simp: vals_def fmlookup_dom_iff image_iff)

lemma fold_fmupd:
  assumes "distinct (map key xs)"
  shows "fmlookup (fold (\<lambda>x. fmupd (key x) (val x)) xs m) k =
    (case map_of (map (\<lambda>x. (key x, val x)) xs) k of Some v \<Rightarrow> Some v | None \<Rightarrow> fmlookup m k)"
  using assms
proof (induction xs arbitrary: m)
  case (Cons x xs)
  have "map_of (map (\<lambda>x. (key x, val x)) xs) (key x) = None"
    using Cons.prems by (force simp: map_of_eq_None_iff)
  then show ?case using Cons by (auto split: option.splits)
qed simp

lemma rebuild:
  assumes "distinct (map key xs)" "\<And>k v. fmlookup m k = Some v \<longleftrightarrow> (\<exists>x \<in> set xs. key x = k \<and> val x = v)"
  shows "fold (\<lambda>x. fmupd (key x) (val x)) xs fmempty = m"
proof (rule fmap_ext)
  fix k
  have "map_of (map (\<lambda>x. (key x, val x)) xs) k = fmlookup m k"
  proof (cases "fmlookup m k")
    case None
    then show ?thesis using assms(2) by (force simp: map_of_eq_None_iff)
  next
    case (Some v)
    then obtain x where x: "x \<in> set xs" "key x = k" "val x = v" using assms(2) by blast
    have "distinct (map fst (map (\<lambda>x. (key x, val x)) xs))" using assms(1) by (simp add: comp_def)
    then show ?thesis using x Some by (intro map_of_is_SomeI [THEN trans]) force+
  qed
  then show "fmlookup (fold (\<lambda>x. fmupd (key x) (val x)) xs fmempty) k = fmlookup m k"
    by (simp add: fold_fmupd [OF assms(1)] split: option.splits)
qed

section \<open>Snapshots decode to what they were made from\<close>

definition sm_text :: "snapshotMessage \<Rightarrow> bool" where
  "sm_text m \<longleftrightarrow> smSeq m < 2 ^ 64 \<and> valid_utf8 (smMsgID m) \<and> valid_utf8 (smPayload m) \<and>
     policies_text (smSubList m) \<and> list_all valid_utf8 (smAckedSubs m)"

definition sq_text :: "snapshotQueue \<Rightarrow> bool" where
  "sq_text q \<longleftrightarrow> valid_utf8 (sqName q) \<and> policies_text (sqSubs q) \<and> list_all sm_text (sqMessages q)"

definition sn_text :: "snapshotState \<Rightarrow> bool" where
  "sn_text s \<longleftrightarrow> snNextSeq s < 2 ^ 64 \<and> list_all sq_text (snQueues s)"

lemma fold_key_snapshot [struct_simps]:
  "fold_key ''Seq'' = ''SEQ''" "fold_key ''AckedSubs'' = ''ACKEDSUBS''" "fold_key ''Name'' = ''NAME''"
  "fold_key ''Subs'' = ''SUBS''" "fold_key ''Messages'' = ''MESSAGES''" "fold_key ''NextSeq'' = ''NEXTSEQ''"
  "fold_key ''Queues'' = ''QUEUES''"
  by code_simp+

lemma valid_snapshot_names [simp]:
  "valid_utf8 ''Seq''" "valid_utf8 ''AckedSubs''" "valid_utf8 ''Name''" "valid_utf8 ''Subs''"
  "valid_utf8 ''Messages''" "valid_utf8 ''NextSeq''" "valid_utf8 ''Queues''"
  by (simp_all add: valid_utf8.simps code_def)

lemma decode_list_map:
  "\<forall>x \<in> set xs. elem (f x) = Some x \<Longrightarrow> decode_list elem (map f xs) = Some xs"
  by (induction xs) simp_all

lemma set_list_map:
  "\<forall>x \<in> set xs. elem (f x) = Some x \<Longrightarrow> set_list elem upd (JArr (map f xs)) a = Some (upd (Some xs) a)"
  by (simp add: set_list_def decode_list_map)

lemma printable_policies: "policies_text m \<Longrightarrow> 1 < d \<Longrightarrow> printable d (json_map json_SubPolicy m)"
  by (rule printable_json_map) (auto simp: policies_text_def intro!: printable_SubPolicy)

lemma set_policies_field_json:
  "policies_text m \<Longrightarrow> get a = fmempty \<Longrightarrow>
   set_policies_field get upd (json_map json_SubPolicy m) a = Some (upd m a)"
  by (simp add: set_policies_field_def decode_policies)

lemma printable_num: "printable d (JNum (dec_nat n))"
  using dec_nat_dec_int [of n] by auto

lemma snapshotMessage_json:
  assumes "sm_text m"
  shows "decode_snapshotMessage (json_snapshotMessage m) = Some m"
    and "3 < d \<Longrightarrow> printable d (json_snapshotMessage m)"
proof -
  have m: "smSeq m < 2 ^ 64" "valid_utf8 (smMsgID m)" "valid_utf8 (smPayload m)" "policies_text (smSubList m)"
    "\<forall>x \<in> set (smAckedSubs m). valid_utf8 x"
    using assms by (simp_all add: sm_text_def list_all_iff)
  show "decode_snapshotMessage (json_snapshotMessage m) = Some m"
    using m(1,4) unfolding decode_snapshotMessage_def json_snapshotMessage_def set_struct_JObj
    by (simp add: snapshotMessage_fields_def struct_simps set_uint_dec set_policies_field_json
        set_list_map decode_string_def some_list_def)
  show "printable d (json_snapshotMessage m)" if "3 < d"
    using m that printable_policies [of "smSubList m" "d - 1"] printable_num
    by (simp add: json_snapshotMessage_def)
qed

lemma snapshotQueue_json:
  assumes "sq_text q"
  shows "decode_snapshotQueue (json_snapshotQueue q) = Some q"
    and "6 < d \<Longrightarrow> printable d (json_snapshotQueue q)"
proof -
  have q: "valid_utf8 (sqName q)" "policies_text (sqSubs q)" "\<forall>m \<in> set (sqMessages q). sm_text m"
    using assms by (simp_all add: sq_text_def list_all_iff)
  show "decode_snapshotQueue (json_snapshotQueue q) = Some q"
    using q unfolding decode_snapshotQueue_def json_snapshotQueue_def set_struct_JObj
    by (simp add: snapshotQueue_fields_def struct_simps set_policies_field_json
        set_list_map snapshotMessage_json(1) some_list_def)
  show "printable d (json_snapshotQueue q)" if "6 < d"
    using q that printable_policies [of "sqSubs q" "d - 1"] snapshotMessage_json(2) [of _ "d - 1 - 1"]
    by (simp add: json_snapshotQueue_def)
qed

lemma snapshotState_json:
  assumes "sn_text s"
  shows "Unmarshal snapshotState_fields \<lparr>snNextSeq = 0, snQueues = []\<rparr> (print_json (json_snapshotState s)) = Some s"
proof -
  have s: "snNextSeq s < 2 ^ 64" "\<forall>q \<in> set (snQueues s). sq_text q"
    using assms by (simp_all add: sn_text_def list_all_iff)
  have "printable 10000 (json_snapshotState s)"
    using s snapshotQueue_json(2) [of _ 9998] printable_num by (simp add: json_snapshotState_def)
  moreover have "set_struct snapshotState_fields (json_snapshotState s) \<lparr>snNextSeq = 0, snQueues = []\<rparr> = Some s"
    using s unfolding json_snapshotState_def set_struct_JObj
    by (simp add: snapshotState_fields_def struct_simps set_uint_dec set_list_map snapshotQueue_json(1) some_list_def)
  ultimately show ?thesis by (simp add: Unmarshal_def parse_json_print)
qed

section \<open>Snapshots of reachable stores\<close>

lemma set_sortedKeys: "set (sortedKeys K) = fset K" "fset_of_list (sortedKeys K) = K"
  using visits_allD(2) [OF visits_all_sorted] visits_all_sorted by (auto simp: sortedKeys_def visits_all_def)

lemma restore_snap_message: "restore_message (snap_message ms) = ms"
  by (simp add: restore_message_def snap_message_def set_sortedKeys)

lemma distinct_map_sort_key [simp]: "distinct (map f (sort_key g xs)) = distinct (map f xs)"
  by (rule mset_eq_imp_distinct_iff) simp

lemma restore_snap_queue:
  assumes ord: "visits_all ord" and ids: "\<And>m ms. fmlookup (qsMessages q) m = Some ms \<Longrightarrow> msMsgID ms = m"
  shows "restore_queue (snap_queue ord q) = q"
proof -
  let ?xs = "sort_key smSeq (map snap_message (vals ord (qsMessages q)))"
  have "fold (\<lambda>x. fmupd (smMsgID x) (restore_message x)) ?xs fmempty = qsMessages q"
  proof (rule rebuild)
    have "distinct (map msMsgID (vals ord (qsMessages q)))"
      by (rule distinct_vals [OF ord]) (use ids in fastforce)
    then show "distinct (map smMsgID ?xs)" by (simp add: comp_def snap_message_def)
    show "fmlookup (qsMessages q) k = Some v \<longleftrightarrow> (\<exists>x \<in> set ?xs. smMsgID x = k \<and> restore_message x = v)" for k v
      using ids by (auto simp: set_vals [OF ord] restore_snap_message image_iff)
        (auto simp: snap_message_def)
  qed
  then show ?thesis by (simp add: restore_queue_def snap_queue_def)
qed

lemma snap_queue_order:
  assumes "visits_all ord" "visits_all ord'"
    and seqs: "\<And>k v k' v'. fmlookup (qsMessages q) k = Some v \<Longrightarrow> fmlookup (qsMessages q) k' = Some v' \<Longrightarrow>
      msSeq v = msSeq v' \<Longrightarrow> k = k'"
  shows "snap_queue ord q = snap_queue ord' q"
proof -
  have "sort_key smSeq (map snap_message (vals ord (qsMessages q))) = sort_key smSeq (map snap_message (vals ord' (qsMessages q)))"
  proof (rule sort_key_perm)
    show "mset (map snap_message (vals ord (qsMessages q))) = mset (map snap_message (vals ord' (qsMessages q)))"
      using mset_vals [OF assms(1,2), of "qsMessages q"] by (simp only: mset_map)
    have "distinct (map msSeq (vals ord (qsMessages q)))"
      by (rule distinct_vals [OF assms(1)]) (use seqs in blast)
    then show "distinct (map smSeq (map snap_message (vals ord (qsMessages q))))"
      by (simp add: comp_def snap_message_def)
  qed
  then show ?thesis by (simp add: snap_queue_def)
qed

lemma snap_state_order:
  assumes inv: "storage_inv s" and ord: "visits_all ord" "visits_all ord'"
  shows "snap_state ord s = snap_state ord' s"
proof -
  have q: "snap_queue ord q = snap_queue ord' q" if h: "q \<in> set (vals o' (stQueues s))" "visits_all o'" for q o'
  proof (rule snap_queue_order [OF ord])
    fix k v k' v'
    assume kv: "fmlookup (qsMessages q) k = Some v" "fmlookup (qsMessages q) k' = Some v'" "msSeq v = msSeq v'"
    obtain n where n: "fmlookup (stQueues s) n = Some q" using h(1) by (auto simp: set_vals [OF h(2)])
    show "k = k'" using storage_invD(3) [OF inv, of n k v n k' v'] kv find_ms_lookup [OF n] by simp
  qed
  have "sort_key sqName (map (snap_queue ord) (vals ord (stQueues s))) =
      sort_key sqName (map (snap_queue ord) (vals ord' (stQueues s)))"
  proof (rule sort_key_perm)
    show "mset (map (snap_queue ord) (vals ord (stQueues s))) = mset (map (snap_queue ord) (vals ord' (stQueues s)))"
      using mset_vals [OF ord, of "stQueues s"] by (simp only: mset_map)
    have "distinct (map qsName (vals ord (stQueues s)))"
      by (rule distinct_vals [OF ord(1)]) (use storage_invD(1) [OF inv] in \<open>fastforce simp: queue_ok_def\<close>)
    then show "distinct (map sqName (map (snap_queue ord) (vals ord (stQueues s))))"
      by (simp add: comp_def snap_queue_def)
  qed
  also have "map (snap_queue ord) (vals ord' (stQueues s)) = map (snap_queue ord') (vals ord' (stQueues s))"
    using q [OF _ ord(2)] by simp
  finally show ?thesis by (simp add: snap_state_def)
qed

lemma snap_state_text:
  assumes inv: "storage_inv s" and ord: "visits_all ord" and k: "nextSeq s < 2 ^ 64"
  shows "sn_text (snap_state ord s)"
proof -
  have m: "sm_text (snap_message ms)" if "find_ms s n m = Some ms" for n m ms
  proof -
    have ok: "msg_ok (nextSeq s) m ms" by (rule storage_invD(2) [OF inv that])
    then have "valid_utf8 x" if "x \<in> fset (msAcked ms)" for x
      using that by (auto simp: msg_ok_def policies_text_def fmlookup_dom_iff)
    then show ?thesis using ok k
      by (auto simp: sm_text_def snap_message_def msg_ok_def set_sortedKeys list_all_iff)
  qed
  have "sq_text (snap_queue ord q)" if "fmlookup (stQueues s) n = Some q" for n q
    using storage_invD(1) [OF inv that] m [of n]
    by (auto simp: sq_text_def snap_queue_def queue_ok_def list_all_iff set_vals [OF ord] find_ms_lookup [OF that])
  then show ?thesis using k
    by (auto simp: sn_text_def snap_state_def list_all_iff set_vals [OF ord])
qed

lemma Restore_Snapshot:
  assumes inv: "storage_inv s" and ord: "visits_all ord" and k: "nextSeq s < 2 ^ 64"
  shows "Restore (Snapshot ord s) s0 = Some s"
proof -
  let ?xs = "sort_key sqName (map (snap_queue ord) (vals ord (stQueues s)))"
  have r: "restore_queue (snap_queue ord q) = q" if "fmlookup (stQueues s) n = Some q" for n q
    by (rule restore_snap_queue [OF ord])
      (use storage_invD(2) [OF inv, of n] in \<open>auto simp: msg_ok_def find_ms_lookup [OF that]\<close>)
  have names: "\<And>n q. fmlookup (stQueues s) n = Some q \<Longrightarrow> qsName q = n"
    using storage_invD(1) [OF inv] by (auto simp: queue_ok_def)
  have "fold (\<lambda>q. fmupd (sqName q) (restore_queue q)) ?xs fmempty = stQueues s"
  proof (rule rebuild)
    have "distinct (map qsName (vals ord (stQueues s)))"
      by (rule distinct_vals [OF ord]) (use names in fastforce)
    then show "distinct (map sqName ?xs)" by (simp add: comp_def snap_queue_def)
    show "fmlookup (stQueues s) n = Some q \<longleftrightarrow> (\<exists>x \<in> set ?xs. sqName x = n \<and> restore_queue x = q)" for n q
    proof
      assume "fmlookup (stQueues s) n = Some q"
      then show "\<exists>x \<in> set ?xs. sqName x = n \<and> restore_queue x = q"
        using r names by (auto simp: set_vals [OF ord] snap_queue_def intro!: bexI [of _ "snap_queue ord q"])
    next
      assume "\<exists>x \<in> set ?xs. sqName x = n \<and> restore_queue x = q"
      then obtain n' q' where "fmlookup (stQueues s) n' = Some q'" "sqName (snap_queue ord q') = n"
        "restore_queue (snap_queue ord q') = q"
        by (auto simp: set_vals [OF ord])
      then show "fmlookup (stQueues s) n = Some q" using r names by (auto simp: snap_queue_def)
    qed
  qed
  then show ?thesis
    using snapshotState_json [OF snap_state_text [OF assms]]
    by (simp add: Restore_def Snapshot_def snap_state_def)
qed

section \<open>Properties\<close>

definition entry_of :: "Command \<Rightarrow> bytes" where
  "entry_of c = (case cmd_Encode c of Inl _ \<Rightarrow> [] | Inr data \<Rightarrow> data)"

text \<open>
  C12. Whatever entries the log holds, malformed ones included, the store stays well-formed:
  every message in it is keyed by its identifier, is owed to a subscriber that has not
  acknowledged it, and no two messages share a sequence number.
\<close>

theorem dist_storage_invariant:
  assumes "length log < 2 ^ 64"
  shows "storage_inv (apply_log i log NewInMemoryStorage)"
  using inv_apply_log [OF inv_init, of log i] assms by (simp add: NewInMemoryStorage_def)

theorem dist_storage_invariant_witness:
  "storage_inv (apply_log 1 [entry_of (NewCreateQueue ''orders''), ''junk'', entry_of sample_enqueue, []] NewInMemoryStorage)"
  by (rule dist_storage_invariant) simp

text \<open>
  C11. Snapshots are complete and deterministic: two nodes that have applied the same entries
  write the same bytes, however each ranges over its maps, and a node that restores them,
  whatever it held before, and goes on with the log is in the same state as one that
  applied all of it.
\<close>

theorem dist_snapshot_catches_up:
  assumes "length (before @ after) < 2 ^ 64" "visits_all ord" "visits_all ord'"
  defines "s \<equiv> apply_log 1 before NewInMemoryStorage"
  shows "Snapshot ord s = Snapshot ord' s \<and>
    (\<exists>s'. Restore (Snapshot ord s) s0 = Some s' \<and>
      apply_log (1 + length before) after s' = apply_log 1 (before @ after) NewInMemoryStorage)"
proof -
  have inv: "storage_inv s" and k: "nextSeq s < 2 ^ 64"
    using inv_apply_log [OF inv_init, of before 1] assms(1) by (simp_all add: s_def NewInMemoryStorage_def)
  show ?thesis
    using snap_state_order [OF inv assms(2,3)] Restore_Snapshot [OF inv assms(2) k, of s0]
    by (simp add: Snapshot_def s_def apply_log_append)
qed

lemma visits_all_rev: "visits_all (rev \<circ> sorted_list_of_fset)"
  using visits_all_sorted by (simp add: visits_all_def fset_of_list.abs_eq)

theorem dist_snapshot_catches_up_witness:
  "let before = [entry_of (NewCreateQueue ''orders''), entry_of sample_enqueue];
       after = [entry_of (NewAck ''orders'' ''orders-1'' [''audit''])];
       s = apply_log 1 before NewInMemoryStorage in
   Snapshot sorted_list_of_fset s = Snapshot (rev \<circ> sorted_list_of_fset) s \<and>
   (\<exists>s'. Restore (Snapshot sorted_list_of_fset s) NewInMemoryStorage = Some s' \<and>
      apply_log (1 + length before) after s' = apply_log 1 (before @ after) NewInMemoryStorage)"
  unfolding Let_def by (rule dist_snapshot_catches_up) (simp_all add: visits_all_sorted visits_all_rev del: comp_apply)

text \<open>
  C32. However its acknowledgements are batched, repeated and ordered, a message leaves the
  store exactly when every subscriber of its list has been named, and nothing else in
  the store changes. Names outside the list do not count.
\<close>

theorem dist_ack_completes:
  assumes "storage_inv s" "find_ms s n m = Some ms"
  shows "find_ms (fold (st_Ack n m) batches s) n' m' =
    (if n' = n \<and> m' = m then
       (if fmdom (msSubList ms) |\<subseteq>| msAcked ms |\<union>| fset_of_list (concat batches) then None
        else Some (ms\<lparr>msAcked := msAcked ms |\<union>| (fset_of_list (concat batches) |\<inter>| fmdom (msSubList ms))\<rparr>))
     else find_ms s n' m')"
proof (cases "n' = n \<and> m' = m")
  case True
  show ?thesis using assms unfolding True [THEN conjunct1] True [THEN conjunct2]
  proof (induction batches arbitrary: s ms)
    case Nil
    then have "msAcked ms |\<subset>| fmdom (msSubList ms)" using storage_invD(2) [OF Nil(1,2)] by (simp add: msg_ok_def)
    then show ?case using Nil by auto
  next
    case (Cons b bs)
    let ?A = "msAcked ms |\<union>| (fset_of_list b |\<inter>| fmdom (msSubList ms))"
    have inv: "storage_inv (st_Ack n m b s)" using inv_Ack [OF Cons.prems(1)] by blast
    show ?case
    proof (cases "fmdom (msSubList ms) |\<subseteq>| msAcked ms |\<union>| fset_of_list b")
      case True
      then have gone: "find_ms (st_Ack n m b s) n m = None"
        by (simp add: find_Ack [OF Cons.prems(1)] Cons.prems(2))
      have "find_ms (fold (st_Ack n m) bs t) n m = None" if "storage_inv t" "find_ms t n m = None" for t
        using that by (induction bs arbitrary: t) (simp_all add: find_Ack inv_Ack)
      then show ?thesis using inv gone True by auto
    next
      case False
      then have "find_ms (st_Ack n m b s) n m = Some (ms\<lparr>msAcked := ?A\<rparr>)"
        by (simp add: find_Ack [OF Cons.prems(1)] Cons.prems(2))
      note IH = Cons.IH [OF inv this]
      have "fmdom (msSubList ms) |\<subseteq>| ?A |\<union>| fset_of_list (concat bs) \<longleftrightarrow>
          fmdom (msSubList ms) |\<subseteq>| msAcked ms |\<union>| fset_of_list (concat (b # bs))" by auto
      moreover have "?A |\<union>| (fset_of_list (concat bs) |\<inter>| fmdom (msSubList ms)) =
          msAcked ms |\<union>| (fset_of_list (concat (b # bs)) |\<inter>| fmdom (msSubList ms))" by auto
      ultimately show ?thesis using IH by simp
    qed
  qed
next
  case False
  have "find_ms (fold (st_Ack n m) batches s) n' m' = find_ms s n' m'"
    using assms(1) False by (induction batches arbitrary: s) (auto simp: find_Ack inv_Ack)
  then show ?thesis unfolding if_not_P [OF False] .
qed

definition sample_message :: messageState where
  "sample_message = \<lparr>msSeq = 0, msMsgID = ''orders-1'', msPayload = ''hello'',
     msSubList = fmupd ''audit'' sample_policy (fmupd ''mail'' (sample_policy\<lparr>SubName := ''mail''\<rparr>) fmempty), msAcked = {||}\<rparr>"

definition sample_store :: InMemoryStorage where
  "sample_store = \<lparr>stQueues = fmupd ''orders'' \<lparr>qsName = ''orders'', qsSubs = fmempty,
     qsMessages = fmupd ''orders-1'' sample_message fmempty\<rparr> fmempty, nextSeq = 1\<rparr>"

lemma find_sample: "find_ms sample_store n m = Some ms \<longleftrightarrow> n = ''orders'' \<and> m = ''orders-1'' \<and> ms = sample_message"
  by (auto simp: find_ms_def sample_store_def)

lemma sample_store_inv: "storage_inv sample_store"
proof (rule storage_invI)
  show "queue_ok n q" if "fmlookup (stQueues sample_store) n = Some q" for n q
    using that by (auto simp: sample_store_def queue_ok_def valid_utf8.simps code_def split: if_splits)
  have "msg_ok (nextSeq sample_store) ''orders-1'' sample_message"
    by (auto simp: msg_ok_def sample_message_def sample_store_def policies_text_def policy_text_def
        sample_policy_def int64_def valid_utf8.simps code_def)
  then show "msg_ok (nextSeq sample_store) m ms" if "find_ms sample_store n m = Some ms" for n m ms
    using that by (simp add: find_sample)
qed (simp add: find_sample)

theorem dist_ack_completes_witness:
  "find_ms (fold (st_Ack ''orders'' ''orders-1'') [[''mail''], [''nobody'', ''mail''], [''audit'']] sample_store) ''orders'' ''orders-1'' = None \<and>
   find_ms (fold (st_Ack ''orders'' ''orders-1'') [[''mail''], [''nobody'', ''mail'']] sample_store) ''orders'' ''orders-1'' \<noteq> None"
proof -
  have "find_ms sample_store ''orders'' ''orders-1'' = Some sample_message" by (simp add: find_sample)
  note t = dist_ack_completes [OF sample_store_inv this]
  show ?thesis unfolding t by (simp add: sample_message_def)
qed

end
