(* ===== verification/Dist_Term.thy ===== *)
theory Dist_Term
  imports Dist_Manager Dist_Replica
begin

text \<open>
  The leader's set of messages in flight against what its workers really hold, and what a node
  that takes over the leadership picks up from its predecessor.
\<close>

section \<open>Invariants of the manager\<close>

text \<open>A condition on every event of a run, in the state it happens in.\<close>

fun each :: "(dist_event \<Rightarrow> dist_state \<Rightarrow> bool) \<Rightarrow> dist_event list \<Rightarrow> dist_state \<Rightarrow> bool" where
  "each C [] s \<longleftrightarrow> True"
| "each C (e # es) s \<longleftrightarrow> C e s \<and> (case dist_event e s of None \<Rightarrow> True | Some s' \<Rightarrow> each C es s')"

text \<open>
  What \<open>Schedule\<close>, \<open>demote\<close>, the opening of a term and the workers keep is kept by every run:
  sweeps, promotions with their retries and requests are made of these.
\<close>

locale kept =
  fixes P :: "Manager \<Rightarrow> bool" and C :: "dist_event \<Rightarrow> dist_state \<Rightarrow> bool"
  assumes keeps_Schedule: "mgr_inv m \<Longrightarrow> P m \<Longrightarrow> Schedule n msg m = Some m' \<Longrightarrow> P m'"
    and keeps_demote: "P m \<Longrightarrow> demote m = Some m' \<Longrightarrow> P m'"
    and keeps_open: "mgr_inv m \<Longrightarrow> P m \<Longrightarrow> stopCh m = None \<Longrightarrow> P (open_term m)"
    and keeps_worker: "mgr_inv (dmgr s) \<Longrightarrow> P (dmgr s) \<Longrightarrow> dist_worker http ord raft pick a s = Some s' \<Longrightarrow>
      C (OnWorker http ord raft pick a) s \<Longrightarrow> P (dmgr s')"
begin

lemma keeps_schedule_all: "mgr_inv m \<Longrightarrow> P m \<Longrightarrow> schedule_all msgs m = Some m' \<Longrightarrow> P m'"
proof (induction msgs m rule: schedule_all.induct)
  case (2 q msg msgs m)
  obtain m1 where m1: "Schedule q msg m = Some m1" "mgr_inv m1" using Schedule_ok [OF "2.prems"(1)] by blast
  from "2.IH" [OF m1 keeps_Schedule [OF "2.prems"(1,2) m1(1)]] "2.prems"(3) m1(1) show ?case by simp
qed simp

lemma keeps_promote:
  assumes "mgr_inv m" "P m" "promote ord barrier store m = Some (m', d)"
  shows "P m'"
proof -
  obtain m1 where m1: "demote m = Some m1" "mgr_inv m1" "stopCh m1 = None" using demote_ok [OF assms(1)] by blast
  note p1 = keeps_demote [OF assms(2) m1(1)]
  show ?thesis
  proof (cases barrier)
    case True
    then have "schedule_all (sweep_reads ord store) (open_term m1) = Some m'"
      using assms(3) m1(1) by (auto simp: promote_def sweep_def split: bind_splits)
    then show ?thesis by (rule keeps_schedule_all [OF open_term_ok [OF m1(2,3)] keeps_open [OF m1(2) p1 m1(3)]])
  next
    case False
    then show ?thesis using assms(3) m1(1) p1 by (auto simp: promote_def)
  qed
qed

lemma keeps_promote_loop: "mgr_inv m \<Longrightarrow> P m \<Longrightarrow> promote_loop ord as store m = Some m' \<Longrightarrow> P m'"
proof (induction ord as store m rule: promote_loop.induct)
  case (2 ord leads barrier rest store m)
  obtain m1 d where p: "promote ord barrier store m = Some (m1, d)" "mgr_inv m1" using promote_ok [OF "2.prems"(1)] by blast
  note p1 = keeps_promote [OF "2.prems"(1,2) p(1)]
  show ?case
  proof (cases "leads \<and> \<not> d")
    case True
    with "2.IH" [OF _ p(1) refl _ p(2) p1] "2.prems"(3) p(1) show ?thesis by simp
  next
    case False
    with "2.prems"(2,3) p(1) p1 show ?thesis by (auto split: if_splits)
  qed
qed simp

lemma keeps_event:
  assumes "mgr_inv (dmgr s)" "P (dmgr s)" "dist_event e s = Some s'" "C e s"
  shows "P (dmgr s')"
proof (cases e)
  case (OnRequest cl raft r)
  obtain s1 resp where "serve cl raft r s = Some (s1, resp)"
    "dmgr s1 = dmgr s \<or> (\<exists>n msg. Schedule n msg (dmgr s) = Some (dmgr s1))"
    using serve_total [of s cl raft r] Schedule_ok [OF assms(1)] by blast
  moreover from this have "s' = s1" using assms(3) OnRequest by (simp add: dist_event_def)
  ultimately show ?thesis using keeps_Schedule [OF assms(1,2)] assms(2) by auto
next
  case (OnLeadership ord attempts leader)
  then show ?thesis using keeps_promote_loop [OF assms(1,2)] keeps_demote [OF assms(2)] assms(3)
    by (auto simp: dist_event_def manager_Run_def promoteWithRetry_def split: if_splits)
next
  case OnDemote
  then show ?thesis using keeps_demote [OF assms(2)] assms(3) by (auto simp: dist_event_def)
next
  case OnOpen
  then show ?thesis using keeps_open [OF assms(1,2)] assms(2,3) by (auto simp: dist_event_def split: if_splits)
next
  case (OnSweep ord)
  then show ?thesis using keeps_schedule_all [OF assms(1,2)] assms(3) by (auto simp: dist_event_def sweep_def)
next
  case (OnSchedule n msg)
  then show ?thesis using keeps_Schedule [OF assms(1,2)] assms(3) by (auto simp: dist_event_def)
next
  case (OnWorker http ord raft pick a)
  then show ?thesis using keeps_worker [OF assms(1,2)] assms(3,4) by (simp add: dist_event_def)
qed (use assms in \<open>auto simp: dist_event_def split: option.splits\<close>)

lemma keeps_run:
  "mgr_inv (dmgr s) \<Longrightarrow> P (dmgr s) \<Longrightarrow> each C es s \<Longrightarrow> dist_run es s = Some s' \<Longrightarrow> mgr_inv (dmgr s') \<and> P (dmgr s')"
proof (induction es arbitrary: s)
  case (Cons e es)
  obtain s1 where s1: "dist_event e s = Some s1" "mgr_inv (dmgr s1)" using dist_event_ok [OF Cons.prems(1)] by blast
  have "P (dmgr s1)" using keeps_event [OF Cons.prems(1,2) s1(1)] Cons.prems(3) by simp
  from Cons.IH [OF s1(2) this] Cons.prems(3,4) s1(1) show ?case by simp
qed simp

end

section \<open>What the workers of the open term hold\<close>

definition wheld :: "dist_pc \<Rightarrow> string list" where
  "wheld w =
     (case w of
        WSend msg \<Rightarrow> [qmMsgID msg] | WFinish msg _ \<Rightarrow> [qmMsgID msg] | WAck msg _ \<Rightarrow> [qmMsgID msg]
      | WAfter msg \<Rightarrow> [qmMsgID msg] | WDone i \<Rightarrow> [i] | _ \<Rightarrow> [])"

definition held :: "Manager \<Rightarrow> nat \<Rightarrow> string list" where
  "held m a =
     (case fmlookup (mheap m) a of None \<Rightarrow> [] | Some q \<Rightarrow> map qmMsgID (ring_contents q)) @
     (case fmlookup (mworkers m) a of None \<Rightarrow> [] | Some w \<Rightarrow> wheld w)"

definition current :: "Manager \<Rightarrow> nat \<Rightarrow> bool" where
  "current m a \<longleftrightarrow> stopCh m \<noteq> None \<and> fmlookup (mstop m) a = stopCh m"

text \<open>The identifiers in flight are the ones held in this term, and each is held once.\<close>

definition once :: "Manager \<Rightarrow> bool" where
  "once m \<longleftrightarrow> (\<forall>i. i |\<in>| inFlightMsgs m \<longleftrightarrow> (\<exists>a. current m a \<and> i \<in> set (held m a))) \<and>
     (\<forall>a. current m a \<longrightarrow> distinct (held m a)) \<and>
     (\<forall>a b i. current m a \<longrightarrow> current m b \<longrightarrow> i \<in> set (held m a) \<longrightarrow> i \<in> set (held m b) \<longrightarrow> a = b)"

lemma onceI:
  assumes "\<And>i. i |\<in>| inFlightMsgs m \<longleftrightarrow> (\<exists>a. current m a \<and> i \<in> set (held m a))"
    "\<And>a. current m a \<Longrightarrow> distinct (held m a)"
    "\<And>a b i. current m a \<Longrightarrow> current m b \<Longrightarrow> i \<in> set (held m a) \<Longrightarrow> i \<in> set (held m b) \<Longrightarrow> a = b"
  shows "once m"
  using assms unfolding once_def by blast

lemma onceD:
  assumes "once m"
  shows "i |\<in>| inFlightMsgs m \<longleftrightarrow> (\<exists>a. current m a \<and> i \<in> set (held m a))"
    "current m a \<Longrightarrow> distinct (held m a)"
    "current m a \<Longrightarrow> current m b \<Longrightarrow> i \<in> set (held m a) \<Longrightarrow> i \<in> set (held m b) \<Longrightarrow> a = b"
  using assms unfolding once_def by blast+

lemma once_frame:
  assumes "once m" "inFlightMsgs m' = inFlightMsgs m" "\<And>a. current m' a = current m a"
    "\<And>a. current m a \<Longrightarrow> mset (held m' a) = mset (held m a)"
  shows "once m'"
proof (rule onceI)
  have eq: "set (held m' a) = set (held m a)" "distinct (held m' a) = distinct (held m a)" if "current m a" for a
    using assms(4) [OF that] by (auto dest: mset_eq_setD mset_eq_imp_distinct_iff)
  show "i |\<in>| inFlightMsgs m' \<longleftrightarrow> (\<exists>a. current m' a \<and> i \<in> set (held m' a))" for i
    using onceD(1) [OF assms(1)] assms(2,3) eq(1) by auto
  show "distinct (held m' a)" if "current m' a" for a
    using onceD(2) [OF assms(1)] assms(3) eq(2) that by auto
  show "a = b" if "current m' a" "current m' b" "i \<in> set (held m' a)" "i \<in> set (held m' b)" for a b i
    using onceD(3) [OF assms(1)] assms(3) eq(1) that by auto
qed

lemma mset_add_imp:
  assumes "mset ys = add_mset x (mset xs)"
  shows "set ys = insert x (set xs)" "distinct ys \<longleftrightarrow> x \<notin> set xs \<and> distinct xs"
proof -
  have "mset ys = mset (x # xs)" using assms by simp
  then show "set ys = insert x (set xs)" "distinct ys \<longleftrightarrow> x \<notin> set xs \<and> distinct xs"
    using mset_eq_setD [of ys "x # xs"] mset_eq_imp_distinct_iff [of ys "x # xs"] by simp_all
qed

lemma once_add:
  assumes "once m" "i |\<notin>| inFlightMsgs m" "inFlightMsgs m' = finsert i (inFlightMsgs m)" "\<And>a. current m' a = current m a"
    "current m a" "mset (held m' a) = add_mset i (mset (held m a))" "\<And>b. b \<noteq> a \<Longrightarrow> held m' b = held m b"
  shows "once m'"
proof (rule onceI)
  have h: "set (held m' b) = (if b = a then insert i (set (held m b)) else set (held m b))" for b
    using mset_add_imp(1) [OF assms(6)] assms(7) by simp
  have new: "i \<notin> set (held m b)" if "current m b" for b using onceD(1) [OF assms(1), of i] assms(2) that by blast
  show "j |\<in>| inFlightMsgs m' \<longleftrightarrow> (\<exists>b. current m' b \<and> j \<in> set (held m' b))" for j
    unfolding assms(3,4) h using onceD(1) [OF assms(1), of j] assms(5) by (auto split: if_splits)
  show "distinct (held m' b)" if "current m' b" for b
    using onceD(2) [OF assms(1), of b] assms(4,7) mset_add_imp(2) [OF assms(6)] new that by (cases "b = a") auto
  show "b = c" if "current m' b" "current m' c" "j \<in> set (held m' b)" "j \<in> set (held m' c)" for b c j
    using onceD(3) [OF assms(1), of b c j] assms(4) h new that by (auto split: if_splits)
qed

lemma once_remove:
  assumes "once m" "inFlightMsgs m' = inFlightMsgs m |-| {|i|}" "\<And>a. current m' a = current m a"
    "current m a" "mset (held m a) = add_mset i (mset (held m' a))" "\<And>b. b \<noteq> a \<Longrightarrow> held m' b = held m b"
  shows "once m'"
proof (rule onceI)
  have dist: "i \<notin> set (held m' a)" "distinct (held m' a)"
    using onceD(2) [OF assms(1,4)] mset_add_imp(2) [OF assms(5)] by auto
  have h: "set (held m' b) = set (held m b) - {i}" if "current m b" for b
  proof (cases "b = a")
    case True
    then show ?thesis using dist mset_add_imp(1) [OF assms(5)] by auto
  next
    case False
    then have "i \<notin> set (held m b)" using onceD(3) [OF assms(1,4), of b i] mset_add_imp(1) [OF assms(5)] that by auto
    then show ?thesis using assms(6) [OF False] by simp
  qed
  show "j |\<in>| inFlightMsgs m' \<longleftrightarrow> (\<exists>b. current m' b \<and> j \<in> set (held m' b))" for j
    using onceD(1) [OF assms(1), of j] assms(2,3) h by auto
  show "distinct (held m' b)" if "current m' b" for b
    using onceD(2) [OF assms(1), of b] assms(3,6) dist that by (cases "b = a") auto
  show "b = c" if "current m' b" "current m' c" "j \<in> set (held m' b)" "j \<in> set (held m' c)" for b c j
    using onceD(3) [OF assms(1), of b c j] assms(3) h that by auto
qed

section \<open>Scheduling and leadership\<close>

lemma no_term: "stopCh m = None \<Longrightarrow> \<not> current m a"
  by (simp add: current_def)

lemma once_no_term: "stopCh m = None \<Longrightarrow> inFlightMsgs m = {||} \<Longrightarrow> once m"
  by (rule onceI) (simp_all add: no_term)

lemma once_closed: "once m \<Longrightarrow> stopCh m = None \<Longrightarrow> inFlightMsgs m = {||}"
  using onceD(1) [of m] no_term [of m] by (metis all_not_fin_conv)

lemma fresh_address:
  assumes "mgr_inv m"
  shows "fmlookup (mheap m) (mnext m) = None" "fmlookup (mstop m) (mnext m) = None" "fmlookup (mworkers m) (mnext m) = None"
  using mgr_invD(1) [OF assms, of "mnext m"] by (auto simp: wheap_ok_def split: option.splits)

lemma stop_below: "mgr_inv m \<Longrightarrow> fmlookup (mstop m) a = Some c \<Longrightarrow> c < mnext m"
  using mgr_invD(1) [of m a] by (auto simp: wheap_ok_def split: option.splits)

lemma once_open_term:
  assumes "mgr_inv m" "once m" "stopCh m = None"
  shows "once (open_term m)"
proof (rule onceI)
  have none: "\<not> current (open_term m) a" for a
    using stop_below [OF assms(1), of a "mnext m"] by (auto simp: current_def open_term_def)
  show "i |\<in>| inFlightMsgs (open_term m) \<longleftrightarrow> (\<exists>a. current (open_term m) a \<and> i \<in> set (held (open_term m) a))" for i
    using none once_closed [OF assms(2,3)] by (simp add: open_term_def)
qed (use stop_below [OF assms(1), of _ "mnext m"] in \<open>auto simp: current_def open_term_def\<close>)

lemma once_demote: "demote m = Some m' \<Longrightarrow> once m \<Longrightarrow> once m'"
  by (auto simp: demote_def split: option.splits if_splits intro!: once_no_term)

text \<open>A queue made on first use is empty and belongs to the open term.\<close>

lemma once_queueFor:
  assumes "mgr_inv m" "once m" "stopCh m = Some c" "queueFor n c m = (a, m1)"
  shows "once m1"
proof (cases "fmlookup (mqueues m) n")
  case (Some b)
  then show ?thesis using assms by (simp add: queueFor_def)
next
  case None
  let ?a = "mnext m"
  have m1: "m1 = m\<lparr>mqueues := fmupd n ?a (mqueues m), mheap := fmupd ?a (dist_NewQueue n) (mheap m),
    mworkers := fmupd ?a WCheck (mworkers m), mstop := fmupd ?a c (mstop m), mnext := ?a + 1\<rparr>"
    using None assms(4) by (auto simp: queueFor_def Let_def)
  have cur: "current m1 b \<longleftrightarrow> b = ?a \<or> current m b" for b using assms(3) by (simp add: m1 current_def)
  have held: "held m1 b = held m b" for b
    using fresh_address [OF assms(1)] by (cases "b = ?a") (auto simp: m1 held_def wheld_def)
  have emp: "held m ?a = []" using fresh_address [OF assms(1)] by (simp add: held_def)
  show ?thesis
  proof (rule onceI)
    show "i |\<in>| inFlightMsgs m1 \<longleftrightarrow> (\<exists>b. current m1 b \<and> i \<in> set (held m1 b))" for i
      unfolding cur held using onceD(1) [OF assms(2), of i] emp by (auto simp: m1)
    show "distinct (held m1 b)" if "current m1 b" for b
      using onceD(2) [OF assms(2), of b] that emp by (auto simp: cur held)
    show "b = d" if "current m1 b" "current m1 d" "i \<in> set (held m1 b)" "i \<in> set (held m1 d)" for b d i
      using onceD(3) [OF assms(2), of b d i] that emp by (auto simp: cur held)
  qed
qed

lemma queueFor_inflight: "queueFor n c (m\<lparr>inFlightMsgs := x\<rparr>) = map_prod id (\<lambda>m. m\<lparr>inFlightMsgs := x\<rparr>) (queueFor n c m)"
  by (simp add: queueFor_def Let_def split: option.split)

lemma held_inflight [simp]:
  "held (m\<lparr>inFlightMsgs := x\<rparr>) a = held m a" "current (m\<lparr>inFlightMsgs := x\<rparr>) a = current m a"
  by (simp_all add: held_def current_def)

lemma held_heap:
  "held (m\<lparr>mheap := fmupd a q (mheap m)\<rparr>) b =
     (if b = a then map qmMsgID (ring_contents q) @ (case fmlookup (mworkers m) a of None \<Rightarrow> [] | Some w \<Rightarrow> wheld w) else held m b)"
  by (simp add: held_def)

lemma once_Schedule:
  assumes "mgr_inv m" "once m" "Schedule n msg m = Some m'"
  shows "once m'"
proof (cases "stopCh m = None \<or> miMsgID msg |\<in>| inFlightMsgs m \<or> maplen (mi_PendingSubs msg) = 0")
  case True
  then have "Schedule n msg m = Some m" by (auto simp: Schedule_def split: option.split)
  then show ?thesis using assms by simp
next
  case False
  let ?i = "miMsgID msg"
  obtain c where c: "stopCh m = Some c" using False by auto
  obtain a m1 where m1: "queueFor n c m = (a, m1)" "mgr_inv m1" "fmlookup (mqueues m1) n = Some a" "stopCh m1 = Some c"
    "inFlightMsgs m1 = inFlightMsgs m" by (rule queueFor_ok [OF assms(1) c])
  obtain q where q: "fmlookup (mheap m1) a = Some q" using mgr_invD(4) [OF m1(2,3)] by blast
  obtain w where w: "wcell_ok q w" by (rule mgr_inv_cell [OF m1(2) q])
  then obtain q' where q': "dist_Add (dist_NewQueueMsg msg) q = Some q'" "ring_contents q' = ring_contents q @ [dist_NewQueueMsg msg]"
    using dist_Add_ok [of q "dist_NewQueueMsg msg"] by (auto simp: wcell_ok_def)
  let ?m1 = "m1\<lparr>inFlightMsgs := finsert ?i (inFlightMsgs m)\<rparr>"
  have m': "m' = ?m1\<lparr>mheap := fmupd a q' (mheap ?m1)\<rparr>"
    using assms(3) False c q q'(1) by (simp add: Schedule_def queueFor_inflight m1(1))
  show ?thesis
  proof (rule once_add [OF once_queueFor [OF assms(1,2) c m1(1)]])
    show "?i |\<notin>| inFlightMsgs m1" using False m1(5) by simp
    show "current m1 a" using mgr_invD(4) [OF m1(2,3)] by (simp add: current_def)
    show "mset (held m' a) = add_mset ?i (mset (held m1 a))"
      using q q'(2) by (simp add: m' held_def dist_NewQueueMsg_def)
  qed (simp_all add: m' m1(5) current_def held_def)
qed

section \<open>Workers\<close>

lemma dist_collect_id: "qmMsgID (fst (dist_collect pending rs msg finished)) = qmMsgID msg"
  by (induction pending rs msg finished rule: dist_collect.induct) (simp_all add: Let_def)

text \<open>What a step of a worker leaves of everything but its own queue.\<close>

definition steady :: "nat \<Rightarrow> Manager \<Rightarrow> Manager \<Rightarrow> bool" where
  "steady a m m' \<longleftrightarrow> stopCh m' = stopCh m \<and> mstop m' = mstop m \<and> (\<forall>b. b \<noteq> a \<longrightarrow> held m' b = held m b)"

lemma steady_step:
  "steady a (dmgr s) (dmgr (set_wpc a w s))"
  "steady a (dmgr s) (dmgr (set_wpc a w (set_queue a q s)))"
  "steady a (dmgr s) (dmgr (set_wpc a w (set_queue a q (s\<lparr>dstore := st\<rparr>))))"
  "steady a (dmgr s) (dmgr (set_wpc a w (s\<lparr>dstore := st\<rparr>)))"
  "steady a (dmgr s) (dmgr (set_wpc a w (s\<lparr>dmgr := forget i (dmgr s)\<rparr>)))"
  "steady a (dmgr s) (dmgr s)"
  by (simp_all add: steady_def held_def set_wpc_def set_queue_def forget_def)

lemma worker_steady:
  assumes "dist_worker http ord raft pick a s = Some s'"
  shows "steady a (dmgr s) (dmgr s')"
  using assms
  by (auto simp: dist_worker_def steady_step split: option.splits dist_pc.splits prod.splits if_splits bind_splits)

lemma held_step:
  "held (dmgr (set_wpc a w s)) a =
     (case fmlookup (mheap (dmgr s)) a of None \<Rightarrow> [] | Some q \<Rightarrow> map qmMsgID (ring_contents q)) @ wheld w"
  "fmlookup (mheap (dmgr (set_queue a q s))) a = Some q"
  by (simp_all add: held_def set_wpc_def set_queue_def)

lemma worker_inflight:
  assumes "dist_worker http ord raft pick a s = Some s'" "\<And>i. fmlookup (mworkers (dmgr s)) a \<noteq> Some (WDone i)"
  shows "inFlightMsgs (dmgr s') = inFlightMsgs (dmgr s)"
  using assms
  by (auto simp: dist_worker_def set_wpc_def set_queue_def split: option.splits dist_pc.splits prod.splits if_splits bind_splits)

lemma add_contents:
  assumes "wcell_ok q w" "dist_Add msg q = Some q'"
  shows "ring_contents q' = ring_contents q @ [msg]"
proof -
  have "ring_inv q" using assms(1) by (simp add: wcell_ok_def)
  then show ?thesis using dist_Add_ok [of q msg] assms(2) by (metis option.inject)
qed

lemma pop_contents:
  assumes "wcell_ok q w" "dist_Pop q = Some (r, q')"
  shows "ring_contents q = (case r of None \<Rightarrow> [] | Some msg \<Rightarrow> [msg]) @ ring_contents q'"
proof -
  have "ring_inv q" using assms(1) by (simp add: wcell_ok_def)
  then obtain r1 q1 where "dist_Pop q = Some (r1, q1)" "ring_contents q1 = tl (ring_contents q)"
    "r1 = (case ring_contents q of [] \<Rightarrow> None | m # _ \<Rightarrow> Some m)" by (rule dist_Pop_ok)
  then show ?thesis using assms(2) by (cases "ring_contents q") auto
qed

text \<open>While its term lasts, a worker never drops what it holds before it is done with it.\<close>

lemma worker_holds:
  assumes "dist_worker http ord raft pick a s = Some s'" "fmlookup (mheap (dmgr s)) a = Some q"
    "fmlookup (mworkers (dmgr s)) a = Some w" "wcell_ok q w" "\<not> stopped a (dmgr s)" "w \<noteq> WExit" "\<And>i. w \<noteq> WDone i"
  shows "mset (held (dmgr s') a) = mset (held (dmgr s) a)"
proof -
  have h: "held (dmgr s) a = map qmMsgID (ring_contents q) @ wheld w" using assms(2,3) by (simp add: held_def)
  note run = assms(1) [unfolded dist_worker_def assms(2,3), simplified]
  show ?thesis
  proof (cases w)
    case WPop
    then obtain r q' where "dist_Pop q = Some (r, q')" and s': "s' = set_wpc a (case r of
        None \<Rightarrow> WSelect
      | Some msg \<Rightarrow> if maplen (qm_PendingSubs msg) = 0 then WDone (qmMsgID msg) else WSend msg) (set_queue a q' s)"
      using run by (auto split: bind_splits)
    with pop_contents [OF assms(4) this(1)] WPop show ?thesis
      by (cases r) (simp_all add: h held_step wheld_def)
  next
    case (WSend msg)
    then obtain msg' finished where "dist_collect (qm_PendingSubs msg) (dist_results http ord msg) msg [] = (msg', finished)"
      "s' = set_wpc a (WFinish msg' (sort finished)) s" using run by (auto split: prod.splits)
    with dist_collect_id [of "qm_PendingSubs msg" "dist_results http ord msg" msg "[]"] WSend show ?thesis
      by (simp add: h held_step wheld_def assms(2))
  next
    case (WAck msg finished)
    obtain st e where e: "node_Ack raft (dqName q) (qmMsgID msg) finished (dstore s) = (st, e)" by (meson surj_pair)
    show ?thesis
    proof (cases e)
      case None
      then have "s' = set_wpc a (WAfter (msg\<lparr>qmAcked := qmAcked msg |\<union>| fset_of_list finished\<rparr>)) (s\<lparr>dstore := st\<rparr>)"
        using run WAck e by simp
      then show ?thesis using WAck by (simp add: h held_step wheld_def assms(2))
    next
      case (Some err)
      then obtain q' where "dist_Add msg q = Some q'" and s': "s' = set_wpc a WCheck (set_queue a q' (s\<lparr>dstore := st\<rparr>))"
        using run WAck e by (auto split: bind_splits)
      with add_contents [OF assms(4) this(1)] WAck show ?thesis by (simp add: h held_step wheld_def)
    qed
  next
    case (WAfter msg)
    show ?thesis
    proof (cases "qm_Done msg")
      case True
      then show ?thesis using run WAfter by (auto simp: h held_step wheld_def assms(2))
    next
      case False
      then obtain q' where "dist_Add msg q = Some q'" and s': "s' = set_wpc a WCheck (set_queue a q' s)"
        using run WAfter by (auto split: bind_splits)
      with add_contents [OF assms(4) this(1)] WAfter show ?thesis by (simp add: h held_step wheld_def)
    qed
  next
    case WSelect
    then have "s' = (if dqHasWork q then set_wpc a WCheck (set_queue a (q\<lparr>dqHasWork := False\<rparr>) s) else s)"
      using run assms(5) by (auto split: if_splits)
    then show ?thesis using WSelect h by (simp add: held_step wheld_def)
  qed (use run assms(5-7) in \<open>auto simp: h held_step wheld_def assms(2) split: if_splits\<close>)
qed

lemma steady_current: "steady a m m' \<Longrightarrow> current m' b = current m b"
  by (simp add: steady_def current_def)

lemma current_running:
  assumes "mgr_inv m" "current m a"
  obtains q w where "fmlookup (mheap m) a = Some q" "fmlookup (mworkers m) a = Some w" "wcell_ok q w" "\<not> stopped a m" "w \<noteq> WExit"
proof -
  obtain c where c: "stopCh m = Some c" "fmlookup (mstop m) a = Some c" using assms(2) by (auto simp: current_def)
  have open_c: "c |\<notin>| mclosed m" using mgr_invD(2) [OF assms(1) c(1)] by simp
  have "wheap_ok m a" by (rule mgr_invD(1) [OF assms(1)])
  with c(2) obtain q w where q: "fmlookup (mheap m) a = Some q" "fmlookup (mworkers m) a = Some w" "wcell_ok q w" "w = WExit \<longrightarrow> c |\<in>| mclosed m"
    by (auto simp: wheap_ok_def split: option.splits)
  show ?thesis by (rule that [OF q(1-3)]) (use c open_c q(4) in \<open>auto simp: stopped_def\<close>)
qed

text \<open>
  A worker of an earlier term that finishes late would take an identifier out of the set of the
  new term. \<open>settled\<close> says that a step is not of that kind.
\<close>

definition settled :: "dist_event \<Rightarrow> dist_state \<Rightarrow> bool" where
  "settled e s =
     (case e of
        OnWorker http ord raft pick a \<Rightarrow>
          (case fmlookup (mworkers (dmgr s)) a of
             Some (WDone i) \<Rightarrow> current (dmgr s) a \<or> i |\<notin>| inFlightMsgs (dmgr s)
           | _ \<Rightarrow> True)
      | _ \<Rightarrow> True)"

lemma once_done:
  assumes "mgr_inv (dmgr s)" "once (dmgr s)" "dist_worker http ord raft pick a s = Some s'"
    "fmlookup (mworkers (dmgr s)) a = Some (WDone i)" "current (dmgr s) a \<or> i |\<notin>| inFlightMsgs (dmgr s)"
  shows "once (dmgr s')"
proof (cases "fmlookup (mheap (dmgr s)) a")
  case None
  then show ?thesis using assms(2,3) by (simp add: dist_worker_def)
next
  case (Some q)
  then have s': "s' = set_wpc a WCheck (s\<lparr>dmgr := forget i (dmgr s)\<rparr>)" using assms(3,4) by (simp add: dist_worker_def)
  then have st: "steady a (dmgr s) (dmgr s')" by (simp add: steady_step)
  have fl: "inFlightMsgs (dmgr s') = inFlightMsgs (dmgr s) |-| {|i|}" by (simp add: s' set_wpc_def forget_def)
  show ?thesis
  proof (cases "current (dmgr s) a")
    case True
    show ?thesis
      by (rule once_remove [OF assms(2) fl steady_current [OF st] True])
        (use st Some assms(4) in \<open>simp_all add: s' held_def set_wpc_def forget_def wheld_def steady_def\<close>)
  next
    case False
    then have "inFlightMsgs (dmgr s') = inFlightMsgs (dmgr s)" using assms(5) fl by auto
    from once_frame [OF assms(2) this steady_current [OF st]] False st show ?thesis by (metis steady_def)
  qed
qed

lemma once_worker:
  assumes "mgr_inv (dmgr s)" "once (dmgr s)" "dist_worker http ord raft pick a s = Some s'" "settled (OnWorker http ord raft pick a) s"
  shows "once (dmgr s')"
proof (cases "\<exists>i. fmlookup (mworkers (dmgr s)) a = Some (WDone i)")
  case True
  then show ?thesis using once_done [OF assms(1-3)] assms(4) by (auto simp: settled_def)
next
  case False
  note st = worker_steady [OF assms(3)]
  show ?thesis
  proof (rule once_frame [OF assms(2) worker_inflight [OF assms(3)] steady_current [OF st]])
    fix b assume cur: "current (dmgr s) b"
    show "mset (held (dmgr s') b) = mset (held (dmgr s) b)"
    proof (cases "b = a")
      case True
      obtain q w where q: "fmlookup (mheap (dmgr s)) a = Some q" "fmlookup (mworkers (dmgr s)) a = Some w" "wcell_ok q w"
        "\<not> stopped a (dmgr s)" "w \<noteq> WExit" by (rule current_running [OF assms(1) cur [unfolded True]])
      show ?thesis unfolding True by (rule worker_holds [OF assms(3) q]) (use False q(2) in simp)
    next
      case False
      then show ?thesis using st by (simp add: steady_def)
    qed
  qed (use False in simp)
qed

interpretation in_flight: kept once settled
  by unfold_locales (blast intro: once_Schedule once_demote once_open_term once_worker)+

lemma once_start: "once (dmgr dist_start)"
  by (rule once_no_term) (simp_all add: dist_start_def NewManager_def)

section \<open>Nothing in flight is lost or held twice\<close>

text \<open>
  C14. As long as no worker of an earlier term reports a message that the new term has in flight, the
  leader's set of messages in flight is exact: it holds an identifier if and only if a worker of
  the open term has the message in its queue or in hand, each worker has it once, and no two
  workers of that term have it. So no message that the sweep skips because it is in flight is without
  a worker.
\<close>

theorem dist_in_flight_exact:
  assumes "dist_run es dist_start = Some s" "each settled es dist_start"
  shows "(i |\<in>| inFlightMsgs (dmgr s) \<longleftrightarrow> (\<exists>a. current (dmgr s) a \<and> i \<in> set (held (dmgr s) a))) \<and>
    (\<forall>a. current (dmgr s) a \<longrightarrow> distinct (held (dmgr s) a)) \<and>
    (\<forall>a b. current (dmgr s) a \<and> current (dmgr s) b \<and> i \<in> set (held (dmgr s) a) \<and> i \<in> set (held (dmgr s) b) \<longrightarrow> a = b)"
proof -
  have "once (dmgr s)" using in_flight.keeps_run [OF dist_start_inv once_start assms(2,1)] by simp
  note o = onceD [OF this]
  show ?thesis using o(1) [of i] o(2) o(3) [of _ _ i] by (intro conjI allI impI) (blast intro: o(2))+
qed

theorem dist_in_flight_exact_witness:
  "\<exists>s. dist_run sample_term dist_start = Some s \<and> each settled sample_term dist_start \<and>
     ''q-1'' |\<in>| inFlightMsgs (dmgr s) \<and> (\<exists>a. current (dmgr s) a \<and> distinct (held (dmgr s) a) \<and> ''q-1'' \<in> set (held (dmgr s) a))"
proof -
  obtain s q where s: "dist_run sample_term dist_start = Some s" "fmlookup (mqueues (dmgr s)) ''q'' = Some 1"
    "fmlookup (mheap (dmgr s)) 1 = Some q" "ring_contents q = [dist_NewQueueMsg sample_info]"
    using sample_term_run by blast
  have inv: "mgr_inv (dmgr s)" using dist_run_ok [OF dist_start_inv, of sample_term] s(1) by simp
  have ok: "each settled sample_term dist_start"
    by (simp add: sample_term_def settled_def split: option.split)
  have "''q-1'' \<in> set (held (dmgr s) 1)" using s(3,4) by (simp add: held_def dist_NewQueueMsg_def sample_info_def)
  moreover have "current (dmgr s) 1" using mgr_invD(4) [OF inv s(2)] by (simp add: current_def)
  ultimately show ?thesis using dist_in_flight_exact [OF s(1) ok, of "''q-1''"] s(1) ok by blast
qed

section \<open>Taking over\<close>

definition queued :: "Manager \<Rightarrow> string \<Rightarrow> DistMsg list" where
  "queued m n =
     (case fmlookup (mqueues m) n of
        None \<Rightarrow> []
      | Some a \<Rightarrow> (case fmlookup (mheap m) a of None \<Rightarrow> [] | Some q \<Rightarrow> ring_contents q))"

definition owed :: "MessageInfo \<Rightarrow> bool" where
  "owed msg \<longleftrightarrow> mi_PendingSubs msg \<noteq> fmempty"

lemma queued_upd:
  assumes "mgr_inv m" "fmlookup (mqueues m) n = Some a" "fmlookup (mheap m) a = Some q" "dqName q = n"
  shows "queued (m\<lparr>mheap := fmupd a q' (mheap m)\<rparr>) k = (if k = n then ring_contents q' else queued m k)"
proof -
  have "k = n" if "fmlookup (mqueues m) k = Some a"
    using mgr_invD(4) [OF assms(1) that] assms(3,4) by auto
  then show ?thesis using assms(2) by (cases "fmlookup (mqueues m) k") (auto simp: queued_def)
qed

lemma queued_queueFor:
  assumes "mgr_inv m" "queueFor n c m = (a, m1)"
  shows "queued m1 k = queued m k"
proof (cases "fmlookup (mqueues m) n")
  case (Some b)
  then show ?thesis using assms(2) by (simp add: queueFor_def)
next
  case None
  have ne: "b \<noteq> mnext m" if "fmlookup (mqueues m) k = Some b" for b
    using mgr_invD(4) [OF assms(1) that] fresh_address(1) [OF assms(1)] by auto
  have m1: "m1 = m\<lparr>mqueues := fmupd n (mnext m) (mqueues m), mheap := fmupd (mnext m) (dist_NewQueue n) (mheap m),
    mworkers := fmupd (mnext m) WCheck (mworkers m), mstop := fmupd (mnext m) c (mstop m), mnext := mnext m + 1\<rparr>"
    using None assms(2) by (auto simp: queueFor_def Let_def)
  show ?thesis
  proof (cases "k = n")
    case True
    then show ?thesis using None by (simp add: m1 queued_def)
  next
    case False
    then show ?thesis using ne by (cases "fmlookup (mqueues m) k") (simp_all add: m1 queued_def)
  qed
qed

lemma Schedule_queued:
  assumes "mgr_inv m" "stopCh m \<noteq> None" "miMsgID msg |\<notin>| inFlightMsgs m"
  shows "\<exists>m'. Schedule n msg m = Some m' \<and> mgr_inv m' \<and> stopCh m' = stopCh m \<and>
    (\<forall>k. queued m' k = queued m k @ (if owed msg \<and> k = n then [dist_NewQueueMsg msg] else [])) \<and>
    inFlightMsgs m' = (if owed msg then finsert (miMsgID msg) (inFlightMsgs m) else inFlightMsgs m)"
proof (cases "owed msg")
  case False
  then have "Schedule n msg m = Some m" by (auto simp: Schedule_def owed_def split: option.split)
  then show ?thesis using assms(1) False by simp
next
  case True
  obtain c where c: "stopCh m = Some c" using assms(2) by auto
  obtain a m1 where m1: "queueFor n c m = (a, m1)" "mgr_inv m1" "fmlookup (mqueues m1) n = Some a" "stopCh m1 = Some c"
    "inFlightMsgs m1 = inFlightMsgs m" by (rule queueFor_ok [OF assms(1) c])
  obtain q where q: "fmlookup (mheap m1) a = Some q" "dqName q = n" using mgr_invD(4) [OF m1(2,3)] by blast
  obtain w where w: "wcell_ok q w" by (rule mgr_inv_cell [OF m1(2) q(1)])
  then obtain q' where q': "dist_Add (dist_NewQueueMsg msg) q = Some q'" "ring_contents q' = ring_contents q @ [dist_NewQueueMsg msg]"
    using dist_Add_ok [of q "dist_NewQueueMsg msg"] by (auto simp: wcell_ok_def)
  let ?m = "(m1\<lparr>mheap := fmupd a q' (mheap m1)\<rparr>)\<lparr>inFlightMsgs := finsert (miMsgID msg) (inFlightMsgs m)\<rparr>"
  have m': "Schedule n msg m = Some ?m"
    using True assms(3) c q q'(1) by (simp add: Schedule_def queueFor_inflight m1(1) owed_def)
  have "queued ?m k = queued (m1\<lparr>mheap := fmupd a q' (mheap m1)\<rparr>) k" for k
    by (cases "fmlookup (mqueues m1) k") (simp_all add: queued_def)
  moreover have "queued m n = ring_contents q" using queued_queueFor [OF assms(1) m1(1), of n] m1(3) q(1) by (simp add: queued_def)
  ultimately have "queued ?m k = queued m k @ (if owed msg \<and> k = n then [dist_NewQueueMsg msg] else [])" for k
    using queued_upd [OF m1(2,3) q, of q' k] queued_queueFor [OF assms(1) m1(1), of k] q'(2) True by simp
  moreover have "mgr_inv ?m \<and> stopCh ?m = stopCh m" using Schedule_ok [OF assms(1), of n msg] m' by auto
  ultimately show ?thesis using m' True by auto
qed

lemma schedule_all_queued:
  assumes "mgr_inv m" "stopCh m \<noteq> None" "distinct (map (miMsgID \<circ> snd) msgs)"
    "\<And>p. p \<in> set msgs \<Longrightarrow> miMsgID (snd p) |\<notin>| inFlightMsgs m"
  shows "\<exists>m'. schedule_all msgs m = Some m' \<and>
    (\<forall>k. queued m' k = queued m k @ map (dist_NewQueueMsg \<circ> snd) (filter (\<lambda>p. fst p = k \<and> owed (snd p)) msgs))"
  using assms
proof (induction msgs arbitrary: m)
  case (Cons p msgs)
  obtain n msg where p: "p = (n, msg)" by (cases p)
  have "miMsgID msg |\<notin>| inFlightMsgs m" using Cons.prems(4) [of p] p by simp
  then obtain m1 where m1: "Schedule n msg m = Some m1" "mgr_inv m1" "stopCh m1 = stopCh m"
    "\<And>k. queued m1 k = queued m k @ (if owed msg \<and> k = n then [dist_NewQueueMsg msg] else [])"
    "inFlightMsgs m1 = (if owed msg then finsert (miMsgID msg) (inFlightMsgs m) else inFlightMsgs m)"
    using Schedule_queued [OF Cons.prems(1,2), of msg n] by blast
  have "miMsgID msg \<notin> (miMsgID \<circ> snd) ` set msgs" using Cons.prems(3) p by simp
  then have "miMsgID (snd r) \<noteq> miMsgID msg" if "r \<in> set msgs" for r using that by (metis comp_apply imageI)
  then have fresh: "miMsgID (snd r) |\<notin>| inFlightMsgs m1" if "r \<in> set msgs" for r
    using Cons.prems(4) [of r] that m1(5) by auto
  obtain m2 where m2: "schedule_all msgs m1 = Some m2"
    "\<And>k. queued m2 k = queued m1 k @ map (dist_NewQueueMsg \<circ> snd) (filter (\<lambda>p. fst p = k \<and> owed (snd p)) msgs)"
    using Cons.IH [OF m1(2) _ _ fresh] Cons.prems(2,3) m1(3) by auto
  show ?case by (rule exI [of _ m2]) (use m1(1,4) m2 p in auto)
qed simp

text \<open>What the sweep reads, queue by queue.\<close>

lemma distinct_map_concat:
  assumes "distinct ns" "\<And>n. n \<in> set ns \<Longrightarrow> distinct (map g (f n))"
    "\<And>n n' x y. n \<in> set ns \<Longrightarrow> n' \<in> set ns \<Longrightarrow> x \<in> set (f n) \<Longrightarrow> y \<in> set (f n') \<Longrightarrow> g x = g y \<Longrightarrow> n = n'"
  shows "distinct (map g (concat (map f ns)))"
  using assms
proof (induction ns)
  case (Cons n ns)
  have "distinct (map g (concat (map f ns)))" by (rule Cons.IH) (use Cons.prems in auto)
  moreover have "g x \<noteq> g y" if "x \<in> set (f n)" "n' \<in> set ns" "y \<in> set (f n')" for x y n'
    using Cons.prems(1) Cons.prems(3) [of n n' x y] that by auto
  ultimately show ?case using Cons.prems(2) [of n] by auto
qed simp

lemma filter_concat_keyed:
  assumes "distinct ns"
  shows "filter (\<lambda>p. fst p = k \<and> P (snd p)) (concat (map (\<lambda>q. map (Pair q) (h q)) ns)) =
    (if k \<in> set ns then map (Pair k) (filter P (h k)) else [])"
  using assms by (induction ns) (auto simp: filter_map comp_def filter_empty_conv)

definition unsettled :: "order \<Rightarrow> string \<Rightarrow> InMemoryStorage \<Rightarrow> MessageInfo list" where
  "unsettled ord n store = (case PendingMessages ord n store of Inl _ \<Rightarrow> [] | Inr msgs \<Rightarrow> filter owed msgs)"

lemma set_messages:
  assumes "visits_all ord" "fmlookup (stQueues store) n = Some q" "msg \<in> set (messagesInOrder ord q)"
  shows "\<exists>i ms. find_ms store n i = Some ms \<and> miMsgID msg = msMsgID ms"
proof -
  obtain ms where "ms \<in> set (vals ord (qsMessages q))" "msg = toMessageInfo ms"
    using assms(3) by (auto simp: messagesInOrder_def)
  then show ?thesis using assms(2) by (auto simp: set_vals [OF assms(1)] find_ms_def toMessageInfo_def)
qed

definition unique_ids :: "InMemoryStorage \<Rightarrow> bool" where
  "unique_ids store \<longleftrightarrow> (\<forall>n i ms n' i' ms'. find_ms store n i = Some ms \<longrightarrow> find_ms store n' i' = Some ms' \<longrightarrow>
     msMsgID ms = msMsgID ms' \<longrightarrow> n = n' \<and> i = i')"

lemma sweep_distinct:
  assumes "visits_all ord" "unique_ids store"
  shows "distinct (map (miMsgID \<circ> snd) (sweep_reads ord store))"
  unfolding sweep_reads_def
proof (rule distinct_map_concat)
  have uniq: "n = n' \<and> i = i'"
    if "find_ms store n i = Some ms" "find_ms store n' i' = Some ms'" "msMsgID ms = msMsgID ms'" for n i ms n' i' ms'
    using assms(2) that unfolding unique_ids_def by blast
  show "distinct (QueueNames ord store)" using visits_allD(1) [OF assms(1)] by (simp add: QueueNames_def)
  have msgs: "\<exists>q. fmlookup (stQueues store) n = Some q \<and> PendingMessages ord n store = Inr (messagesInOrder ord q)"
    if "n \<in> set (QueueNames ord store)" for n
    using that visits_allD(2) [OF assms(1)] by (auto simp: QueueNames_def PendingMessages_def fmlookup_dom_iff)
  fix n assume n: "n \<in> set (QueueNames ord store)"
  obtain q where q: "fmlookup (stQueues store) n = Some q" "PendingMessages ord n store = Inr (messagesInOrder ord q)"
    using msgs [OF n] by blast
  have "distinct (map msMsgID (vals ord (qsMessages q)))"
    by (rule distinct_vals [OF assms(1)]) (use uniq [of n _ _ n] q(1) in \<open>auto simp: find_ms_def\<close>)
  then have "distinct (map (miMsgID \<circ> toMessageInfo) (vals ord (qsMessages q)))"
    by (simp add: toMessageInfo_def comp_def)
  then show "distinct (map (miMsgID \<circ> snd) (map (Pair n) (case PendingMessages ord n store of Inl _ \<Rightarrow> [] | Inr msgs \<Rightarrow> msgs)))"
    by (simp add: q(2) messagesInOrder_def comp_def)
  fix n' x y assume n': "n' \<in> set (QueueNames ord store)"
    and x: "x \<in> set (map (Pair n) (case PendingMessages ord n store of Inl _ \<Rightarrow> [] | Inr msgs \<Rightarrow> msgs))"
    and y: "y \<in> set (map (Pair n') (case PendingMessages ord n' store of Inl _ \<Rightarrow> [] | Inr msgs \<Rightarrow> msgs))"
    and eq: "(miMsgID \<circ> snd) x = (miMsgID \<circ> snd) y"
  obtain q' where q': "fmlookup (stQueues store) n' = Some q'" "PendingMessages ord n' store = Inr (messagesInOrder ord q')"
    using msgs [OF n'] by blast
  have "snd x \<in> set (messagesInOrder ord q)" "snd y \<in> set (messagesInOrder ord q')" using x y q(2) q'(2) by auto
  then show "n = n'"
    using set_messages [OF assms(1) q(1)] set_messages [OF assms(1) q'(1)] eq uniq by (metis comp_apply)
qed

lemma sweep_filter:
  assumes "visits_all ord"
  shows "map (dist_NewQueueMsg \<circ> snd) (filter (\<lambda>p. fst p = k \<and> owed (snd p)) (sweep_reads ord store)) =
    map dist_NewQueueMsg (unsettled ord k store)"
proof -
  have d: "distinct (QueueNames ord store)" using visits_allD(1) [OF assms] by (simp add: QueueNames_def)
  have "k \<in> set (QueueNames ord store) \<longleftrightarrow> k |\<in>| fmdom (stQueues store)"
    using visits_allD(2) [OF assms] by (simp add: QueueNames_def)
  moreover note filter_concat_keyed [OF d, of k owed "\<lambda>q. case PendingMessages ord q store of Inl _ \<Rightarrow> [] | Inr msgs \<Rightarrow> msgs"]
  ultimately show ?thesis
    unfolding sweep_reads_def
    by (cases "fmlookup (stQueues store) k") (auto simp: unsettled_def PendingMessages_def fmlookup_dom_iff)
qed

text \<open>Between terms nothing is in flight.\<close>

definition between :: "Manager \<Rightarrow> bool" where
  "between m \<longleftrightarrow> (stopCh m = None \<longrightarrow> inFlightMsgs m = {||})"

interpretation between_terms: kept between "\<lambda>_ _. True"
proof unfold_locales
  fix m m' n msg assume "mgr_inv m" "between m" "Schedule n msg m = Some m'"
  then show "between m'"
    using Schedule_ok [of m n msg] by (cases "stopCh m") (auto simp: between_def Schedule_def)
next
  fix s s' http ord raft pick a assume s: "between (dmgr s)" "dist_worker http ord raft pick a s = Some s'"
  have "inFlightMsgs (dmgr s') |\<subseteq>| inFlightMsgs (dmgr s)"
    using s(2)
    by (auto simp: dist_worker_def set_wpc_def set_queue_def forget_def split: option.splits dist_pc.splits prod.splits if_splits bind_splits)
  then show "between (dmgr s')" using s(1) worker_steady [OF s(2)] by (auto simp: between_def steady_def)
qed (auto simp: between_def demote_def open_term_def split: option.splits if_splits)

lemma each_True: "each (\<lambda>_ _. True) es s"
  by (induction es arbitrary: s) (auto split: option.split)

lemma reachable_between:
  assumes "dist_run es dist_start = Some s"
  shows "mgr_inv (dmgr s)" "between (dmgr s)"
  using between_terms.keeps_run [OF dist_start_inv _ each_True assms] by (simp_all add: between_def dist_start_def NewManager_def)

lemma demote_empty:
  assumes "mgr_inv m" "between m"
  shows "\<exists>m'. demote m = Some m' \<and> mgr_inv m' \<and> between m' \<and> stopCh m' = None \<and> inFlightMsgs m' = {||} \<and> (\<forall>k. queued m' k = [])"
proof -
  obtain m' where m': "demote m = Some m'" "mgr_inv m'" "stopCh m' = None" using demote_ok [OF assms(1)] by blast
  have b: "between m'" by (rule between_terms.keeps_demote [OF assms(2) m'(1)])
  have "fmlookup (mqueues m') k = None" for k using mgr_invD(4) [OF m'(2), of k] m'(3) by (cases "fmlookup (mqueues m') k") auto
  then show ?thesis using m' b by (auto simp: between_def queued_def)
qed

text \<open>A promotion that gets past the barrier, possibly after attempts that do not.\<close>

definition succeeds :: "(nat \<Rightarrow> bool \<times> bool) \<Rightarrow> bool" where
  "succeeds attempts \<longleftrightarrow> (\<exists>k<promoteAttempts. attempts k = (True, True) \<and> (\<forall>j<k. attempts j = (True, False)))"

lemma promote_loop_succeeds:
  assumes "mgr_inv m" "between m"
  shows "\<exists>m1. mgr_inv m1 \<and> stopCh m1 = None \<and> inFlightMsgs m1 = {||} \<and> (\<forall>k. queued m1 k = []) \<and>
    promote_loop ord (replicate n (True, False) @ (True, True) # rest) store m = sweep ord store (open_term m1)"
  using assms
proof (induction n arbitrary: m)
  case 0
  obtain m1 where "demote m = Some m1" "mgr_inv m1" "stopCh m1 = None" "inFlightMsgs m1 = {||}" "\<forall>k. queued m1 k = []"
    using demote_empty [OF "0.prems"] by blast
  then show ?case by (intro exI [of _ m1]) (simp add: promote_def)
next
  case (Suc n)
  obtain m1 where m1: "demote m = Some m1" "mgr_inv m1" "between m1" using demote_empty [OF Suc.prems] by blast
  show ?case using Suc.IH [OF m1(2,3)] m1(1) by (simp add: promote_def)
qed

lemma attempts_shape:
  assumes "succeeds attempts"
  shows "\<exists>n rest. map attempts [0..<promoteAttempts] = replicate n (True, False) @ (True, True) # rest"
proof -
  obtain k where k: "k < promoteAttempts" "attempts k = (True, True)" "\<And>j. j < k \<Longrightarrow> attempts j = (True, False)"
    using assms by (auto simp: succeeds_def)
  have "[0..<promoteAttempts] = [0..<k] @ k # [Suc k..<promoteAttempts]"
    using upt_add_eq_append [of 0 k "promoteAttempts - k"] upt_conv_Cons [OF k(1)] k(1) by simp
  moreover have "map attempts [0..<k] = replicate k (True, False)" by (rule replicate_eqI) (auto simp: k(3))
  ultimately show ?thesis using k(2) by (intro exI [of _ k]) auto
qed

lemma open_term_queued: "queued (open_term m) k = queued m k"
  by (cases "fmlookup (mqueues m) k") (simp_all add: queued_def open_term_def)

text \<open>
  C13. A node that becomes the leader and gets past the barrier within its attempts rebuilds the delivery queues from its
  store: right after the promotion, taken as one step, the queue of every name holds the messages of
  that name that are still owed to some subscriber, in the order of their sequence numbers, with the
  acknowledgements the store has recorded, and nothing else; whatever it held from an earlier term is gone. Message identifiers are taken to be unique in the
  store, as \<open>google/uuid\<close> makes them.
\<close>

theorem dist_takeover_rebuilds:
  assumes "dist_run es dist_start = Some s" "visits_all ord" "succeeds attempts" "unique_ids (dstore s)"
  shows "\<exists>s'. dist_event (OnLeadership ord attempts True) s = Some s' \<and> dstore s' = dstore s \<and>
    (\<forall>n. queued (dmgr s') n =
       (case PendingMessages ord n (dstore s) of
          Inl _ \<Rightarrow> []
        | Inr msgs \<Rightarrow> map dist_NewQueueMsg (filter (\<lambda>msg. mi_PendingSubs msg \<noteq> fmempty) msgs)))"
proof -
  obtain k rest where shape: "map attempts [0..<promoteAttempts] = replicate k (True, False) @ (True, True) # rest"
    using attempts_shape [OF assms(3)] by blast
  obtain m1 where m1: "mgr_inv m1" "stopCh m1 = None" "inFlightMsgs m1 = {||}" "\<And>n. queued m1 n = []"
    "promote_loop ord (map attempts [0..<promoteAttempts]) (dstore s) (dmgr s) = sweep ord (dstore s) (open_term m1)"
    using promote_loop_succeeds [OF reachable_between [OF assms(1)], of ord k rest "dstore s"] unfolding shape by blast
  have open_m1: "stopCh (open_term m1) \<noteq> None" "inFlightMsgs (open_term m1) = {||}" using m1(3) by (simp_all add: open_term_def)
  obtain m2 where m2: "sweep ord (dstore s) (open_term m1) = Some m2"
    "\<And>n. queued m2 n = map dist_NewQueueMsg (unsettled ord n (dstore s))"
    using schedule_all_queued [OF open_term_ok [OF m1(1,2)] open_m1(1) sweep_distinct [OF assms(2,4)]]
    by (auto simp: sweep_def sweep_filter [OF assms(2)] open_term_queued open_m1(2) m1(4))
  have "dist_event (OnLeadership ord attempts True) s = Some (s\<lparr>dmgr := m2\<rparr>)"
    using m1(5) m2(1) by (simp add: dist_event_def manager_Run_def promoteWithRetry_def)
  then show ?thesis using m2(2) by (auto simp: unsettled_def owed_def [abs_def] split: sum.split)
qed

theorem dist_takeover_rebuilds_witness:
  "\<exists>s'. dist_run [OnRestore (Snapshot sorted_list_of_fset sample_store),
      OnLeadership sorted_list_of_fset (\<lambda>k. (True, 0 < k)) True] dist_start = Some s' \<and>
    queued (dmgr s') ''orders'' = [dist_NewQueueMsg (toMessageInfo sample_message)] \<and> queued (dmgr s') ''other'' = []"
proof -
  let ?s = "dist_start\<lparr>dstore := sample_store\<rparr>" and ?b = "Snapshot sorted_list_of_fset sample_store"
  have "Restore ?b (dstore dist_start) = Some sample_store"
    by (rule Restore_Snapshot [OF sample_store_inv visits_all_sorted]) (simp add: sample_store_def)
  then have restore: "dist_event (OnRestore ?b) dist_start = Some ?s" by (simp add: dist_event_def fsm_Restore_def)
  then have run: "dist_run [OnRestore ?b] dist_start = Some ?s" by simp
  have ok: "succeeds (\<lambda>k. (True, 0 < k))" by (auto simp: succeeds_def promoteAttempts_def intro: exI [of _ 1])
  have ids: "unique_ids (dstore ?s)" by (auto simp: unique_ids_def find_sample)
  obtain s' where s': "dist_event (OnLeadership sorted_list_of_fset (\<lambda>k. (True, 0 < k)) True) ?s = Some s'"
    "\<And>n. queued (dmgr s') n = (case PendingMessages sorted_list_of_fset n (dstore ?s) of
      Inl _ \<Rightarrow> [] | Inr msgs \<Rightarrow> map dist_NewQueueMsg (filter (\<lambda>msg. mi_PendingSubs msg \<noteq> fmempty) msgs))"
    using dist_takeover_rebuilds [OF run visits_all_sorted ok ids] by blast
  have pend: "mi_PendingSubs (toMessageInfo sample_message) \<noteq> fmempty"
  proof
    assume "mi_PendingSubs (toMessageInfo sample_message) = fmempty"
    then have "fmlookup (mi_PendingSubs (toMessageInfo sample_message)) ''audit'' = None" by simp
    then show False
      by (simp add: mi_PendingSubs_def toMessageInfo_def sample_message_def sortedKeys_def sorted_list_of_fset.rep_eq)
  qed
  have "PendingMessages sorted_list_of_fset ''orders'' (dstore ?s) = Inr [toMessageInfo sample_message]"
    "PendingMessages sorted_list_of_fset ''other'' (dstore ?s) = Inl ErrQueueNotFound"
    by (simp_all add: PendingMessages_def messagesInOrder_def vals_def sample_store_def sorted_list_of_fset.rep_eq)
  then show ?thesis using restore s' pend by (intro exI [of _ s']) simp
qed

end
