(* ===== verification/Dist_Service.thy ===== *)
theory Dist_Service
  imports Dist_Manager
begin

text \<open>
  What the answers of a \<open>dist-mq\<close> node promise: which status codes mean that the entry of a request
  is in the replicated log, and which that the request was never proposed.
\<close>

text \<open>The command a request proposes; \<open>None\<close> if the handler turns it down before.\<close>

definition request_cmd :: "dist_request \<Rightarrow> InMemoryStorage \<Rightarrow> Command option" where
  "request_cmd r store =
     (case r of
        ReqCreate n \<Rightarrow> Some (NewCreateQueue n)
      | ReqDelete n \<Rightarrow> Some (NewDeleteQueue n)
      | ReqEnqueue uuid n body \<Rightarrow>
          (case (body, FetchSubList n store) of
             (Some b, Some subs) \<Rightarrow> Some (NewEnqueue n (n @ ''-'' @ uuid) b subs)
           | _ \<Rightarrow> None)
      | ReqSubscribe n body \<Rightarrow> map_option (NewPutSubPolicy n) (decodeSubPolicy body)
      | ReqResubscribe n sub body \<Rightarrow> map_option (\<lambda>p. NewPutSubPolicy n (p\<lparr>SubName := sub\<rparr>)) (decodeSubPolicy body)
      | ReqUnsubscribe n sub \<Rightarrow> Some (NewDeleteSubPolicy n sub))"

definition success :: "dist_request \<Rightarrow> nat" where
  "success r =
     (case r of
        ReqCreate _ \<Rightarrow> 201 | ReqDelete _ \<Rightarrow> 204 | ReqEnqueue _ _ _ \<Rightarrow> 202
      | ReqSubscribe _ _ \<Rightarrow> 201 | ReqResubscribe _ _ _ \<Rightarrow> 200 | ReqUnsubscribe _ _ \<Rightarrow> 204)"

text \<open>
  The entry of \<open>cmd\<close> is in the log that leads from one store to the other, and \<open>P\<close> holds of the
  store it met and of what applying it there did.
\<close>

definition logged :: "Command \<Rightarrow> InMemoryStorage \<Rightarrow> InMemoryStorage \<Rightarrow> (InMemoryStorage \<Rightarrow> InMemoryStorage \<times> fsm_response \<Rightarrow> bool) \<Rightarrow> bool" where
  "logged cmd s s' P \<longleftrightarrow> (\<exists>i before data after. cmd_Encode cmd = Inr data \<and> s' = apply_log i (before @ data # after) s \<and>
     P (apply_log i before s) (Apply (i + length before) data (apply_log i before s)))"

definition applied :: "InMemoryStorage \<Rightarrow> InMemoryStorage \<times> fsm_response \<Rightarrow> bool" where
  "applied s1 r \<longleftrightarrow> (case snd r of RespNil \<Rightarrow> True | RespMsg _ \<Rightarrow> True | _ \<Rightarrow> False)"

definition refused :: "storage_error \<Rightarrow> InMemoryStorage \<Rightarrow> InMemoryStorage \<times> fsm_response \<Rightarrow> bool" where
  "refused e s1 r \<longleftrightarrow> r = (s1, RespStorage e)"

lemma Apply_refused: "snd (Apply i data s) = RespStorage e \<Longrightarrow> refused e s (Apply i data s)"
  unfolding Apply_def refused_def
  by (cases "cmd_Decode data"; cases "cmdType (projr (cmd_Decode data))")
    (auto simp: respond_def split: sum.splits prod.splits)

lemma propose_logged:
  assumes "raft_commits raft" "propose raft cmd s = (s', r)"
  shows "r = Inr resp \<Longrightarrow> logged cmd s s' applied" "r = Inl (StoreError e) \<Longrightarrow> logged cmd s s' (refused e)"
proof -
  have "(r = Inr resp \<longrightarrow> logged cmd s s' applied) \<and> (r = Inl (StoreError e) \<longrightarrow> logged cmd s s' (refused e))"
  proof (cases "cmd_Encode cmd")
    case (Inl err)
    then show ?thesis using assms(2) by (auto simp: propose_def)
  next
    case (Inr data)
    obtain s1 a where a: "raft data s = (s1, a)" by (meson surj_pair)
    note c = assms(1) [unfolded raft_commits_def, THEN spec [where x = data], THEN spec [where x = s]]
    show ?thesis
    proof (cases a)
      case (Inl err)
      then show ?thesis using assms(2) Inr a by (auto simp: propose_def)
    next
      case answer: (Inr answer)
      then obtain i before after where l: "answer = snd (Apply (i + length before) data (apply_log i before s))"
        "s1 = apply_log i (before @ data # after) s" using c a by auto
      have log: "logged cmd s s1 P" if "P (apply_log i before s) (Apply (i + length before) data (apply_log i before s))" for P
        using Inr l(2) that unfolding logged_def by blast
      show ?thesis
        using assms(2) Inr a answer l(1) [symmetric] log [of applied] log [of "refused e"] Apply_refused [of "i + length before" data "apply_log i before s"]
        by (cases answer) (auto simp: propose_def applied_def)
    qed
  qed
  then show "r = Inr resp \<Longrightarrow> logged cmd s s' applied" "r = Inl (StoreError e) \<Longrightarrow> logged cmd s s' (refused e)" by simp_all
qed

text \<open>What one status code says about a request: \<open>cmd\<close> is the command the handler proposes.\<close>

definition status_says :: "nat \<Rightarrow> nat \<Rightarrow> Command option \<Rightarrow> dist_state \<Rightarrow> dist_state \<Rightarrow> bool" where
  "status_says status ok cmd s s' \<longleftrightarrow>
     status = ok \<and> (\<exists>c. cmd = Some c \<and> logged c (dstore s) (dstore s') applied) \<or>
     status = 400 \<and> s' = s \<or>
     status = 404 \<and> (s' = s \<or> (\<exists>c. cmd = Some c \<and> logged c (dstore s) (dstore s') (refused ErrQueueNotFound))) \<or>
     status = 409 \<and> (\<exists>c. cmd = Some c \<and> logged c (dstore s) (dstore s') (refused ErrQueueExists)) \<or>
     status = 421 \<and> s' = s \<or>
     status = 503"

lemma on_node_status:
  assumes "raft_commits raft" "on_node ok (\<lambda>st. just_error (propose raft cmd st)) s = Some (s', resp)"
  shows "status_says (rstatus resp) ok (Some cmd) s s'"
proof -
  obtain st a where p: "propose raft cmd (dstore s) = (st, a)" by (meson surj_pair)
  then have s': "dstore s' = st" "rstatus resp = (case a of Inr _ \<Rightarrow> ok | Inl e \<Rightarrow> rstatus (writeError e))"
    using assms(2) by (auto simp: on_node_def just_error_def plain_def split: sum.splits)
  show ?thesis
  proof (cases a)
    case (Inr r)
    then show ?thesis using propose_logged(1) [OF assms(1) p] s' by (simp add: status_says_def)
  next
    case (Inl e)
    then show ?thesis using propose_logged(2) [OF assms(1) p] s'
      by (auto simp: status_says_def writeError_def plain_def split: node_error.splits storage_error.splits)
  qed
qed

lemma enqueue_status:
  assumes "raft_commits raft" "dist_HandleEnqueue raft uuid n body s = Some (s', resp)"
  shows "status_says (rstatus resp) 202 (request_cmd (ReqEnqueue uuid n body) (dstore s)) s s'"
proof (cases "\<exists>b subs. body = Some b \<and> FetchSubList n (dstore s) = Some subs")
  case False
  then show ?thesis using assms(2)
    by (auto simp: dist_HandleEnqueue_def status_says_def writeError_def plain_def split: option.splits)
next
  case True
  then obtain b subs where b: "body = Some b" "FetchSubList n (dstore s) = Some subs" by blast
  let ?cmd = "NewEnqueue n (n @ ''-'' @ uuid) b subs"
  have cmd: "request_cmd (ReqEnqueue uuid n body) (dstore s) = Some ?cmd" using b by (simp add: request_cmd_def)
  obtain st a where p: "propose raft ?cmd (dstore s) = (st, a)" by (meson surj_pair)
  show ?thesis
  proof (cases a)
    case (Inl e)
    then have "dstore s' = st" "rstatus resp = rstatus (writeError e)"
      using assms(2) b p by (auto simp: dist_HandleEnqueue_def node_Enqueue_def)
    then show ?thesis using propose_logged(2) [OF assms(1) p] Inl cmd
      by (auto simp: status_says_def writeError_def plain_def split: node_error.splits storage_error.splits)
  next
    case (Inr r)
    show ?thesis
    proof (cases "\<exists>msg. r = RespMsg msg")
      case True
      then obtain msg where "r = RespMsg msg" by blast
      then have "dstore s' = st" "rstatus resp = 202"
        using assms(2) b p Inr by (auto simp: dist_HandleEnqueue_def node_Enqueue_def plain_def split: bind_splits)
      then show ?thesis using propose_logged(1) [OF assms(1) p Inr] cmd by (simp add: status_says_def)
    next
      case False
      then have "rstatus resp = 503"
        using assms(2) b p Inr
        by (cases r) (auto simp: dist_HandleEnqueue_def node_Enqueue_def writeError_def plain_def)
      then show ?thesis by (simp add: status_says_def)
    qed
  qed
qed

lemmas request_handler_defs =
  dist_HandleQueueCreation_def dist_HandleQueueDeletion_def dist_HandleSubPolicyCreation_def
  dist_HandleSubPolicyUpdate_def dist_HandleSubPolicyDeletion_def node_CreateQueue_def [abs_def] node_DeleteQueue_def [abs_def]
  node_PutSubPolicy_def [abs_def] node_DeleteSubPolicy_def [abs_def]

lemma leader_status:
  assumes "raft_commits raft" "serve cl raft r s = Some (s', resp)" "IsLeader cl"
  shows "status_says (rstatus resp) (success r) (request_cmd r (dstore s)) s s'"
proof (cases r)
  case (ReqEnqueue uuid n body)
  then show ?thesis using enqueue_status [OF assms(1)] assms(2,3) by (simp add: serve_def requireLeader_def success_def)
next
  case (ReqSubscribe n body)
  then show ?thesis using on_node_status [OF assms(1)] assms(2,3)
    by (cases "decodeSubPolicy body")
      (auto simp: serve_def requireLeader_def success_def request_cmd_def request_handler_defs status_says_def [of 400] plain_def)
next
  case (ReqResubscribe n sub body)
  then show ?thesis using on_node_status [OF assms(1)] assms(2,3)
    by (cases "decodeSubPolicy body")
      (auto simp: serve_def requireLeader_def success_def request_cmd_def request_handler_defs status_says_def [of 400] plain_def)
qed (use on_node_status [OF assms(1)] assms(2,3) in
  \<open>auto simp: serve_def requireLeader_def success_def request_cmd_def request_handler_defs\<close>)

lemma status_never_421: "IsLeader cl \<Longrightarrow> serve cl raft r s = Some (s', resp) \<Longrightarrow> rstatus resp \<noteq> 421"
  by (cases r)
    (auto simp: serve_def requireLeader_def request_handler_defs dist_HandleEnqueue_def on_node_def writeError_def plain_def
      split: option.splits prod.splits sum.splits node_error.splits storage_error.splits bind_splits)

text \<open>
  C16. The status code a node answers with means what a client takes it to mean, when raft keeps its promise that an entry whose
  future succeeds has been applied. A success code says that the entry of the request is in the replicated log and took
  effect; 400 and 421 say that nothing was proposed and nothing changed; 404 and 409 say that
  nothing was proposed or that the entry, at its place in the log, left the store as it was; and 421 comes from a node that
  does not lead. Every other answer is 503.
\<close>

theorem dist_status_honest:
  assumes "raft_commits raft" "serve cl raft r s = Some (s', resp)"
  shows "status_says (rstatus resp) (success r) (request_cmd r (dstore s)) s s' \<and> (rstatus resp = 421 \<longrightarrow> \<not> IsLeader cl)"
proof (cases "IsLeader cl")
  case True
  then show ?thesis using leader_status [OF assms] status_never_421 [OF True assms(2)] by simp
next
  case False
  then show ?thesis using assms(2)
    by (auto simp: serve_def requireLeader_def status_says_def plain_def split: option.splits)
qed

text \<open>A cluster of one, where an entry is applied as it is proposed.\<close>

definition raft_at_once :: raft where
  "raft_at_once data s = (fst (Apply 1 data s), Inr (snd (Apply 1 data s)))"

lemma raft_at_once_commits: "raft_commits raft_at_once"
proof -
  have "\<exists>i before after. snd (Apply 1 data s) = snd (Apply (i + length before) data (apply_log i before s)) \<and>
      fst (Apply 1 data s) = apply_log i (before @ data # after) s" for data s
    by (intro exI [of _ 1] exI [of _ "[]"]) simp
  then show ?thesis by (simp add: raft_commits_def raft_at_once_def)
qed

definition sample_leader :: cluster where
  "sample_leader = \<lparr>IsLeader = True, leaderId = ''n1'', peerHTTP = fmempty\<rparr>"

lemma sample_command:
  "\<exists>data. cmd_Encode (NewCreateQueue ''orders'') = Inr data \<and> cmd_Decode data = Inr (NewCreateQueue ''orders'')"
  by (rule cmd_roundtrip)
    (simp add: command_ok_def NewCreateQueue_def zero_Command_def validate_def policy_text_def policies_text_def zero_SubPolicy_def
      valid_utf8.simps code_def int64_def)

lemmas sample_simps = serve_def requireLeader_def sample_leader_def request_handler_defs on_node_def just_error_def propose_def
  raft_at_once_def Apply_def NewCreateQueue_def zero_Command_def respond_def st_CreateQueue_def dist_start_def
  NewInMemoryStorage_def plain_def writeError_def fmlookup_dom_iff

lemma sample_create:
  "\<exists>s' resp. serve sample_leader raft_at_once (ReqCreate ''orders'') dist_start = Some (s', resp) \<and> rstatus resp = 201 \<and>
     fmlookup (stQueues (dstore s')) ''orders'' \<noteq> None"
  using sample_command by (auto simp: sample_simps)

lemma sample_create_again:
  assumes "fmlookup (stQueues (dstore s)) ''orders'' \<noteq> None"
  shows "\<exists>s' resp. serve sample_leader raft_at_once (ReqCreate ''orders'') s = Some (s', resp) \<and> rstatus resp = 409 \<and>
    fmlookup (stQueues (dstore s')) ''orders'' \<noteq> None"
  using sample_command assms by (auto simp: sample_simps)

theorem dist_status_honest_witness:
  "\<exists>s' resp c. raft_commits raft_at_once \<and> serve sample_leader raft_at_once (ReqCreate ''orders'') dist_start = Some (s', resp) \<and>
     rstatus resp = 201 \<and> c = NewCreateQueue ''orders'' \<and> logged c (dstore dist_start) (dstore s') applied"
proof -
  obtain s' resp where s': "serve sample_leader raft_at_once (ReqCreate ''orders'') dist_start = Some (s', resp)" "rstatus resp = 201"
    using sample_create by blast
  from dist_status_honest [OF raft_at_once_commits s'(1)] s'(2) show ?thesis
    using s' raft_at_once_commits by (auto simp: status_says_def success_def request_cmd_def)
qed

end
