(* ===== verification/Cluster_Client.thy ===== *)
theory Cluster_Client
  imports Dist_Service "HOL-Library.Word"
begin

text \<open>
  The cluster-aware HTTP client of the end-to-end tests of \<open>dist-mq\<close>: one logical write follows
  redirects and retries elections, and ends in an outcome that says what the caller may conclude.
  The network is a parameter. One write is followed at a time: what other goroutines do with the
  cached leader and the node counter of a shared client meanwhile is not modelled.
\<close>

section \<open>Configuration and state\<close>

datatype Outcome = Accepted | Rejected | Ambiguous

datatype send_failure = DialFailure | OtherFailure

datatype write_error = SendError send_failure | GaveUp nat nat

record Result =
  rOutcome :: Outcome
  rStatus :: nat
  rAttempts :: nat
  rNode :: string
  rBody :: string
  rErr :: "write_error option"

text \<open>Durations are in nanoseconds.\<close>

record client_config =
  cfNodes :: "string list"
  cfMaxAttempts :: int
  cfBaseBackoff :: int
  cfMaxBackoff :: int
  cfHTTPTimeout :: int
  cfMaxConns :: int

record Client =
  clCfg :: client_config
  clLeader :: "string option"
  clNext :: "64 word"

definition client_New :: "client_config \<Rightarrow> Client option" where
  "client_New cfg =
     (if cfNodes cfg = [] then None
      else Some \<lparr>clCfg = cfg
        \<lparr>cfMaxAttempts := (if cfMaxAttempts cfg < 1 then 5 else cfMaxAttempts cfg),
         cfBaseBackoff := (if cfBaseBackoff cfg \<le> 0 then 25 * 10 ^ 6 else cfBaseBackoff cfg),
         cfMaxBackoff := (if cfMaxBackoff cfg \<le> 0 then 2 * 10 ^ 9 else cfMaxBackoff cfg),
         cfHTTPTimeout := (if cfHTTPTimeout cfg \<le> 0 then 10 * 10 ^ 9 else cfHTTPTimeout cfg),
         cfMaxConns := (if cfMaxConns cfg < 64 then 64 else cfMaxConns cfg)\<rparr>,
        clLeader = None, clNext = 0\<rparr>)"

definition Leader :: "Client \<Rightarrow> string" where
  "Leader c = (case clLeader c of None \<Rightarrow> '''' | Some u \<Rightarrow> u)"

definition setLeader :: "string \<Rightarrow> Client \<Rightarrow> Client" where
  "setLeader url c = c\<lparr>clLeader := Some url\<rparr>"

definition clearLeader :: "Client \<Rightarrow> Client" where
  "clearLeader c = c\<lparr>clLeader := None\<rparr>"

section \<open>Choosing a node\<close>

text \<open>
  \<open>Nodes[int(next.Add(1)-1)%len(Nodes)]\<close>. The conversion turns a counter of \<open>2^63\<close> or more into
  a negative number, whose remainder is an index out of range unless it is 0.
\<close>

definition nextNode :: "Client \<Rightarrow> (string \<times> Client) option" where
  "nextNode c =
     (let nodes = cfNodes (clCfg c); i = sint (clNext c); n = int (length nodes) in
      if n = 0 \<or> i < 0 \<and> i mod n \<noteq> 0 then None
      else Some (nodes ! nat (i mod n), c\<lparr>clNext := clNext c + 1\<rparr>))"

fun other_loop :: "nat \<Rightarrow> string \<Rightarrow> Client \<Rightarrow> (string \<times> Client) option" where
  "other_loop 0 current c = Some (current, c)"
| "other_loop (Suc i) current c = do {
     (node, c') \<leftarrow> nextNode c;
     if node \<noteq> current then Some (node, c') else other_loop i current c'
   }"

definition otherThan :: "string \<Rightarrow> Client \<Rightarrow> (string \<times> Client) option" where
  "otherThan current c =
     (let nodes = cfNodes (clCfg c) in
      if length nodes = 1 then Some (nodes ! 0, c) else other_loop (length nodes) current c)"

section \<open>Backing off\<close>

text \<open>The shift drops the high bits, and a Go duration is a signed 64-bit number.\<close>

definition backoff :: "client_config \<Rightarrow> nat \<Rightarrow> int" where
  "backoff cfg attempt =
     (let b = sint (word_of_int (cfBaseBackoff cfg * 2 ^ (attempt - 1)) :: 64 word) in
      if b > cfMaxBackoff cfg \<or> b \<le> 0 then cfMaxBackoff cfg else b)"

text \<open>
  \<open>Int63n\<close> panics unless its argument is positive. \<open>ctx\<close> says whether the context ends while the
  timer runs.
\<close>

definition pause :: "('w \<Rightarrow> 'w \<times> bool) \<Rightarrow> client_config \<Rightarrow> nat \<Rightarrow> 'w \<Rightarrow> ('w \<times> bool) option" where
  "pause ctx cfg attempt w =
     (if sint (word_of_int (backoff cfg attempt + 1) :: 64 word) \<le> 0 then None else Some (ctx w))"

section \<open>One logical write\<close>

definition finish :: "Result \<Rightarrow> bool \<Rightarrow> Result" where
  "finish res mayHaveCommitted =
     (let res' = res\<lparr>rOutcome := (if mayHaveCommitted then Ambiguous else Rejected)\<rparr> in
      if rErr res' = None then res'\<lparr>rErr := Some (GaveUp (rAttempts res') (rStatus res'))\<rparr> else res')"

text \<open>
  What \<open>send\<close> gets back: a failure, or a status, the leader header (empty if there is none) and a
  body. The first number is the attempts that are left.
\<close>

type_synonym 'w net = "string \<Rightarrow> 'w \<Rightarrow> 'w \<times> (send_failure + nat \<times> string \<times> string)"

fun write_loop :: "'w net \<Rightarrow> ('w \<Rightarrow> 'w \<times> bool) \<Rightarrow> nat \<Rightarrow> nat \<Rightarrow> string \<Rightarrow> bool \<Rightarrow> Client \<Rightarrow> Result \<Rightarrow> 'w \<Rightarrow>
    (Client \<times> Result \<times> 'w) option" where
  "write_loop send ctx 0 attempt target may c res w = Some (c, finish res may, w)"
| "write_loop send ctx (Suc k) attempt target may c res0 w =
     (let res1 = res0\<lparr>rAttempts := attempt, rNode := target\<rparr> in
      case send target w of
        (w1, Inl e) \<Rightarrow>
          (let res = res1\<lparr>rErr := Some (SendError e)\<rparr> in
           if e = DialFailure then do {
             (target', c2) \<leftarrow> otherThan target (if target = Leader c then clearLeader c else c);
             (w2, ended) \<leftarrow> pause ctx (clCfg c) attempt w1;
             if ended then Some (c2, finish res may, w2)
             else write_loop send ctx k (attempt + 1) target' may c2 res w2
           }
           else do {
             (w2, ended) \<leftarrow> pause ctx (clCfg c) attempt w1;
             if ended then Some (clearLeader c, finish res True, w2)
             else do {
               (target', c2) \<leftarrow> otherThan target (clearLeader c);
               write_loop send ctx k (attempt + 1) target' True c2 res w2
             }
           })
      | (w1, Inr (status, leader, body)) \<Rightarrow>
          (let res = res1\<lparr>rStatus := status, rBody := body, rErr := None\<rparr> in
           if 200 \<le> status \<and> status < 300 then Some (setLeader target c, res\<lparr>rOutcome := Accepted\<rparr>, w1)
           else if status = 421 then
             (if leader \<noteq> '''' then write_loop send ctx k (attempt + 1) leader may (setLeader leader c) res w1
              else do {
                (target', c2) \<leftarrow> otherThan target (clearLeader c);
                write_loop send ctx k (attempt + 1) target' may c2 res w1
              })
           else if status = 503 then do {
             (w2, ended) \<leftarrow> pause ctx (clCfg c) attempt w1;
             if ended then Some (clearLeader c, finish res True, w2)
             else write_loop send ctx k (attempt + 1) target True (clearLeader c) res w2
           }
           else Some (c, res\<lparr>rOutcome := Rejected\<rparr>, w1)))"

definition client_Write :: "'w net \<Rightarrow> ('w \<Rightarrow> 'w \<times> bool) \<Rightarrow> Client \<Rightarrow> 'w \<Rightarrow> (Client \<times> Result \<times> 'w) option" where
  "client_Write send ctx c w = do {
     (target, c1) \<leftarrow> (if Leader c = '''' then nextNode c else Some (Leader c, c));
     write_loop send ctx (nat (cfMaxAttempts (clCfg c))) 1 target False c1
       \<lparr>rOutcome = Ambiguous, rStatus = 0, rAttempts = 0, rNode = '''', rBody = '''', rErr = None\<rparr> w
   }"

section \<open>Asking who leads\<close>

record Probe =
  HasLeader :: bool
  ProbedLeads :: bool
  ProbeLeaderURL :: string

definition ProbeLeader :: "'w net \<Rightarrow> string \<Rightarrow> 'w \<Rightarrow> 'w \<times> (send_failure + Probe)" where
  "ProbeLeader send node w =
     (case send node w of
        (w', Inl e) \<Rightarrow> (w', Inl e)
      | (w', Inr (status, leader, _)) \<Rightarrow>
          (w', Inr (if status = 503 then \<lparr>HasLeader = False, ProbedLeads = False, ProbeLeaderURL = ''''\<rparr>
            else if status = 421 then \<lparr>HasLeader = True, ProbedLeads = False, ProbeLeaderURL = leader\<rparr>
            else \<lparr>HasLeader = True, ProbedLeads = True, ProbeLeaderURL = node\<rparr>)))"

section \<open>A write ends within its attempts\<close>

lemma sint_of_int:
  assumes "0 \<le> x" "x < 2 ^ 63"
  shows "sint (word_of_int x :: 64 word) = x"
  using assms by (simp add: signed_of_int signed_take_bit_int_eq_self)

lemma sint_small:
  fixes w :: "64 word"
  assumes "unat w < 2 ^ 63"
  shows "sint w = int (unat w)"
proof -
  have "int (unat w) < int (2 ^ 63)" using assms by (simp only: of_nat_less_iff)
  then have "sint (word_of_int (int (unat w)) :: 64 word) = int (unat w)" by (intro sint_of_int) simp_all
  then show ?thesis by simp
qed

text \<open>The counter is far enough from the sign bit for \<open>n\<close> more choices.\<close>

definition room :: "nat \<Rightarrow> Client \<Rightarrow> bool" where
  "room n c \<longleftrightarrow> cfNodes (clCfg c) \<noteq> [] \<and> unat (clNext c) + n \<le> 2 ^ 63"

lemma unat_Suc:
  fixes w :: "64 word"
  assumes "unat w < 2 ^ 63"
  shows "unat (w + 1) = unat w + 1"
  using assms by (simp add: unat_word_ariths(1))

lemma nextNode_ok:
  assumes "room (Suc n) c"
  shows "\<exists>node c'. nextNode c = Some (node, c') \<and> node \<in> set (cfNodes (clCfg c)) \<and> clCfg c' = clCfg c \<and> room n c'"
proof -
  let ?nodes = "cfNodes (clCfg c)" and ?k = "unat (clNext c)"
  have k: "?nodes \<noteq> []" "?k < 2 ^ 63" using assms by (auto simp: room_def)
  then have i: "nat (int ?k mod int (length ?nodes)) < length ?nodes" by (simp add: nat_less_iff)
  have "room n (c\<lparr>clNext := clNext c + 1\<rparr>)" using assms unat_Suc [OF k(2)] by (simp add: room_def)
  then show ?thesis using k sint_small [OF k(2)] nth_mem [OF i] by (simp add: nextNode_def Let_def)
qed

lemma other_loop_ok:
  "room (i + n) c \<Longrightarrow> \<exists>node c'. other_loop i current c = Some (node, c') \<and> clCfg c' = clCfg c \<and> room n c'"
proof (induction i arbitrary: c)
  case (Suc i)
  obtain node c1 where c1: "nextNode c = Some (node, c1)" "clCfg c1 = clCfg c" "room (i + n) c1"
    using nextNode_ok [of "i + n" c] Suc.prems by auto
  have "room n c1" using c1(3) by (simp add: room_def)
  then show ?case using c1 Suc.IH [OF c1(3)] by (cases "node \<noteq> current") auto
qed simp

lemma otherThan_ok:
  assumes "room (length (cfNodes (clCfg c)) + n) c"
  shows "\<exists>node c'. otherThan current c = Some (node, c') \<and> clCfg c' = clCfg c \<and> room n c'"
proof (cases "length (cfNodes (clCfg c)) = 1")
  case True
  then show ?thesis using assms by (simp add: otherThan_def room_def)
next
  case False
  then show ?thesis using other_loop_ok [OF assms] by (simp add: otherThan_def)
qed

definition config_ok :: "client_config \<Rightarrow> bool" where
  "config_ok cfg \<longleftrightarrow> cfNodes cfg \<noteq> [] \<and> 1 \<le> cfMaxAttempts cfg \<and> cfMaxAttempts cfg < 2 ^ 63 - 1 \<and>
     0 < cfMaxBackoff cfg \<and> cfMaxBackoff cfg < 2 ^ 63 - 1"

lemma backoff_bounds: "0 < cfMaxBackoff cfg \<Longrightarrow> 0 < backoff cfg n \<and> backoff cfg n \<le> cfMaxBackoff cfg"
  by (auto simp: backoff_def Let_def)

lemma pause_ok:
  assumes "config_ok cfg"
  shows "pause ctx cfg n w = Some (ctx w)"
proof -
  have b: "0 < backoff cfg n" "backoff cfg n + 1 < 2 ^ 63"
    using backoff_bounds [of cfg n] assms by (auto simp: config_ok_def)
  then show ?thesis using sint_of_int [of "backoff cfg n + 1"] by (simp add: pause_def)
qed

lemma room_leader [simp]:
  "room n (setLeader u c) = room n c" "room n (clearLeader c) = room n c"
  "clCfg (setLeader u c) = clCfg c" "clCfg (clearLeader c) = clCfg c"
  by (simp_all add: room_def setLeader_def clearLeader_def)

lemma finish_simps [simp]:
  "rAttempts (finish res may) = rAttempts res" "rOutcome (finish res may) = (if may then Ambiguous else Rejected)"
  by (simp_all add: finish_def Let_def split: if_split)

lemma room_less: "room (m + n) c \<Longrightarrow> room n c"
  by (simp add: room_def)

lemma write_loop_total:
  assumes "config_ok (clCfg c)" "room (k * length (cfNodes (clCfg c))) c" "rAttempts res < attempt"
  shows "\<exists>c' res' w'. write_loop send ctx k attempt target may c res w = Some (c', res', w') \<and> clCfg c' = clCfg c \<and>
    rAttempts res' < attempt + k \<and> (0 < k \<longrightarrow> attempt \<le> rAttempts res')"
  using assms
proof (induction k arbitrary: attempt target may c res w)
  case (Suc k)
  let ?n = "length (cfNodes (clCfg c))"
  have here: "room (k * ?n) c" using Suc.prems(2) room_less [of ?n] by simp
  define fine where "fine r \<longleftrightarrow> (\<exists>c' res' w'. r = Some (c', res', w') \<and> clCfg c' = clCfg c \<and>
    rAttempts res' < Suc (attempt + k) \<and> attempt \<le> rAttempts res')" for r :: "(Client \<times> Result \<times> 'a) option"
  have done_now: "fine (Some (c1, r, w1))" if "clCfg c1 = clCfg c" "rAttempts r = attempt" for c1 r w1
    using that by (simp add: fine_def)
  have go: "fine (write_loop send ctx k (Suc attempt) t m c1 r w1)"
    if "clCfg c1 = clCfg c" "room (k * ?n) c1" "rAttempts r = attempt" for t m c1 r w1
  proof (cases k)
    case 0
    then show ?thesis using that by (simp add: fine_def)
  next
    case (Suc j)
    have "\<exists>c' res' w'. write_loop send ctx k (Suc attempt) t m c1 r w1 = Some (c', res', w') \<and> clCfg c' = clCfg c1 \<and>
        rAttempts res' < Suc attempt + k \<and> (0 < k \<longrightarrow> Suc attempt \<le> rAttempts res')"
      by (rule Suc.IH) (use Suc.prems(1) that in simp_all)
    then show ?thesis unfolding fine_def using that(1) Suc by (metis Suc_leD add_Suc zero_less_Suc)
  qed
  let ?c = "if target = Leader c then clearLeader c else c"
  have cfg: "clCfg ?c = clCfg c" "room (?n + k * ?n) ?c" using Suc.prems(2) by simp_all
  obtain t1 c1 where o1: "otherThan target ?c = Some (t1, c1)" "clCfg c1 = clCfg c" "room (k * ?n) c1"
    using otherThan_ok [of ?c "k * ?n" target] unfolding cfg(1) using cfg(2) by blast
  obtain t2 c2 where o2: "otherThan target (clearLeader c) = Some (t2, c2)" "clCfg c2 = clCfg c" "room (k * ?n) c2"
    using otherThan_ok [of "clearLeader c" "k * ?n" target] Suc.prems(2) by auto
  obtain w1 a where a: "send target w = (w1, a)" by (meson surj_pair)
  obtain w2 ended where ended: "ctx w1 = (w2, ended)" by (meson surj_pair)
  note p = pause_ok [OF Suc.prems(1), of ctx attempt w1, unfolded ended]
  have "fine (write_loop send ctx (Suc k) attempt target may c res w)"
  proof (cases a)
    case (Inl e)
    then show ?thesis
      by (cases e; cases ended) (simp_all add: Let_def a p o1 o2 done_now go split del: if_split)
  next
    case (Inr r)
    obtain status leader body where "r = (status, leader, body)" by (cases r)
    then show ?thesis using Inr here by (cases ended) (simp_all add: Let_def a p o2 done_now go)
  qed
  then show ?case by (simp add: fine_def)
qed simp

section \<open>What an outcome means\<close>

text \<open>
  What the client relies on. \<open>reached w\<close> says that some attempt has reached a handler or still may:
  a dial that fails and a redirect do not.
\<close>

definition answered :: "'w net \<Rightarrow> Result \<Rightarrow> 'w \<Rightarrow> bool" where
  "answered send res w' \<longleftrightarrow> (\<exists>w leader. send (rNode res) w = (w', Inr (rStatus res, leader, rBody res))) \<and>
     200 \<le> rStatus res \<and> rStatus res < 300"

locale write_path =
  fixes send :: "'w net" and ctx :: "'w \<Rightarrow> 'w \<times> bool" and reached :: "'w \<Rightarrow> bool"
  assumes dial_unsent: "send t w = (w', Inl DialFailure) \<Longrightarrow> reached w' = reached w"
    and redirect_unsent: "send t w = (w', Inr (421, leader, body)) \<Longrightarrow> reached w' = reached w"
    and pause_unsent: "ctx w = (w', ended) \<Longrightarrow> reached w' = reached w"
begin

lemma pause_reached: "pause ctx cfg n w = Some (w', ended) \<Longrightarrow> reached w' = reached w"
  by (auto simp: pause_def pause_unsent split: if_splits)

lemma gave_up:
  "write_loop send ctx k attempt target may c res w = Some (c', res', w') \<Longrightarrow> rOutcome res' = Rejected \<Longrightarrow> rErr res' \<noteq> None \<Longrightarrow>
     \<not> may \<and> reached w' = reached w"
proof (induction k arbitrary: attempt target may c res w)
  case 0
  then show ?case by (auto simp: finish_def Let_def split: if_splits)
next
  case (Suc k)
  obtain w1 a where a: "send target w = (w1, a)" by (meson surj_pair)
  show ?case
  proof (cases a)
    case (Inl e)
    show ?thesis
    proof (cases e)
      case DialFailure
      then show ?thesis
        using Suc.prems a Inl dial_unsent [of target w w1]
        by (auto simp: Let_def split: bind_splits prod.splits if_splits dest!: pause_reached dest: Suc.IH)
    next
      case OtherFailure
      then show ?thesis
        using Suc.prems a Inl
        by (auto simp: Let_def finish_def split: bind_splits prod.splits if_splits dest: Suc.IH)
    qed
  next
    case (Inr r)
    obtain status leader body where r: "r = (status, leader, body)" by (cases r)
    show ?thesis
    proof (cases "status = 421")
      case True
      then show ?thesis
        using Suc.prems a Inr r redirect_unsent [of target w w1 leader body]
        by (auto simp: Let_def split: bind_splits prod.splits if_splits dest: Suc.IH)
    next
      case False
      then show ?thesis
        using Suc.prems a Inr r
        by (auto simp: Let_def finish_def split: bind_splits prod.splits if_splits dest: Suc.IH)
    qed
  qed
qed

lemma accepted:
  "write_loop send ctx k attempt target may c res w = Some (c', res', w') \<Longrightarrow> rOutcome res' = Accepted \<Longrightarrow>
     answered send res' w'"
proof (induction k arbitrary: attempt target may c res w)
  case 0
  then show ?case by (auto simp: finish_def Let_def split: if_splits)
next
  case (Suc k)
  obtain w1 a where a: "send target w = (w1, a)" by (meson surj_pair)
  show ?case
  proof (cases a)
    case (Inl e)
    then show ?thesis
      using Suc.prems a
      by (cases e) (auto simp: Let_def finish_def split: bind_splits prod.splits if_splits dest: Suc.IH)
  next
    case (Inr r)
    obtain status leader body where r: "r = (status, leader, body)" by (cases r)
    show ?thesis
    proof (cases "200 \<le> status \<and> status < 300")
      case True
      then show ?thesis using Suc.prems a Inr r by (fastforce simp: Let_def answered_def)
    next
      case False
      then show ?thesis
        using Suc.prems a Inr r
        by (auto simp: Let_def finish_def split: bind_splits prod.splits if_splits dest: Suc.IH)
    qed
  qed
qed

end

section \<open>A cluster to write to\<close>

text \<open>
  What the network does with one attempt: the node cannot be dialled; or the request goes out and
  is not answered in time, so that it may be lost or be served at some later moment (among the
  events of a later attempt); or the node serves it after some events of its own, with what raft
  says there, and the answer may be lost.
\<close>

datatype weather = Down | Silent | Serving "dist_event list" cluster raft bool

record world =
  wnodes :: "string \<Rightarrow> dist_state"
  wscript :: "weather list"
  wends :: "bool list"
  wreached :: bool

definition cluster_send :: "dist_request \<Rightarrow> world net" where
  "cluster_send r t w =
     (case wscript w of
        Serving es cl raft lost # ws \<Rightarrow>
          (case Option.bind (dist_run es (wnodes w t)) (serve cl raft r) of
             None \<Rightarrow> (w\<lparr>wscript := ws, wreached := True\<rparr>, Inl OtherFailure)
           | Some (s', resp) \<Rightarrow>
               (w\<lparr>wnodes := (wnodes w)(t := s'), wscript := ws, wreached := wreached w \<or> IsLeader cl\<rparr>,
                if lost then Inl OtherFailure
                else Inr (rstatus resp, (case leaderHeader resp of None \<Rightarrow> '''' | Some u \<Rightarrow> u), '''')))
      | Silent # ws \<Rightarrow> (w\<lparr>wscript := ws, wreached := True\<rparr>, Inl OtherFailure)
      | ws \<Rightarrow> (w\<lparr>wscript := tl ws\<rparr>, Inl DialFailure))"

definition cluster_ctx :: "world \<Rightarrow> world \<times> bool" where
  "cluster_ctx w = (case wends w of [] \<Rightarrow> (w, True) | b # bs \<Rightarrow> (w\<lparr>wends := bs\<rparr>, b))"

lemma cluster_send_answer:
  assumes "cluster_send r t w = (w', Inr (status, leader, body))"
  shows "\<exists>es cl raft ws s s' resp. wscript w = Serving es cl raft False # ws \<and> dist_run es (wnodes w t) = Some s \<and>
    serve cl raft r s = Some (s', resp) \<and> rstatus resp = status \<and>
    w' = w\<lparr>wnodes := (wnodes w)(t := s'), wscript := ws, wreached := wreached w \<or> IsLeader cl\<rparr>"
  using assms
  by (auto simp: cluster_send_def split: list.splits weather.splits option.splits if_splits bind_splits prod.splits)

interpretation served: write_path "cluster_send r" cluster_ctx wreached for r
proof unfold_locales
  fix t w w' assume "cluster_send r t w = (w', Inl DialFailure)"
  then show "wreached w' = wreached w"
    by (auto simp: cluster_send_def split: list.splits weather.splits option.splits if_splits prod.splits)
next
  fix t w w' leader body assume "cluster_send r t w = (w', Inr (421, leader, body))"
  then obtain es cl raft ws s s' resp where "serve cl raft r s = Some (s', resp)" "rstatus resp = 421"
    "w' = w\<lparr>wnodes := (wnodes w)(t := s'), wscript := ws, wreached := wreached w \<or> IsLeader cl\<rparr>"
    using cluster_send_answer by blast
  then show "wreached w' = wreached w" using status_never_421 [of cl raft r s s' resp] by auto
next
  fix w w' ended assume "cluster_ctx w = (w', ended)"
  then show "wreached w' = wreached w" by (auto simp: cluster_ctx_def split: list.splits)
qed

lemma success_leads:
  assumes "serve cl raft r s = Some (s', resp)" "200 \<le> rstatus resp" "rstatus resp < 300"
  shows "IsLeader cl"
  using assms by (auto simp: serve_def requireLeader_def plain_def split: if_splits option.splits)

lemma accepted_committed:
  assumes "answered (cluster_send r) res w'"
  shows "\<exists>cl raft s resp. IsLeader cl \<and> serve cl raft r s = Some (wnodes w' (rNode res), resp) \<and> rstatus resp = rStatus res \<and>
    (raft_commits raft \<longrightarrow> (\<exists>cmd. request_cmd r (dstore s) = Some cmd \<and> logged cmd (dstore s) (dstore (wnodes w' (rNode res))) applied))"
proof -
  obtain w leader where ans: "cluster_send r (rNode res) w = (w', Inr (rStatus res, leader, rBody res))"
    and st: "200 \<le> rStatus res" "rStatus res < 300" using assms by (auto simp: answered_def)
  obtain es cl raft ws s s' resp where *: "serve cl raft r s = Some (s', resp)" "rstatus resp = rStatus res"
    "w' = w\<lparr>wnodes := (wnodes w)(rNode res := s'), wscript := ws, wreached := wreached w \<or> IsLeader cl\<rparr>"
    using cluster_send_answer [OF ans] by blast
  have node: "wnodes w' (rNode res) = s'" using *(3) by simp
  have lead: "IsLeader cl" using success_leads [OF *(1)] *(2) st by simp
  have "\<exists>cmd. request_cmd r (dstore s) = Some cmd \<and> logged cmd (dstore s) (dstore s') applied" if "raft_commits raft"
    using leader_status [OF that *(1) lead] *(2) st by (auto simp: status_says_def)
  then show ?thesis unfolding node using *(1,2) lead by blast
qed


definition sample_config :: client_config where
  "sample_config = \<lparr>cfNodes = [''a'', ''b''], cfMaxAttempts = 4, cfBaseBackoff = 0, cfMaxBackoff = 0, cfHTTPTimeout = 0, cfMaxConns = 0\<rparr>"

definition sample_client :: Client where
  "sample_client = the (client_New sample_config)"

definition sample_follower :: cluster where
  "sample_follower = \<lparr>IsLeader = False, leaderId = ''n2'', peerHTTP = fmupd ''n2'' ''b'' fmempty\<rparr>"

definition sample_world :: "weather list \<Rightarrow> world" where
  "sample_world ws = \<lparr>wnodes = (\<lambda>_. dist_start), wscript = ws, wends = replicate 4 False, wreached = False\<rparr>"

lemmas client_simps = client_Write_def sample_client_def client_New_def sample_config_def Leader_def nextNode_def otherThan_def Let_def
  pause_def backoff_def cluster_ctx_def setLeader_def clearLeader_def finish_def numeral_eq_Suc

lemma sample_redirect: "serve sample_follower raft r s = Some (s, \<lparr>rstatus = 421, leaderHeader = Some ''b'', retryAfter = False\<rparr>)"
  by (simp add: serve_def requireLeader_def sample_follower_def LeaderID_def plain_def)


text \<open>
  C18. A write always ends, within its budget: a client with a sensible configuration, whose node counter is not about to
  reach \<open>2^63\<close>, makes between one and \<open>MaxAttempts\<close> attempts whatever the network does, never
  panics and keeps its configuration, and the backoff that bounds the random pause between attempts
  is at least one nanosecond and at most \<open>MaxBackoff\<close>, also where the shift overflows.
\<close>

theorem client_write_bounded:
  assumes "config_ok (clCfg c)"
    "unat (clNext c) + 1 + nat (cfMaxAttempts (clCfg c)) * length (cfNodes (clCfg c)) \<le> 2 ^ 63"
  shows "(\<exists>c' res w'. client_Write send ctx c w = Some (c', res, w') \<and> clCfg c' = clCfg c \<and>
      1 \<le> rAttempts res \<and> int (rAttempts res) \<le> cfMaxAttempts (clCfg c)) \<and>
    0 < backoff (clCfg c) n \<and> backoff (clCfg c) n \<le> cfMaxBackoff (clCfg c)"
proof -
  let ?k = "nat (cfMaxAttempts (clCfg c))" and ?len = "length (cfNodes (clCfg c))"
  let ?res = "\<lparr>rOutcome = Ambiguous, rStatus = 0, rAttempts = 0, rNode = '''', rBody = '''', rErr = None\<rparr>"
  have room: "room (Suc (?k * ?len)) c" using assms by (simp add: room_def config_ok_def)
  then have room': "room (?k * ?len) c" by (simp add: room_def)
  have "\<exists>target c1. (if Leader c = '''' then nextNode c else Some (Leader c, c)) = Some (target, c1) \<and> clCfg c1 = clCfg c \<and> room (?k * ?len) c1"
    using nextNode_ok [OF room] room' by auto
  then obtain target c1 where c1: "(if Leader c = '''' then nextNode c else Some (Leader c, c)) = Some (target, c1)"
    "clCfg c1 = clCfg c" "room (?k * ?len) c1" by blast
  have k: "0 < ?k" "int ?k = cfMaxAttempts (clCfg c)" using assms(1) by (auto simp: config_ok_def)
  obtain c' res w' where "write_loop send ctx ?k 1 target False c1 ?res w = Some (c', res, w')" "clCfg c' = clCfg c"
    "rAttempts res < 1 + ?k" "1 \<le> rAttempts res"
    using write_loop_total [of c1 ?k ?res 1 send ctx target False w] assms(1) c1(2,3) k(1) by auto
  then have "\<exists>c' res w'. client_Write send ctx c w = Some (c', res, w') \<and> clCfg c' = clCfg c \<and>
      1 \<le> rAttempts res \<and> int (rAttempts res) \<le> cfMaxAttempts (clCfg c)"
    using c1(1) k(2) by (auto simp: client_Write_def)
  then show ?thesis using backoff_bounds assms(1) by (simp add: config_ok_def)
qed

theorem client_write_bounded_witness:
  "config_ok (clCfg sample_client) \<and>
   (\<exists>c' res w'. client_Write (cluster_send (ReqDelete ''q'')) cluster_ctx sample_client (sample_world []) = Some (c', res, w') \<and> rAttempts res \<le> 4)"
proof -
  have ok: "config_ok (clCfg sample_client)"
    by (simp add: config_ok_def sample_client_def client_New_def sample_config_def)
  have "unat (clNext sample_client) + 1 + nat (cfMaxAttempts (clCfg sample_client)) * length (cfNodes (clCfg sample_client)) \<le> 2 ^ 63"
    by (simp add: sample_client_def client_New_def sample_config_def)
  from client_write_bounded [OF ok this, of "cluster_send (ReqDelete ''q'')" cluster_ctx "sample_world []"]
  obtain c' res w' where run: "client_Write (cluster_send (ReqDelete ''q'')) cluster_ctx sample_client (sample_world []) = Some (c', res, w')"
    and "int (rAttempts res) \<le> cfMaxAttempts (clCfg sample_client)" by blast
  then have "rAttempts res \<le> 4" by (simp add: sample_client_def client_New_def sample_config_def)
  with ok run show ?thesis by blast
qed


end
