(* ===== verification/Delivery_Verdict.thy ===== *)
theory Delivery_Verdict
  imports Cluster_Client "HOL-Library.Product_Lexorder"
begin

text \<open>
  How the end-to-end tests of \<open>dist-mq\<close> reach their verdict: the tokens in the payloads, the sink that
  records what arrives, and the check of what was published against what was recorded.
\<close>

section \<open>Payloads\<close>

definition payload_Encode :: "string \<Rightarrow> int \<Rightarrow> bytes" where
  "payload_Encode token n =
     (let head = token @ [CHR 0x0A]; pad = n - int (length head) in
      if pad > 0 then head @ replicate (nat pad) CHR ''x'' else head)"

definition payload_Token :: "bytes \<Rightarrow> string" where
  "payload_Token body = takeWhile (\<lambda>b. b \<noteq> CHR 0x0A) body"

lemma Token_Encode: "CHR 0x0A \<notin> set token \<Longrightarrow> payload_Token (payload_Encode token n) = token"
proof -
  assume "CHR 0x0A \<notin> set token"
  then have "takeWhile (\<lambda>b. b \<noteq> CHR 0x0A) (token @ CHR 0x0A # rest) = token" for rest by (induction token) auto
  then show ?thesis by (simp add: payload_Token_def payload_Encode_def Let_def)
qed

section \<open>The sink\<close>

definition ModeCount :: string where "ModeCount = ''count''"
definition ModeRecord :: string where "ModeRecord = ''record''"

text \<open>\<open>seen\<close> is \<open>None\<close> for the nil map of count mode; counters of type \<open>uint64\<close> wrap around.\<close>

record subscriber =
  sbName :: string
  sbDelivered :: "64 word"
  sbSeen :: "(string, int) fmap option"
  sbDuplicates :: "64 word"

text \<open>Go's \<open>int\<close> wraps around at \<open>2^63\<close>.\<close>

definition int_inc :: "int \<Rightarrow> int" where
  "int_inc n = (if n = 2 ^ 63 - 1 then - (2 ^ 63) else n + 1)"

definition seen_count :: "(string, int) fmap \<Rightarrow> string \<Rightarrow> int" where
  "seen_count seen token = (case fmlookup seen token of None \<Rightarrow> 0 | Some n \<Rightarrow> n)"

text \<open>Writing to a nil map panics.\<close>

definition record_delivery :: "string \<Rightarrow> bytes \<Rightarrow> subscriber \<Rightarrow> subscriber option" where
  "record_delivery mode body s =
     (let s1 = s\<lparr>sbDelivered := sbDelivered s + 1\<rparr> in
      if mode \<noteq> ModeRecord then Some s1
      else let token = payload_Token body in
        case sbSeen s1 of
          None \<Rightarrow> None
        | Some seen \<Rightarrow>
            let n = int_inc (seen_count seen token);
                s2 = s1\<lparr>sbSeen := Some (fmupd token n seen)\<rparr>
            in Some (if n > 1 then s2\<lparr>sbDuplicates := sbDuplicates s2 + 1\<rparr> else s2))"

record SubStats =
  ssName :: string
  ssDelivered :: "64 word"
  ssUnique :: "64 word"
  ssDuplicates :: "64 word"

definition sub_stats :: "subscriber \<Rightarrow> SubStats" where
  "sub_stats s = \<lparr>ssName = sbName s, ssDelivered = sbDelivered s,
     ssUnique = (case sbSeen s of None \<Rightarrow> 0 | Some seen \<Rightarrow> of_nat (maplen seen)), ssDuplicates = sbDuplicates s\<rparr>"

definition sub_reset :: "subscriber \<Rightarrow> subscriber" where
  "sub_reset s = s\<lparr>sbDelivered := 0, sbSeen := map_option (\<lambda>_. fmempty) (sbSeen s), sbDuplicates := 0\<rparr>"

record sink =
  skMode :: string
  skSubs :: "(string, subscriber) fmap"
  skOrder :: "string list"
  skUnknown :: "64 word"

datatype sink_error = NoSubscribers | UnknownMode string | EmptyName | DuplicateSubscriber string | ListenFailed

fun sink_add :: "string list \<Rightarrow> sink \<Rightarrow> sink_error + sink" where
  "sink_add [] s = Inr s"
| "sink_add (name # names) s =
     (if name = '''' then Inl EmptyName
      else if name |\<in>| fmdom (skSubs s) then Inl (DuplicateSubscriber name)
      else sink_add names (s\<lparr>skSubs := fmupd name \<lparr>sbName = name, sbDelivered = 0,
             sbSeen = (if skMode s = ModeRecord then Some fmempty else None), sbDuplicates = 0\<rparr> (skSubs s),
           skOrder := skOrder s @ [name]\<rparr>))"

text \<open>\<open>listens\<close> says whether the listening socket could be opened.\<close>

definition sink_New :: "bool \<Rightarrow> string list \<Rightarrow> string \<Rightarrow> sink_error + sink" where
  "sink_New listens names mode0 =
     (if names = [] then Inl NoSubscribers
      else let mode = (if mode0 = '''' then ModeCount else mode0) in
        if mode \<noteq> ModeCount \<and> mode \<noteq> ModeRecord then Inl (UnknownMode mode)
        else case sink_add names \<lparr>skMode = mode, skSubs = fmempty, skOrder = [], skUnknown = 0\<rparr> of
          Inl e \<Rightarrow> Inl e
        | Inr s \<Rightarrow> if listens then Inr s else Inl ListenFailed)"

definition maxBody :: nat where
  "maxBody = 4 * 2 ^ 20"

text \<open>A body of \<open>None\<close> could not be read; one beyond \<open>maxBody\<close> is not read to its end.\<close>

definition handleDelivery :: "string \<Rightarrow> bytes option \<Rightarrow> sink \<Rightarrow> (sink \<times> nat) option" where
  "handleDelivery name body s =
     (case fmlookup (skSubs s) name of
        None \<Rightarrow> Some (s\<lparr>skUnknown := skUnknown s + 1\<rparr>, 404)
      | Some sub \<Rightarrow>
          (case body of
             None \<Rightarrow> Some (s, 400)
           | Some b \<Rightarrow>
               if length b > maxBody then Some (s, 400)
               else do {
                 sub' \<leftarrow> record_delivery (skMode s) b sub;
                 Some (s\<lparr>skSubs := fmupd name sub' (skSubs s)\<rparr>, 200)
               }))"

record Stats =
  stMode :: string
  stDelivered :: "64 word"
  stUnknown :: "64 word"
  stSubscribers :: "SubStats list"

definition handleStats :: "sink \<Rightarrow> Stats" where
  "handleStats s =
     (let subs = map (\<lambda>name. sub_stats (the (fmlookup (skSubs s) name))) (skOrder s) in
      \<lparr>stMode = skMode s, stDelivered = sum_list (map ssDelivered subs), stUnknown = skUnknown s, stSubscribers = subs\<rparr>)"

type_synonym records = "(string, (string, int) fmap) fmap"

definition handleRecords :: "sink \<Rightarrow> records" where
  "handleRecords s =
     fold (\<lambda>name. fmupd name (case sbSeen (the (fmlookup (skSubs s) name)) of None \<Rightarrow> fmempty | Some seen \<Rightarrow> seen)) (skOrder s) fmempty"

definition handleReset :: "sink \<Rightarrow> sink" where
  "handleReset s = s\<lparr>skSubs := fmmap sub_reset (skSubs s), skUnknown := 0\<rparr>"

section \<open>The check\<close>

record Publication =
  pubToken :: string
  pubOutcome :: Outcome

record Miss =
  missSubscriber :: string
  missToken :: string

record Report =
  repAccepted :: nat
  repAmbiguous :: nat
  repRejected :: nat
  repMissing :: "Miss list"
  repPhantom :: "string list"
  repRejectedButDelivered :: "string list"
  repDuplicates :: int
  repAmbiguousDelivered :: nat

definition tokens :: "Outcome \<Rightarrow> Publication list \<Rightarrow> string fset" where
  "tokens out pubs = fset_of_list (map pubToken (filter (\<lambda>p. pubOutcome p = out) pubs))"

definition recorded :: "records \<Rightarrow> string \<Rightarrow> (string, int) fmap" where
  "recorded records sub = (case fmlookup records sub of None \<Rightarrow> fmempty | Some seen \<Rightarrow> seen)"

definition sortMisses :: "Miss list \<Rightarrow> Miss list" where
  "sortMisses ms = sort_key (\<lambda>m. (missSubscriber m, missToken m)) ms"

text \<open>One pass over what a subscriber recorded, token by token.\<close>

definition check_token :: "string fset \<Rightarrow> string fset \<Rightarrow> string fset \<Rightarrow> (string, int) fmap \<Rightarrow> string \<Rightarrow> Report \<times> string fset \<Rightarrow> Report \<times> string fset" where
  "check_token accepted ambiguous rejected seen token = (\<lambda>(rep, da).
     let count = seen_count seen token;
         rep1 = (if count > 1 then rep\<lparr>repDuplicates := repDuplicates rep + (count - 1)\<rparr> else rep)
     in if token |\<in>| accepted then (rep1, da)
        else if token |\<in>| ambiguous then (rep1, finsert token da)
        else if token |\<in>| rejected then (rep1\<lparr>repRejectedButDelivered := repRejectedButDelivered rep1 @ [token]\<rparr>, da)
        else (rep1\<lparr>repPhantom := repPhantom rep1 @ [token]\<rparr>, da))"

definition Check :: "order \<Rightarrow> Publication list \<Rightarrow> records \<Rightarrow> string list \<Rightarrow> Report" where
  "Check ord pubs records subscribers =
     (let accepted = tokens Accepted pubs; ambiguous = tokens Ambiguous pubs; rejected = tokens Rejected pubs;
          missing = concat (map (\<lambda>sub.
            map (\<lambda>token. \<lparr>missSubscriber = sub, missToken = token\<rparr>)
              (filter (\<lambda>token. seen_count (recorded records sub) token = 0) (ord accepted))) subscribers);
          rep0 = \<lparr>repAccepted = length (filter (\<lambda>p. pubOutcome p = Accepted) pubs),
            repAmbiguous = length (filter (\<lambda>p. pubOutcome p = Ambiguous) pubs),
            repRejected = length (filter (\<lambda>p. pubOutcome p = Rejected) pubs),
            repMissing = missing, repPhantom = [], repRejectedButDelivered = [], repDuplicates = 0, repAmbiguousDelivered = 0\<rparr>;
          (rep, da) = fold (\<lambda>sub. fold (check_token accepted ambiguous rejected (recorded records sub))
            (ord (fmdom (recorded records sub)))) subscribers (rep0, {||})
      in rep\<lparr>repAmbiguousDelivered := fcard da, repMissing := sortMisses (repMissing rep),
           repPhantom := sort (repPhantom rep), repRejectedButDelivered := sort (repRejectedButDelivered rep)\<rparr>)"

datatype problem = NeverDelivered nat Miss | NeverPublished nat string | DeliveredAnyway nat string

text \<open>The problems that the error joins; \<open>[]\<close> is no error.\<close>

definition report_Err :: "Report \<Rightarrow> problem list" where
  "report_Err r =
     (if repMissing r \<noteq> [] then [NeverDelivered (length (repMissing r)) (hd (repMissing r))] else []) @
     (if repPhantom r \<noteq> [] then [NeverPublished (length (repPhantom r)) (hd (repPhantom r))] else []) @
     (if repRejectedButDelivered r \<noteq> []
      then [DeliveredAnyway (length (repRejectedButDelivered r)) (hd (repRejectedButDelivered r))] else [])"

section \<open>What the check looks at\<close>

definition stray :: "string fset \<Rightarrow> string fset \<Rightarrow> (string \<Rightarrow> bool) \<Rightarrow> string list \<Rightarrow> string list" where
  "stray accepted ambiguous P ts = filter (\<lambda>t. t |\<notin>| accepted \<and> t |\<notin>| ambiguous \<and> P t) ts"

lemma fold_check_token:
  "\<exists>rep' da'. fold (check_token A M R seen) ts (rep, da) = (rep', da') \<and> repMissing rep' = repMissing rep \<and>
     repPhantom rep' = repPhantom rep @ stray A M (\<lambda>t. t |\<notin>| R) ts \<and>
     repRejectedButDelivered rep' = repRejectedButDelivered rep @ stray A M (\<lambda>t. t |\<in>| R) ts"
proof (induction ts arbitrary: rep da)
  case (Cons t ts)
  obtain rep1 da1 where 1: "check_token A M R seen t (rep, da) = (rep1, da1)" by (meson surj_pair)
  then have "repMissing rep1 = repMissing rep" "repPhantom rep1 = repPhantom rep @ stray A M (\<lambda>t. t |\<notin>| R) [t]"
    "repRejectedButDelivered rep1 = repRejectedButDelivered rep @ stray A M (\<lambda>t. t |\<in>| R) [t]"
    by (auto simp: check_token_def stray_def Let_def split: if_splits)
  with 1 Cons.IH [of rep1 da1] show ?case by (auto simp: stray_def)
qed (simp add: stray_def)

lemma fold_check:
  "\<exists>rep' da'. fold (\<lambda>sub. fold (check_token A M R (f sub)) (g sub)) subs (rep, da) = (rep', da') \<and> repMissing rep' = repMissing rep \<and>
     repPhantom rep' = repPhantom rep @ concat (map (\<lambda>sub. stray A M (\<lambda>t. t |\<notin>| R) (g sub)) subs) \<and>
     repRejectedButDelivered rep' = repRejectedButDelivered rep @ concat (map (\<lambda>sub. stray A M (\<lambda>t. t |\<in>| R) (g sub)) subs)"
proof (induction subs arbitrary: rep da)
  case (Cons sub subs)
  obtain rep1 da1 where 1: "fold (check_token A M R (f sub)) (g sub) (rep, da) = (rep1, da1)" "repMissing rep1 = repMissing rep"
    "repPhantom rep1 = repPhantom rep @ stray A M (\<lambda>t. t |\<notin>| R) (g sub)"
    "repRejectedButDelivered rep1 = repRejectedButDelivered rep @ stray A M (\<lambda>t. t |\<in>| R) (g sub)"
    using fold_check_token [of A M R "f sub" "g sub" rep da] by blast
  show ?case using 1 Cons.IH [of rep1 da1] by auto
qed simp

lemma sort_key_Nil [simp]: "sort_key f xs = [] \<longleftrightarrow> xs = []"
  by (metis length_0_conv length_sort)

text \<open>The lists of the report before they are sorted.\<close>

lemma Check_lists:
  defines "A pubs \<equiv> tokens Accepted pubs" and "M pubs \<equiv> tokens Ambiguous pubs" and "R pubs \<equiv> tokens Rejected pubs"
  shows "repMissing (Check ord pubs recs subs) = sortMisses (concat (map (\<lambda>sub. map (\<lambda>t. \<lparr>missSubscriber = sub, missToken = t\<rparr>)
      (filter (\<lambda>t. seen_count (recorded recs sub) t = 0) (ord (A pubs)))) subs))"
    "repPhantom (Check ord pubs recs subs) = sort (concat (map (\<lambda>sub. stray (A pubs) (M pubs) (\<lambda>t. t |\<notin>| R pubs) (ord (fmdom (recorded recs sub)))) subs))"
    "repRejectedButDelivered (Check ord pubs recs subs) =
      sort (concat (map (\<lambda>sub. stray (A pubs) (M pubs) (\<lambda>t. t |\<in>| R pubs) (ord (fmdom (recorded recs sub)))) subs))"
proof -
  let ?rep = "\<lparr>repAccepted = length (filter (\<lambda>p. pubOutcome p = Accepted) pubs),
    repAmbiguous = length (filter (\<lambda>p. pubOutcome p = Ambiguous) pubs),
    repRejected = length (filter (\<lambda>p. pubOutcome p = Rejected) pubs),
    repMissing = concat (map (\<lambda>sub. map (\<lambda>t. \<lparr>missSubscriber = sub, missToken = t\<rparr>)
      (filter (\<lambda>t. seen_count (recorded recs sub) t = 0) (ord (A pubs)))) subs),
    repPhantom = [], repRejectedButDelivered = [], repDuplicates = 0, repAmbiguousDelivered = 0\<rparr>"
  obtain rep' da' where f: "fold (\<lambda>sub. fold (check_token (A pubs) (M pubs) (R pubs) (recorded recs sub)) (ord (fmdom (recorded recs sub)))) subs
      (?rep, {||}) = (rep', da')" "repMissing rep' = repMissing ?rep"
    "repPhantom rep' = repPhantom ?rep @ concat (map (\<lambda>sub. stray (A pubs) (M pubs) (\<lambda>t. t |\<notin>| R pubs) (ord (fmdom (recorded recs sub)))) subs)"
    "repRejectedButDelivered rep' = repRejectedButDelivered ?rep @
      concat (map (\<lambda>sub. stray (A pubs) (M pubs) (\<lambda>t. t |\<in>| R pubs) (ord (fmdom (recorded recs sub)))) subs)"
    using fold_check [of "A pubs" "M pubs" "R pubs" "recorded recs" "\<lambda>sub. ord (fmdom (recorded recs sub))" subs ?rep "{||}"] by blast
  have "Check ord pubs recs subs = rep'\<lparr>repAmbiguousDelivered := fcard da', repMissing := sortMisses (repMissing rep'),
      repPhantom := sort (repPhantom rep'), repRejectedButDelivered := sort (repRejectedButDelivered rep')\<rparr>"
    using f(1) by (simp add: Check_def Let_def A_def M_def R_def)
  then show "repMissing (Check ord pubs recs subs) = sortMisses (concat (map (\<lambda>sub. map (\<lambda>t. \<lparr>missSubscriber = sub, missToken = t\<rparr>)
      (filter (\<lambda>t. seen_count (recorded recs sub) t = 0) (ord (A pubs)))) subs))"
    "repPhantom (Check ord pubs recs subs) = sort (concat (map (\<lambda>sub. stray (A pubs) (M pubs) (\<lambda>t. t |\<notin>| R pubs) (ord (fmdom (recorded recs sub)))) subs))"
    "repRejectedButDelivered (Check ord pubs recs subs) =
      sort (concat (map (\<lambda>sub. stray (A pubs) (M pubs) (\<lambda>t. t |\<in>| R pubs) (ord (fmdom (recorded recs sub)))) subs))"
    using f(2-4) by simp_all
qed

lemma tokens_iff: "t |\<in>| tokens out pubs \<longleftrightarrow> (\<exists>p \<in> set pubs. pubToken p = t \<and> pubOutcome p = out)"
  by (auto simp: tokens_def fset_of_list.rep_eq)

lemma Check_passes:
  assumes "visits_all ord"
  shows "report_Err (Check ord pubs recs subs) = [] \<longleftrightarrow>
    (\<forall>sub \<in> set subs. (\<forall>t. t |\<in>| tokens Accepted pubs \<longrightarrow> seen_count (recorded recs sub) t \<noteq> 0) \<and>
       (\<forall>t. t |\<in>| fmdom (recorded recs sub) \<longrightarrow> t |\<in>| tokens Accepted pubs \<or> t |\<in>| tokens Ambiguous pubs))"
proof -
  note v = visits_allD(2) [OF assms]
  have "report_Err (Check ord pubs recs subs) = [] \<longleftrightarrow> repMissing (Check ord pubs recs subs) = [] \<and>
      repPhantom (Check ord pubs recs subs) = [] \<and> repRejectedButDelivered (Check ord pubs recs subs) = []"
    by (simp add: report_Err_def)
  also have "\<dots> \<longleftrightarrow> (\<forall>sub \<in> set subs. (\<forall>t. t |\<in>| tokens Accepted pubs \<longrightarrow> seen_count (recorded recs sub) t \<noteq> 0) \<and>
       (\<forall>t. t |\<in>| fmdom (recorded recs sub) \<longrightarrow> t |\<in>| tokens Accepted pubs \<or> t |\<in>| tokens Ambiguous pubs))"
    unfolding Check_lists sortMisses_def
    by (simp add: stray_def filter_empty_conv v del: fmlookup_dom_iff) blast
  finally show ?thesis .
qed

section \<open>What the sink records\<close>

text \<open>A delivery: the subscriber it is addressed to, the token and the size of the payload.\<close>

fun deliver :: "(string \<times> string \<times> int) list \<Rightarrow> sink \<Rightarrow> sink option" where
  "deliver [] s = Some s"
| "deliver ((name, token, n) # ds) s = do {
     (s', _) \<leftarrow> handleDelivery name (Some (payload_Encode token n)) s;
     deliver ds s'
   }"

text \<open>A payload that carries its token back: no newline in the token, and within the limit.\<close>

definition plain_payload :: "string \<Rightarrow> int \<Rightarrow> bool" where
  "plain_payload token n \<longleftrightarrow> CHR 0x0A \<notin> set token \<and> length (payload_Encode token n) \<le> maxBody"

definition tally :: "string \<Rightarrow> string \<Rightarrow> (string \<times> string \<times> int) list \<Rightarrow> nat" where
  "tally name token ds = length (filter (\<lambda>(n, t, _). n = name \<and> t = token) ds)"

lemma tally_simps [simp]:
  "tally name token [] = 0"
  "tally name token (ds @ [(n, t, k)]) = tally name token ds + (if n = name \<and> t = token then 1 else 0)"
  by (simp_all add: tally_def)

lemma tally_le: "tally name token ds \<le> length ds"
  by (simp add: tally_def)

lemma tally_pos: "tally name token ds \<noteq> 0 \<longleftrightarrow> (\<exists>n. (name, token, n) \<in> set ds)"
  by (auto simp: tally_def filter_empty_conv)

definition tallied :: "string \<Rightarrow> (string \<times> string \<times> int) list \<Rightarrow> subscriber \<Rightarrow> bool" where
  "tallied name ds sub \<longleftrightarrow> (\<exists>seen. sbSeen sub = Some seen \<and>
     (\<forall>t. fmlookup seen t = (if tally name t ds = 0 then None else Some (int (tally name t ds)))))"

lemma tallied_other: "k \<noteq> name \<Longrightarrow> tallied k (ds @ [(name, token, n)]) sub = tallied k ds sub"
  by (simp add: tallied_def)

definition recording :: "string list \<Rightarrow> (string \<times> string \<times> int) list \<Rightarrow> sink \<Rightarrow> bool" where
  "recording names ds s \<longleftrightarrow> skMode s = ModeRecord \<and> skOrder s = names \<and> fmdom (skSubs s) = fset_of_list names \<and>
     (\<forall>name sub. fmlookup (skSubs s) name = Some sub \<longrightarrow> tallied name ds sub)"

lemma recording_step:
  assumes "recording names ds s" "plain_payload token n" "int (length ds) < 2 ^ 63 - 1"
  shows "\<exists>s' status. handleDelivery name (Some (payload_Encode token n)) s = Some (s', status) \<and> recording names (ds @ [(name, token, n)]) s'"
proof (cases "fmlookup (skSubs s) name")
  case None
  have "recording names (ds @ [(name, token, n)]) (s\<lparr>skUnknown := skUnknown s + 1\<rparr>)"
    unfolding recording_def
  proof (intro conjI allI impI)
    fix k sub assume k: "fmlookup (skSubs (s\<lparr>skUnknown := skUnknown s + 1\<rparr>)) k = Some sub"
    then have "k \<noteq> name" using None by auto
    then show "tallied k (ds @ [(name, token, n)]) sub" using assms(1) k by (simp add: recording_def tallied_other)
  qed (use assms(1) in \<open>simp_all add: recording_def\<close>)
  then show ?thesis using None by (simp add: handleDelivery_def)
next
  case (Some sub)
  obtain seen where seen: "sbSeen sub = Some seen"
    "\<And>t. fmlookup seen t = (if tally name t ds = 0 then None else Some (int (tally name t ds)))"
    using assms(1) Some unfolding recording_def tallied_def by blast
  have mode: "skMode s = ModeRecord" using assms(1) by (simp add: recording_def)
  have fit: "CHR 0x0A \<notin> set token" "\<not> maxBody < length (payload_Encode token n)" using assms(2) by (simp_all add: plain_payload_def)
  have c: "seen_count seen token = int (tally name token ds)" using seen(2) [of token] by (simp add: seen_count_def)
  have inc: "int_inc (seen_count seen token) = int (tally name token ds) + 1"
    using tally_le [of name token ds] assms(3) c by (simp add: int_inc_def)
  obtain sub' where sub': "record_delivery (skMode s) (payload_Encode token n) sub = Some sub'"
    "sbSeen sub' = Some (fmupd token (int (tally name token ds) + 1) seen)"
    using seen(1) inc by (auto simp: record_delivery_def mode Let_def Token_Encode [OF fit(1)])
  let ?s = "s\<lparr>skSubs := fmupd name sub' (skSubs s)\<rparr>"
  have "recording names (ds @ [(name, token, n)]) ?s"
    unfolding recording_def
  proof (intro conjI allI impI)
    show "fmdom (skSubs ?s) = fset_of_list names" using assms(1) Some by (auto simp: recording_def intro: fmdomI)
    fix k r assume k: "fmlookup (skSubs ?s) k = Some r"
    show "tallied k (ds @ [(name, token, n)]) r"
    proof (cases "k = name")
      case True
      then show ?thesis using k sub'(2) seen(2) by (auto simp: tallied_def)
    next
      case False
      then show ?thesis using assms(1) k by (simp add: recording_def tallied_other)
    qed
  qed (use assms(1) in \<open>simp_all add: recording_def\<close>)
  then show ?thesis using Some sub'(1) fit(2) by (simp add: handleDelivery_def)
qed

lemma recording_run:
  assumes "recording names ds0 s" "\<And>name token n. (name, token, n) \<in> set ds \<Longrightarrow> plain_payload token n" "int (length ds0 + length ds) < 2 ^ 63"
  shows "\<exists>s'. deliver ds s = Some s' \<and> recording names (ds0 @ ds) s'"
  using assms
proof (induction ds arbitrary: ds0 s)
  case (Cons d ds)
  obtain name token n where d: "d = (name, token, n)" by (cases d)
  have "plain_payload token n" "int (length ds0) < 2 ^ 63 - 1" using Cons.prems(2) [of name token n] Cons.prems(3) d by simp_all
  then obtain s1 status where s1: "handleDelivery name (Some (payload_Encode token n)) s = Some (s1, status)" "recording names (ds0 @ [d]) s1"
    using recording_step [OF Cons.prems(1)] d by blast
  have "\<exists>s'. deliver ds s1 = Some s' \<and> recording names ((ds0 @ [d]) @ ds) s'"
    by (rule Cons.IH [OF s1(2)]) (use Cons.prems(2,3) in auto)
  then show ?case using s1(1) d by simp
qed simp

lemma sink_add_ok:
  assumes "sink_add names s = Inr s'" "recording (skOrder s) [] s" "distinct (skOrder s)"
  shows "recording (skOrder s @ names) [] s' \<and> distinct (skOrder s @ names)"
  using assms
proof (induction names s rule: sink_add.induct)
  case (2 name names s)
  let ?sub = "\<lparr>sbName = name, sbDelivered = 0, sbSeen = (if skMode s = ModeRecord then Some fmempty else None), sbDuplicates = 0\<rparr>"
  let ?s = "s\<lparr>skSubs := fmupd name ?sub (skSubs s), skOrder := skOrder s @ [name]\<rparr>"
  have ok: "name \<noteq> ''''" "name |\<notin>| fmdom (skSubs s)" "sink_add names ?s = Inr s'"
    using "2.prems"(1) by (auto split: if_splits)
  have "recording (skOrder ?s) [] ?s" using "2.prems"(2) by (auto simp: recording_def tallied_def)
  moreover have "distinct (skOrder ?s)" using ok(2) "2.prems"(2,3) by (auto simp: recording_def fset_of_list.rep_eq)
  ultimately show ?case using "2.IH" [OF ok(1,2,3)] by simp
qed simp

lemma sink_New_ok:
  assumes "sink_New listens names ModeRecord = Inr s"
  shows "recording names [] s" "distinct names"
proof -
  let ?s = "\<lparr>skMode = ModeRecord, skSubs = fmempty, skOrder = [], skUnknown = 0\<rparr>"
  have "sink_add names ?s = Inr s" using assms by (auto simp: sink_New_def Let_def ModeRecord_def split: if_splits sum.splits)
  moreover have "recording (skOrder ?s) [] ?s" by (simp add: recording_def)
  ultimately show "recording names [] s" "distinct names" using sink_add_ok by fastforce+
qed

lemma fold_fmupd_fun:
  "fmlookup (fold (\<lambda>k. fmupd k (f k)) ks m) k = (if k \<in> set ks then Some (f k) else fmlookup m k)"
  by (induction ks arbitrary: m) auto

lemma recorded_sink:
  assumes "recording names ds s" "name \<in> set names"
  shows "fmlookup (recorded (handleRecords s) name) t = (if tally name t ds = 0 then None else Some (int (tally name t ds)))"
proof -
  have "name |\<in>| fmdom (skSubs s)" using assms by (simp add: recording_def fset_of_list_elem)
  then obtain sub where sub: "fmlookup (skSubs s) name = Some sub" by (auto simp: fmlookup_dom_iff)
  obtain seen where "sbSeen sub = Some seen" "fmlookup seen t = (if tally name t ds = 0 then None else Some (int (tally name t ds)))"
    using assms(1) sub unfolding recording_def tallied_def by blast
  then show ?thesis using assms sub by (simp add: recorded_def handleRecords_def fold_fmupd_fun recording_def)
qed

section \<open>The verdict\<close>

text \<open>
  C19. The verdict of a durability run is exact. Whatever payloads are delivered to a recording sink, in whatever order and
  however often, the sink does not panic, and the check of its records passes if and only if every token whose
  publication was accepted has been delivered to every subscriber at least once, and every token delivered to a
  subscriber was published and not only rejected. Tokens contain no newline, payloads stay within \<open>maxBody\<close>, there are
  fewer than \<open>2^63\<close> deliveries, and the check gets the records as the sink has them, without their way through JSON.
\<close>

theorem verdict_exact:
  assumes "visits_all ord" "sink_New listens names ModeRecord = Inr s0" "\<forall>(name, token, n) \<in> set ds. plain_payload token n"
    "length ds < 2 ^ 63"
  shows "\<exists>s. deliver ds s0 = Some s \<and>
    (report_Err (Check ord pubs (handleRecords s) names) = [] \<longleftrightarrow>
       (\<forall>sub \<in> set names. \<forall>p \<in> set pubs. pubOutcome p = Accepted \<longrightarrow> (\<exists>n. (sub, pubToken p, n) \<in> set ds)) \<and>
       (\<forall>(sub, token, n) \<in> set ds. sub \<in> set names \<longrightarrow> (\<exists>p \<in> set pubs. pubToken p = token \<and> pubOutcome p \<noteq> Rejected)))"
proof -
  have clean: "plain_payload token n" if "(name, token, n) \<in> set ds" for name token n using assms(3) that by auto
  have "int (length ds) < int (2 ^ 63)" using assms(4) by (simp only: of_nat_less_iff)
  then have few: "int (length ([] :: (string \<times> string \<times> int) list) + length ds) < 2 ^ 63" by simp
  have "\<exists>s. deliver ds s0 = Some s \<and> recording names ([] @ ds) s"
    by (rule recording_run [OF sink_New_ok(1) [OF assms(2)] _ few]) (rule clean)
  then obtain s where s: "deliver ds s0 = Some s" "recording names ds s" by auto
  note rec = recorded_sink [OF s(2)]
  have count: "seen_count (recorded (handleRecords s) sub) t \<noteq> 0 \<longleftrightarrow> tally sub t ds \<noteq> 0"
    "t |\<in>| fmdom (recorded (handleRecords s) sub) \<longleftrightarrow> tally sub t ds \<noteq> 0" if "sub \<in> set names" for sub t
    using rec [OF that, of t] by (simp_all add: seen_count_def fmlookup_dom_iff)
  have "report_Err (Check ord pubs (handleRecords s) names) = [] \<longleftrightarrow>
      (\<forall>sub \<in> set names. (\<forall>t. t |\<in>| tokens Accepted pubs \<longrightarrow> tally sub t ds \<noteq> 0) \<and>
         (\<forall>t. tally sub t ds \<noteq> 0 \<longrightarrow> t |\<in>| tokens Accepted pubs \<or> t |\<in>| tokens Ambiguous pubs))"
    unfolding Check_passes [OF assms(1)] using count by (intro ball_cong refl) simp
  also have "\<dots> \<longleftrightarrow> (\<forall>sub \<in> set names. \<forall>p \<in> set pubs. pubOutcome p = Accepted \<longrightarrow> (\<exists>n. (sub, pubToken p, n) \<in> set ds)) \<and>
       (\<forall>(sub, token, n) \<in> set ds. sub \<in> set names \<longrightarrow> (\<exists>p \<in> set pubs. pubToken p = token \<and> pubOutcome p \<noteq> Rejected))"
  proof -
    have "out \<noteq> Rejected \<longleftrightarrow> out = Accepted \<or> out = Ambiguous" for out by (cases out) simp_all
    then have pub: "t |\<in>| tokens Accepted pubs \<or> t |\<in>| tokens Ambiguous pubs \<longleftrightarrow> (\<exists>p \<in> set pubs. pubToken p = t \<and> pubOutcome p \<noteq> Rejected)" for t
      unfolding tokens_iff by blast
    have triple: "(\<forall>(sub, token, n) \<in> set ds. P sub token) \<longleftrightarrow> (\<forall>sub token. (\<exists>n. (sub, token, n) \<in> set ds) \<longrightarrow> P sub token)" for P
      by auto
    show ?thesis unfolding pub triple tally_pos unfolding tokens_iff by blast
  qed
  finally show ?thesis using s(1) by blast
qed

definition sample_pubs :: "Publication list" where
  "sample_pubs = [\<lparr>pubToken = ''t1'', pubOutcome = Accepted\<rparr>, \<lparr>pubToken = ''t2'', pubOutcome = Ambiguous\<rparr>, \<lparr>pubToken = ''t3'', pubOutcome = Rejected\<rparr>]"

text \<open>Delivered twice to one subscriber and once to the other passes; a missing delivery does not.\<close>

theorem verdict_exact_witness:
  "\<exists>s0 s1 s2. sink_New True [''sub-0'', ''sub-1''] ModeRecord = Inr s0 \<and>
     deliver [(''sub-0'', ''t1'', 8), (''sub-1'', ''t1'', 8), (''sub-0'', ''t1'', 8), (''sub-1'', ''t2'', 1)] s0 = Some s1 \<and>
     report_Err (Check sorted_list_of_fset sample_pubs (handleRecords s1) [''sub-0'', ''sub-1'']) = [] \<and>
     deliver [(''sub-0'', ''t1'', 8)] s0 = Some s2 \<and>
     report_Err (Check sorted_list_of_fset sample_pubs (handleRecords s2) [''sub-0'', ''sub-1'']) \<noteq> []"
proof -
  have "\<exists>s0. sink_New True [''sub-0'', ''sub-1''] ModeRecord = Inr s0"
    by (simp add: sink_New_def ModeRecord_def ModeCount_def Let_def)
  then obtain s0 where s0: "sink_New True [''sub-0'', ''sub-1''] ModeRecord = Inr s0" by blast
  have fit: "plain_payload ''t1'' 8" "plain_payload ''t2'' 1" by (simp_all add: plain_payload_def payload_Encode_def maxBody_def)
  note v = verdict_exact [OF visits_all_sorted s0, where pubs = sample_pubs]
  obtain s1 where "deliver [(''sub-0'', ''t1'', 8), (''sub-1'', ''t1'', 8), (''sub-0'', ''t1'', 8), (''sub-1'', ''t2'', 1)] s0 = Some s1"
    "report_Err (Check sorted_list_of_fset sample_pubs (handleRecords s1) [''sub-0'', ''sub-1'']) = []"
    using v [of "[(''sub-0'', ''t1'', 8), (''sub-1'', ''t1'', 8), (''sub-0'', ''t1'', 8), (''sub-1'', ''t2'', 1)]"] fit
    by (auto simp: sample_pubs_def)
  moreover obtain s2 where "deliver [(''sub-0'', ''t1'', 8)] s0 = Some s2"
    "report_Err (Check sorted_list_of_fset sample_pubs (handleRecords s2) [''sub-0'', ''sub-1'']) \<noteq> []"
    using v [of "[(''sub-0'', ''t1'', 8)]"] fit by (auto simp: sample_pubs_def)
  ultimately show ?thesis using s0 by blast
qed

end
