(* ===== verification/Wal_Log.thy ===== *)
theory Wal_Log
  imports Wal
begin

text \<open>
  The log as a list of records. A directory \<^emph>\<open>stores\<close> a log when its segments hold the
  encodings of consecutively numbered records, split over files named after their first
  record. Appending extends the list, reading returns it (with checkpoints spliced in),
  and opening a directory whose last file has a torn tail restores it.
\<close>

section \<open>Directories that store a log\<close>

fun numbered :: "nat \<Rightarrow> Record list \<Rightarrow> bool" where
  "numbered s [] = True"
| "numbered s (r # rs) = (LSN r = s \<and> numbered (Suc s) rs)"

text \<open>\<open>cs\<close> are the records of the closed segments, from number \<open>s\<close> on; none is empty.\<close>

fun seg_names :: "nat \<Rightarrow> Record list list \<Rightarrow> string list" where
  "seg_names s [] = []"
| "seg_names s (c # cs) = segmentFileName s # seg_names (s + length c) cs"

fun closed :: "nat \<Rightarrow> Record list list \<Rightarrow> fs \<Rightarrow> bool" where
  "closed s [] fs = True"
| "closed s (c # cs) fs =
     (c \<noteq> [] \<and> fmlookup fs (segmentFileName s) = Some (encode_all c) \<and> closed (s + length c) cs fs)"

definition open_lsn :: "nat \<Rightarrow> Record list list \<Rightarrow> nat" where
  "open_lsn s cs = s + length (concat cs)"

definition all_names :: "nat \<Rightarrow> Record list list \<Rightarrow> string list" where
  "all_names s cs = seg_names s cs @ [segmentFileName (open_lsn s cs)]"

text \<open>The open segment holds \<open>c\<close>, followed by \<open>t\<close>.\<close>

definition stored :: "nat \<Rightarrow> Record list list \<Rightarrow> Record list \<Rightarrow> bytes \<Rightarrow> fs \<Rightarrow> bool" where
  "stored s cs c t fs \<longleftrightarrow> closed s cs fs \<and>
     fmlookup fs (segmentFileName (open_lsn s cs)) = Some (encode_all c @ t) \<and>
     with_suffix ''.wal'' fs = all_names s cs \<and>
     numbered s (concat cs @ c) \<and> list_all storable (concat cs @ c) \<and> open_lsn s cs + length c < 2 ^ 64"

text \<open>A running log: what the segment manager and the writer know about the directory.\<close>

definition live :: "nat \<Rightarrow> Record list list \<Rightarrow> Record list \<Rightarrow> fs \<Rightarrow> SegmentManager \<Rightarrow> Writer \<Rightarrow> bool" where
  "live s cs c fs sm w \<longleftrightarrow> stored s cs c [] fs \<and> segments sm = all_names s cs \<and>
     wfile w = segmentFileName (open_lsn s cs) \<and> wopen w \<and>
     currentSize w = length (encode_all c) \<and> nextLSN w = open_lsn s cs + length c"

lemma numbered_append [simp]: "numbered s (xs @ ys) \<longleftrightarrow> numbered s xs \<and> numbered (s + length xs) ys"
  by (induction xs arbitrary: s) auto

lemma numbered_nth: "numbered s rs \<Longrightarrow> i < length rs \<Longrightarrow> LSN (rs ! i) = s + i"
proof (induction rs arbitrary: s i)
  case (Cons r rs)
  then show ?case using Cons.IH [of "Suc s"] by (cases i) simp_all
qed simp

lemma numbered_mem: "numbered s rs \<Longrightarrow> r \<in> set rs \<Longrightarrow> s \<le> LSN r \<and> LSN r < s + length rs"
  by (metis in_set_conv_nth le_add1 nat_add_left_cancel_less numbered_nth)

lemma numbered_last: "numbered s rs \<Longrightarrow> rs \<noteq> [] \<Longrightarrow> LSN (last rs) = s + length rs - 1"
  by (metis One_nat_def Nat.add_diff_assoc Suc_leI diff_less last_conv_nth length_greater_0_conv less_numeral_extra(1) numbered_nth)

lemma seg_names_append [simp]:
  "seg_names s (cs @ ds) = seg_names s cs @ seg_names (s + length (concat cs)) ds"
  by (induction cs arbitrary: s) (simp_all add: add.assoc)

lemma closed_append [simp]:
  "closed s (cs @ ds) fs \<longleftrightarrow> closed s cs fs \<and> closed (s + length (concat cs)) ds fs"
  by (induction cs arbitrary: s) (auto simp: add.assoc)

lemma open_lsn_append: "open_lsn s (cs @ ds) = open_lsn (open_lsn s cs) ds"
  by (simp add: open_lsn_def)

lemma seg_names_mem:
  "\<forall>c \<in> set cs. c \<noteq> [] \<Longrightarrow> n \<in> set (seg_names s cs) \<Longrightarrow> \<exists>l. n = segmentFileName l \<and> s \<le> l \<and> l < open_lsn s cs"
proof (induction cs arbitrary: s)
  case (Cons c cs)
  show ?case
  proof (cases "n = segmentFileName s")
    case True
    have "s < open_lsn s (c # cs)" using Cons.prems(1) by (cases c) (simp_all add: open_lsn_def)
    then show ?thesis using True by blast
  next
    case False
    then obtain l where "n = segmentFileName l" "s + length c \<le> l" "l < open_lsn (s + length c) cs"
      using Cons.IH [of "s + length c"] Cons.prems by auto
    then show ?thesis by (intro exI [of _ l]) (simp add: open_lsn_def)
  qed
qed simp

lemma sorted_all_names:
  assumes "\<forall>c \<in> set cs. c \<noteq> []" "open_lsn s cs < 2 ^ 64"
  shows "sorted_wrt (<) (all_names s cs)"
  using assms
proof (induction cs arbitrary: s)
  case (Cons c cs)
  have eq: "open_lsn s (c # cs) = open_lsn (s + length c) cs" by (simp add: open_lsn_def)
  have IH: "sorted_wrt (<) (all_names (s + length c) cs)"
    using Cons.IH Cons.prems by (simp add: eq)
  have "segmentFileName s < n" if "n \<in> set (all_names (s + length c) cs)" for n
  proof -
    have "\<exists>l. n = segmentFileName l \<and> s + length c \<le> l \<and> l \<le> open_lsn (s + length c) cs"
      using that seg_names_mem [of cs n "s + length c"] Cons.prems(1)
      by (auto simp: all_names_def open_lsn_def intro: less_imp_le)
    then obtain l where l: "n = segmentFileName l" "s + length c \<le> l" "l \<le> open_lsn (s + length c) cs" by blast
    have "0 < length c" using Cons.prems(1) by simp
    then have "s < l" using l(2) by linarith
    moreover have "l < 2 ^ 64" using l(3) Cons.prems(2) eq by linarith
    ultimately show ?thesis unfolding l(1) by (rule segmentFileName_less)
  qed
  then show ?case using IH by (simp add: all_names_def eq)
qed (simp add: all_names_def)

lemma closed_nonempty: "closed s cs fs \<Longrightarrow> \<forall>c \<in> set cs. c \<noteq> []"
  by (induction cs arbitrary: s) auto

text \<open>A strictly sorted list is determined by its elements.\<close>

lemma with_suffix_eq_iff:
  "with_suffix ext fs = ns \<longleftrightarrow> sorted_wrt (<) ns \<and> set ns = {n. n |\<in>| fmdom fs \<and> suffix ext n}"
proof -
  have 1: "sorted_wrt (<) (with_suffix ext fs)"
    by (simp add: with_suffix_def entries_def strict_sorted_iff sorted_list_of_fset.rep_eq)
  have 2: "set (with_suffix ext fs) = {n. n |\<in>| fmdom fs \<and> suffix ext n}"
    by (auto simp: with_suffix_def entries_def sorted_list_of_fset.rep_eq)
  show ?thesis
    using 1 2 strict_sorted_equal [of "with_suffix ext fs" ns] by auto
qed

lemma with_suffix_frame:
  assumes "\<And>n. suffix ext n \<Longrightarrow> n |\<in>| fmdom fs' \<longleftrightarrow> n |\<in>| fmdom fs"
  shows "with_suffix ext fs' = with_suffix ext fs"
  using assms with_suffix_eq_iff [of ext fs "with_suffix ext fs"] by (subst with_suffix_eq_iff) auto

lemma closed_frame:
  assumes "closed s cs fs" "\<And>n. n \<in> set (seg_names s cs) \<Longrightarrow> fmlookup fs' n = fmlookup fs n"
  shows "closed s cs fs'"
  using assms by (induction cs arbitrary: s) auto

section \<open>Appending\<close>

text \<open>The file of the open segment, and no other log file, changes.\<close>

lemma open_name_new:
  assumes "closed s cs fs" "open_lsn s cs < 2 ^ 64"
  shows "segmentFileName (open_lsn s cs) \<notin> set (seg_names s cs)"
  using sorted_all_names [OF closed_nonempty [OF assms(1)] assms(2)]
  by (auto simp: all_names_def sorted_wrt_append)

lemma stored_replace_open:
  assumes "stored s cs c t fs" "fmlookup fs' (segmentFileName (open_lsn s cs)) = Some (encode_all c' @ t')"
    "\<And>n. n \<noteq> segmentFileName (open_lsn s cs) \<Longrightarrow> suffix ''.wal'' n \<Longrightarrow> fmlookup fs' n = fmlookup fs n"
    "numbered (open_lsn s cs) c'" "list_all storable c'" "open_lsn s cs + length c' < 2 ^ 64"
  shows "stored s cs c' t' fs'"
proof -
  have st: "closed s cs fs" "with_suffix ''.wal'' fs = all_names s cs" "numbered s (concat cs @ c)"
    "list_all storable (concat cs @ c)" "open_lsn s cs < 2 ^ 64"
    "fmlookup fs (segmentFileName (open_lsn s cs)) = Some (encode_all c @ t)"
    using assms(1) by (simp_all add: stored_def)
  have cl: "closed s cs fs'"
  proof (rule closed_frame [OF st(1)])
    fix n assume n: "n \<in> set (seg_names s cs)"
    then obtain l where "n = segmentFileName l" using seg_names_mem [OF closed_nonempty [OF st(1)] n] by blast
    moreover have "n \<noteq> segmentFileName (open_lsn s cs)" using open_name_new [OF st(1,5)] n by blast
    ultimately show "fmlookup fs' n = fmlookup fs n" using assms(3) by simp
  qed
  have "with_suffix ''.wal'' fs' = with_suffix ''.wal'' fs"
  proof (rule with_suffix_frame)
    fix n assume "suffix ''.wal'' n"
    then show "n |\<in>| fmdom fs' \<longleftrightarrow> n |\<in>| fmdom fs"
      using assms(2,3) st(6) by (cases "n = segmentFileName (open_lsn s cs)") (auto simp: fmlookup_dom_iff)
  qed
  then have ws: "with_suffix ''.wal'' fs' = all_names s cs" using st(2) by (rule trans)
  have nu: "numbered s (concat cs @ c')" "list_all storable (concat cs @ c')"
    using st(3,4) assms(4,5) by (simp_all add: open_lsn_def)
  show ?thesis unfolding stored_def by (intro conjI cl ws nu assms(2,6))
qed

text \<open>The next segment: the open one is closed and an empty one is opened.\<close>

lemma stored_roll:
  assumes "stored s cs c [] fs" "c \<noteq> []"
  defines "n \<equiv> segmentFileName (open_lsn s cs + length c)"
  shows "n |\<notin>| fmdom fs" "stored s (cs @ [c]) [] [] (fmupd n [] fs)"
    "all_names s (cs @ [c]) = all_names s cs @ [n]"
proof -
  have st: "closed s cs fs" "with_suffix ''.wal'' fs = all_names s cs" "numbered s (concat cs @ c)"
    "list_all storable (concat cs @ c)" "open_lsn s cs + length c < 2 ^ 64"
    "fmlookup fs (segmentFileName (open_lsn s cs)) = Some (encode_all c)"
    using assms(1) by (simp_all add: stored_def)
  have lsn: "open_lsn s (cs @ [c]) = open_lsn s cs + length c" by (simp add: open_lsn_def)
  show names: "all_names s (cs @ [c]) = all_names s cs @ [n]"
    by (simp add: all_names_def lsn n_def) (simp add: open_lsn_def)
  have ne: "\<forall>d \<in> set (cs @ [c]). d \<noteq> []" using closed_nonempty [OF st(1)] assms(2) by auto
  have sorted: "sorted_wrt (<) (all_names s cs @ [n])"
    using sorted_all_names [of "cs @ [c]" s] ne st(5) by (simp add: lsn names)
  then have new: "n \<notin> set (all_names s cs)" by (auto simp: sorted_wrt_append)
  have wal: "set (all_names s cs) = {m. m |\<in>| fmdom fs \<and> suffix ''.wal'' m}"
    using st(2) with_suffix_eq_iff by blast
  then show "n |\<notin>| fmdom fs" using new by (auto simp: n_def)
  have "closed s (cs @ [c]) (fmupd n [] fs)"
  proof -
    have "closed s (cs @ [c]) fs" using st(1,6) assms(2) by (simp add: open_lsn_def)
    moreover have "seg_names s (cs @ [c]) = all_names s cs" by (simp add: all_names_def open_lsn_def)
    ultimately show ?thesis using new by (metis closed_frame fmupd_lookup)
  qed
  moreover have "with_suffix ''.wal'' (fmupd n [] fs) = all_names s cs @ [n]"
  proof -
    have "suffix ''.wal'' n" by (simp add: n_def)
    then have "set (all_names s cs @ [n]) = {m. m |\<in>| fmdom (fmupd n [] fs) \<and> suffix ''.wal'' m}"
      unfolding set_append wal by auto
    then show ?thesis unfolding with_suffix_eq_iff using sorted by blast
  qed
  ultimately show "stored s (cs @ [c]) [] [] (fmupd n [] fs)"
    using st(3-5) unfolding stored_def names by (simp add: lsn n_def)
qed

definition same_others :: "fs \<Rightarrow> fs \<Rightarrow> bool" where
  "same_others fs fs' \<longleftrightarrow> (\<forall>n. \<not> suffix ''.wal'' n \<longrightarrow> fmlookup fs' n = fmlookup fs n)"

lemma writer_Append_fits:
  fixes rec :: Record
  assumes "int (currentSize w + length (Encode (rec\<lparr>LSN := nextLSN w\<rparr>))) \<le> maxSegSize w" "wopen w" "nextLSN w + 1 < 2 ^ 64"
  shows "writer_Append no_faults rec fs sm w =
    ((append_file (wfile w) (Encode (rec\<lparr>LSN := nextLSN w\<rparr>)) fs, sm,
      w\<lparr>currentSize := currentSize w + length (Encode (rec\<lparr>LSN := nextLSN w\<rparr>)), nextLSN := nextLSN w + 1\<rparr>),
     Inr (rec\<lparr>LSN := nextLSN w\<rparr>))"
  using assms unfolding writer_Append_def Let_def by simp

lemma writer_Append_rolls:
  fixes rec :: Record
  assumes "\<not> int (currentSize w + length (Encode (rec\<lparr>LSN := nextLSN w\<rparr>))) \<le> maxSegSize w" "wopen w" "nextLSN w + 1 < 2 ^ 64"
    "segmentFileName (nextLSN w) |\<notin>| fmdom fs"
  shows "writer_Append no_faults rec fs sm w =
    ((fmupd (segmentFileName (nextLSN w)) (Encode (rec\<lparr>LSN := nextLSN w\<rparr>)) fs,
      sm\<lparr>segments := segments sm @ [segmentFileName (nextLSN w)]\<rparr>,
      w\<lparr>wfile := segmentFileName (nextLSN w), wopen := True,
        currentSize := length (Encode (rec\<lparr>LSN := nextLSN w\<rparr>)), nextLSN := nextLSN w + 1\<rparr>),
     Inr (rec\<lparr>LSN := nextLSN w\<rparr>))"
  using assms unfolding writer_Append_def Let_def
  by (simp add: rollSegment_def CreateSegment_def append_file_def Let_def)


text \<open>An append to a running log succeeds, numbers the record and adds it at the end.\<close>

lemma liveD:
  assumes "live s cs c fs sm w"
  shows "stored s cs c [] fs" "segments sm = all_names s cs" "wfile w = segmentFileName (open_lsn s cs)"
    "wopen w" "currentSize w = length (encode_all c)" "nextLSN w = open_lsn s cs + length c"
  using assms by (simp_all add: live_def)

lemma live_append_fits:
  assumes lv: "live s cs c fs sm w" and new: "LSN r = nextLSN w" "storable r" "nextLSN w + 1 < 2 ^ 64"
  shows "live s cs (c @ [r]) (append_file (wfile w) (Encode r) fs) sm
    (w\<lparr>currentSize := currentSize w + length (Encode r), nextLSN := nextLSN w + 1\<rparr>)"
proof -
  note lvD = liveD [OF lv]
  have "stored s cs (c @ [r]) [] (append_file (wfile w) (Encode r) fs)"
  proof (rule stored_replace_open [OF lvD(1)])
    show "fmlookup (append_file (wfile w) (Encode r) fs) (segmentFileName (open_lsn s cs)) = Some (encode_all (c @ [r]) @ [])"
      using lvD(1,3) by (simp add: append_file_def stored_def)
    show "fmlookup (append_file (wfile w) (Encode r) fs) n = fmlookup fs n" if "n \<noteq> segmentFileName (open_lsn s cs)" for n
      using that lvD(3) by (simp add: append_file_def)
    show "numbered (open_lsn s cs) (c @ [r])" using lvD(1,6) new(1) by (simp add: stored_def open_lsn_def)
    show "list_all storable (c @ [r])" using lvD(1) new(2) by (simp add: stored_def)
    show "open_lsn s cs + length (c @ [r]) < 2 ^ 64" using lvD(6) new(3) by simp
  qed
  then show ?thesis using lvD by (simp add: live_def)
qed

lemma live_append_rolls:
  assumes lv: "live s cs c fs sm w" and new: "LSN r = nextLSN w" "storable r" "nextLSN w + 1 < 2 ^ 64" and ne: "c \<noteq> []"
  shows "segmentFileName (nextLSN w) |\<notin>| fmdom fs \<and>
    live s (cs @ [c]) [r] (fmupd (segmentFileName (nextLSN w)) (Encode r) fs)
      (sm\<lparr>segments := segments sm @ [segmentFileName (nextLSN w)]\<rparr>)
      (w\<lparr>wfile := segmentFileName (nextLSN w), wopen := True, currentSize := length (Encode r), nextLSN := nextLSN w + 1\<rparr>)"
proof -
  note lvD = liveD [OF lv]
  note roll = stored_roll [OF lvD(1) ne]
  have lsn: "open_lsn s (cs @ [c]) = nextLSN w" by (simp add: open_lsn_def lvD(6))
  have "stored s (cs @ [c]) [r] [] (fmupd (segmentFileName (nextLSN w)) (Encode r) fs)"
  proof (rule stored_replace_open [OF roll(2)])
    show "fmlookup (fmupd (segmentFileName (nextLSN w)) (Encode r) fs) (segmentFileName (open_lsn s (cs @ [c]))) =
        Some (encode_all [r] @ [])" by (simp add: lsn)
    show "fmlookup (fmupd (segmentFileName (nextLSN w)) (Encode r) fs) n =
        fmlookup (fmupd (segmentFileName (open_lsn s cs + length c)) [] fs) n"
      if "n \<noteq> segmentFileName (open_lsn s (cs @ [c]))" for n
      using that by (simp add: lsn flip: lvD(6))
  qed (use new in \<open>simp_all add: lsn\<close>)
  then show ?thesis using roll(1,3) lvD(2) by (simp add: live_def lsn flip: lvD(6))
qed

lemma writer_Append_live:
  fixes rec :: Record
  assumes lv: "live s cs c fs sm w" and room: "nextLSN w + 1 < 2 ^ 64"
  defines "r \<equiv> rec\<lparr>LSN := nextLSN w\<rparr>"
  assumes ok: "storable r" "int (length (Encode r)) \<le> maxSegSize w"
  obtains fs' sm' w' cs' c' where "writer_Append no_faults rec fs sm w = ((fs', sm', w'), Inr r)"
    "live s cs' c' fs' sm' w'" "concat cs' @ c' = (concat cs @ c) @ [r]" "same_others fs fs'"
    "maxSegSize w' = maxSegSize w" "ckptThreshold sm' = ckptThreshold sm"
proof (cases "int (currentSize w + length (Encode r)) \<le> maxSegSize w")
  case True
  have "writer_Append no_faults rec fs sm w = ((append_file (wfile w) (Encode r) fs, sm,
      w\<lparr>currentSize := currentSize w + length (Encode r), nextLSN := nextLSN w + 1\<rparr>), Inr r)"
    unfolding r_def by (rule writer_Append_fits) (use True liveD(4) [OF lv] room in \<open>simp_all add: r_def\<close>)
  moreover note live_append_fits [OF lv, of r]
  moreover have "same_others fs (append_file (wfile w) (Encode r) fs)"
    using liveD(3) [OF lv] by (auto simp: same_others_def append_file_def)
  ultimately show ?thesis using that ok room by (simp add: r_def)
next
  case False
  then have ne: "c \<noteq> []" using ok(2) liveD(5) [OF lv] by auto
  have l: "LSN r = nextLSN w" by (simp add: r_def)
  note roll = live_append_rolls [OF lv l ok(1) room ne]
  have "writer_Append no_faults rec fs sm w = ((fmupd (segmentFileName (nextLSN w)) (Encode r) fs,
      sm\<lparr>segments := segments sm @ [segmentFileName (nextLSN w)]\<rparr>,
      w\<lparr>wfile := segmentFileName (nextLSN w), wopen := True, currentSize := length (Encode r), nextLSN := nextLSN w + 1\<rparr>),
      Inr r)"
    unfolding r_def by (rule writer_Append_rolls) (use False liveD(4) [OF lv] room roll in \<open>simp_all add: r_def\<close>)
  moreover have "same_others fs (fmupd (segmentFileName (nextLSN w)) (Encode r) fs)"
    by (auto simp: same_others_def)
  ultimately show ?thesis using that [OF _ roll [THEN conjunct2]] by simp
qed

section \<open>Deleting old segments\<close>

lemma remove_files_ok: "remove_files no_faults ns fs = (fmdrop_fset (fset_of_list ns) fs, [])"
proof (induction ns arbitrary: fs)
  case (Cons n ns)
  have "fmdrop_fset (fset_of_list ns) (fst (remove_file no_faults n fs)) = fmdrop_fset (fset_of_list (n # ns)) fs"
    by (rule fmap_ext) (auto simp: remove_file_def split: option.splits)
  then show ?case using Cons by (auto simp: remove_file_def split: option.splits)
qed simp

lemma all_names_Cons: "all_names s (c # cs) = segmentFileName s # all_names (s + length c) cs"
  by (simp add: all_names_def open_lsn_def add.assoc)

lemma all_names_append: "all_names s (cs1 @ cs2) = seg_names s cs1 @ all_names (open_lsn s cs1) cs2"
  by (simp add: all_names_def open_lsn_def add.assoc)

lemma hd_all_names: "\<exists>ns. all_names s cs = segmentFileName s # ns"
  by (cases cs) (simp_all add: all_names_def open_lsn_def)

lemma stored_drop:
  assumes "stored s (cs1 @ cs2) c t fs"
  shows "stored (open_lsn s cs1) cs2 c t (fmdrop_fset (fset_of_list (seg_names s cs1)) fs)"
proof -
  let ?fs = "fmdrop_fset (fset_of_list (seg_names s cs1)) fs"
  have st: "closed s (cs1 @ cs2) fs" "with_suffix ''.wal'' fs = all_names s (cs1 @ cs2)" "numbered s (concat (cs1 @ cs2) @ c)"
    "list_all storable (concat (cs1 @ cs2) @ c)" "open_lsn s (cs1 @ cs2) + length c < 2 ^ 64"
    "fmlookup fs (segmentFileName (open_lsn s (cs1 @ cs2))) = Some (encode_all c @ t)"
    using assms unfolding stored_def by blast+
  have "sorted_wrt (<) (seg_names s cs1 @ all_names (open_lsn s cs1) cs2)"
    using sorted_all_names [OF closed_nonempty [OF st(1)]] st(5) by (simp add: all_names_append)
  then have less: "\<forall>x \<in> set (seg_names s cs1). \<forall>y \<in> set (all_names (open_lsn s cs1) cs2). x < y"
    and sorted: "sorted_wrt (<) (all_names (open_lsn s cs1) cs2)" by (simp_all add: sorted_wrt_append)
  then have new: "n \<notin> set (seg_names s cs1)" if "n \<in> set (all_names (open_lsn s cs1) cs2)" for n
    using that by blast
  have kept: "fmlookup ?fs n = fmlookup fs n" if "n \<in> set (all_names (open_lsn s cs1) cs2)" for n
    using new [OF that] by (simp add: fset_of_list.rep_eq)
  have lsn: "open_lsn (open_lsn s cs1) cs2 = open_lsn s (cs1 @ cs2)" by (simp add: open_lsn_def)
  have cl: "closed (open_lsn s cs1) cs2 ?fs"
  proof (rule closed_frame)
    show "closed (open_lsn s cs1) cs2 fs" using st(1) by (simp add: open_lsn_def)
    show "fmlookup ?fs n = fmlookup fs n" if "n \<in> set (seg_names (open_lsn s cs1) cs2)" for n
      by (rule kept) (use that in \<open>simp add: all_names_def\<close>)
  qed
  have op: "fmlookup ?fs (segmentFileName (open_lsn (open_lsn s cs1) cs2)) = Some (encode_all c @ t)"
    using st(6) by (subst kept) (simp_all add: all_names_def lsn)
  have wal: "set (seg_names s cs1) \<union> set (all_names (open_lsn s cs1) cs2) = {m. m |\<in>| fmdom fs \<and> suffix ''.wal'' m}"
    using st(2) unfolding with_suffix_eq_iff all_names_append set_append by blast
  have "set (all_names (open_lsn s cs1) cs2) = {m. m |\<in>| fmdom ?fs \<and> suffix ''.wal'' m}"
    using wal new by (auto simp: fset_of_list.rep_eq)
  then have ws: "with_suffix ''.wal'' ?fs = all_names (open_lsn s cs1) cs2"
    unfolding with_suffix_eq_iff using sorted by blast
  have nu: "numbered (open_lsn s cs1) (concat cs2 @ c)" "list_all storable (concat cs2 @ c)"
    "open_lsn (open_lsn s cs1) cs2 + length c < 2 ^ 64"
    using st(3-5) by (simp_all add: open_lsn_def add.assoc)
  show ?thesis unfolding stored_def by (intro conjI cl op ws nu)
qed

lemma segments_before_names:
  assumes "open_lsn s cs < 2 ^ 64"
  shows "\<exists>cs1 cs2. cs = cs1 @ cs2 \<and> segments_before lsn (all_names s cs) = Some (seg_names s cs1) \<and>
    (cs1 = [] \<or> open_lsn s cs1 \<le> lsn)"
  using assms
proof (induction cs arbitrary: s)
  case (Cons c cs)
  obtain ns where ns: "all_names (s + length c) cs = segmentFileName (s + length c) # ns" using hd_all_names by blast
  have l: "s + length c < 2 ^ 64" "open_lsn (s + length c) cs < 2 ^ 64"
    using Cons.prems by (simp_all add: open_lsn_def)
  show ?case
  proof (cases "s + length c > lsn")
    case True
    then have "segments_before lsn (all_names s (c # cs)) = Some (seg_names s [])"
      using l(1) by (simp add: all_names_Cons ns)
    then show ?thesis by blast
  next
    case False
    obtain cs1 cs2 where IH: "cs = cs1 @ cs2" "segments_before lsn (all_names (s + length c) cs) = Some (seg_names (s + length c) cs1)"
      "cs1 = [] \<or> open_lsn (s + length c) cs1 \<le> lsn" using Cons.IH [OF l(2)] by blast
    have "segments_before lsn (all_names s (c # cs)) = Some (seg_names s (c # cs1))"
      using False l(1) IH(2) by (simp add: all_names_Cons ns)
    moreover have "open_lsn s (c # cs1) \<le> lsn" using IH(3) False by (auto simp: open_lsn_def)
    ultimately show ?thesis using IH(1) by (metis append_Cons)
  qed
qed (simp add: all_names_def open_lsn_def)

lemma DeleteSegmentsBefore_live:
  assumes "live s cs c fs sm w"
  obtains cs1 cs2 sm' where "cs = cs1 @ cs2" "cs1 = [] \<or> open_lsn s cs1 \<le> lsn"
    "DeleteSegmentsBefore no_faults lsn fs sm = Done (fmdrop_fset (fset_of_list (seg_names s cs1)) fs, sm', [])"
    "live (open_lsn s cs1) cs2 c (fmdrop_fset (fset_of_list (seg_names s cs1)) fs) sm' w"
    "ckptThreshold sm' = ckptThreshold sm"
proof -
  note lv = liveD [OF assms]
  have b: "open_lsn s cs < 2 ^ 64" and cl: "closed s cs fs" using lv(1) by (simp_all add: stored_def)
  obtain cs1 cs2 where 1: "cs = cs1 @ cs2" "segments_before lsn (all_names s cs) = Some (seg_names s cs1)"
    "cs1 = [] \<or> open_lsn s cs1 \<le> lsn" using segments_before_names [OF b, of lsn] by blast
  let ?sm = "sm\<lparr>segments := filter (\<lambda>n. n \<notin> set (seg_names s cs1)) (segments sm)\<rparr>"
  have "sorted_wrt (<) (seg_names s cs1 @ all_names (open_lsn s cs1) cs2)"
    using sorted_all_names [OF closed_nonempty [OF cl] b] by (simp add: 1(1) all_names_append)
  then have "\<forall>n \<in> set (all_names (open_lsn s cs1) cs2). n \<notin> set (seg_names s cs1)"
    unfolding sorted_wrt_append by blast
  then have "filter (\<lambda>n. n \<notin> set (seg_names s cs1)) (all_names s cs) = all_names (open_lsn s cs1) cs2"
    by (simp add: 1(1) all_names_append)
  moreover have "open_lsn (open_lsn s cs1) cs2 = open_lsn s cs" by (simp add: 1(1) open_lsn_def)
  ultimately have "live (open_lsn s cs1) cs2 c (fmdrop_fset (fset_of_list (seg_names s cs1)) fs) ?sm w"
    using lv stored_drop [of s cs1 cs2 c "[]" fs] by (simp add: live_def 1(1))
  moreover have "DeleteSegmentsBefore no_faults lsn fs sm =
      Done (fmdrop_fset (fset_of_list (seg_names s cs1)) fs, ?sm, [])"
    by (simp add: DeleteSegmentsBefore_def lv(2) 1(2) remove_files_ok)
  ultimately show ?thesis using that [OF 1(1,3)] by simp
qed

section \<open>Opening a directory\<close>

lemma scan_torn_tail:
  assumes "list_all storable c" "torn t"
  shows "scan (encode_all c @ t) = Some (c, length (encode_all c))"
  using scan_encode_all [OF assms(1), of t] scan_torn [OF assms(2)] by simp

lemma Recover_stored:
  assumes st: "stored s cs c t fs" and t: "torn t" and sm: "segments sm = all_names s cs"
  defines "n \<equiv> segmentFileName (open_lsn s cs)"
  shows "Recover no_faults fs sm = Done (fmupd n (encode_all c) fs, sm,
    \<lparr>rsNextLSN = open_lsn s cs + length c, rsFile = n, rsSize = length (encode_all c)\<rparr>)"
proof -
  have f: "fmlookup fs n = Some (encode_all c @ t)" and c: "list_all storable c" "numbered (open_lsn s cs) c"
    and b: "open_lsn s cs + length c < 2 ^ 64"
    using st by (simp_all add: stored_def n_def open_lsn_def)
  have seg: "sm_Last sm = Some n" by (simp add: sm_Last_def sm all_names_def n_def)
  have lsn: "(if c = [] then open_lsn s cs else (LSN (last c) + 1) mod 2 ^ 64) = open_lsn s cs + length c"
  proof (cases "c = []")
    case False
    then have "LSN (last c) + 1 = open_lsn s cs + length c" using numbered_last [OF c(2)] by (cases c) simp_all
    then show ?thesis using False b by simp
  qed simp
  have first: "firstLSNFromSegmentName n = Some (open_lsn s cs)" using b by (simp add: n_def)
  have "scanSegment no_faults n (encode_all c @ t) = Done (c, length (encode_all c))"
    by (simp add: scanSegment_def scan_torn_tail [OF c(1) t])
  then show ?thesis
    unfolding Recover_def seg
    by (simp add: open_file_def f first Let_def TruncateSegment_def lsn [simplified])
qed

lemma live_recovered:
  assumes st: "stored s cs c t fs" and sm: "segments sm = all_names s cs"
  defines "n \<equiv> segmentFileName (open_lsn s cs)"
  shows "live s cs c (fmupd n (encode_all c) fs) sm
    \<lparr>wfile = n, wopen = True, currentSize = length (encode_all c), maxSegSize = k, nextLSN = open_lsn s cs + length c, wmode = m\<rparr>"
proof -
  have "stored s cs c [] (fmupd n (encode_all c) fs)"
    by (rule stored_replace_open [OF st]) (use st in \<open>simp_all add: n_def stored_def open_lsn_def\<close>)
  then show ?thesis by (simp add: live_def sm n_def)
qed

definition start_reader :: "nat \<Rightarrow> Reader" where
  "start_reader s = \<lparr>rcurrent = segmentFileName s, rpos = 0, ropen = True\<rparr>"

lemma OpenReader_live:
  assumes "live s cs c fs sm w"
  shows "OpenReader no_faults fs sm = Inr (start_reader s)"
proof -
  obtain ns where ns: "all_names s cs = segmentFileName s # ns" using hd_all_names by blast
  have "segmentFileName s |\<in>| fmdom fs"
    using liveD(1) [OF assms] ns with_suffix_eq_iff [of "''.wal''" fs "all_names s cs"] by (auto simp: stored_def)
  then show ?thesis
    by (auto simp: OpenReader_def liveD(2) [OF assms] ns openSegment_def open_file_def start_reader_def fmlookup_dom_iff)
qed

text \<open>The threshold a segment manager ends up with.\<close>

definition threshold :: "int \<Rightarrow> int" where
  "threshold thr = (if thr < 1 then DefaultCheckpointThreshold else thr)"

text \<open>A running log over the files of a directory.\<close>

definition running :: "nat \<Rightarrow> Record list list \<Rightarrow> Record list \<Rightarrow> fs \<Rightarrow> Options \<Rightarrow> WAL \<Rightarrow> bool" where
  "running s cs c fs opts l \<longleftrightarrow> wal_mode l = optMode opts \<and> optMode opts \<noteq> ModeOff \<and>
     (\<exists>sm w r. wal_files l = Some (sm, w, r) \<and> live s cs c fs sm w \<and>
       maxSegSize w = optMaxSegSize opts \<and> ckptThreshold sm = threshold (optCheckpointThreshold opts))"

lemma OpenWithOptions_stored:
  assumes st: "stored s cs c t fs" and t: "torn t" and m: "optMode opts \<noteq> ModeOff"
  defines "fs' \<equiv> fmupd (segmentFileName (open_lsn s cs)) (encode_all c) fs"
  obtains l sm w where "OpenWithOptions no_faults opts fs = Done (fs', l)" "running s cs c fs' opts l"
    "wal_files l = Some (sm, w, start_reader s)"
proof -
  define sm where "sm = \<lparr>segments = all_names s cs, ckptSegments = with_suffix ''.ckpt'' fs,
    ckptThreshold = threshold (optCheckpointThreshold opts)\<rparr>"
  have 1: "NewSegmentManagerWithThreshold no_faults (optCheckpointThreshold opts) fs = Inr sm"
    using st by (simp add: NewSegmentManagerWithThreshold_def refresh_def Let_def stored_def sm_def threshold_def)
  define w where "w = \<lparr>wfile = segmentFileName (open_lsn s cs), wopen = True, currentSize = length (encode_all c),
    maxSegSize = optMaxSegSize opts, nextLSN = open_lsn s cs + length c, wmode = optMode opts\<rparr>"
  have "segments sm = all_names s cs" by (simp add: sm_def)
  note rec = Recover_stored [OF st t this] and lv = live_recovered [OF st this, of "optMaxSegSize opts" "optMode opts"]
  have 2: "OpenWriter no_faults (optMaxSegSize opts) (optMode opts) fs sm = Done (fs', sm, w)"
    by (simp add: OpenWriter_def rec fs'_def w_def)
  have lv: "live s cs c fs' sm w" using lv by (simp add: fs'_def w_def)
  let ?l = "\<lparr>wal_files = Some (sm, w, start_reader s), wal_mode = optMode opts, offLSN = 0\<rparr>"
  have "OpenWithOptions no_faults opts fs = Done (fs', ?l)"
    using m by (simp add: OpenWithOptions_def 1 2 OpenReader_live [OF lv])
  moreover have "running s cs c fs' opts ?l" using lv m by (simp add: running_def sm_def w_def)
  ultimately show ?thesis using that by simp
qed

lemma live_new:
  assumes "with_suffix ''.wal'' fs = []"
  shows "live 1 [] [] (fmupd (segmentFileName 1) [] fs)
    \<lparr>segments = [segmentFileName 1], ckptSegments = k, ckptThreshold = h\<rparr>
    \<lparr>wfile = segmentFileName 1, wopen = True, currentSize = 0, maxSegSize = x, nextLSN = 1, wmode = m\<rparr>"
proof -
  have "{n. n |\<in>| fmdom fs \<and> suffix ''.wal'' n} = {}" using assms unfolding with_suffix_eq_iff by simp
  then have "{n. n |\<in>| fmdom (fmupd (segmentFileName 1) [] fs) \<and> suffix ''.wal'' n} = {segmentFileName 1}" by auto
  then have "with_suffix ''.wal'' (fmupd (segmentFileName 1) [] fs) = [segmentFileName 1]"
    unfolding with_suffix_eq_iff by simp
  then show ?thesis by (simp add: live_def stored_def all_names_def open_lsn_def)
qed

lemma OpenWithOptions_new:
  assumes new: "with_suffix ''.wal'' fs = []" and m: "optMode opts \<noteq> ModeOff"
  defines "fs' \<equiv> fmupd (segmentFileName 1) [] fs"
  obtains l sm w where "OpenWithOptions no_faults opts fs = Done (fs', l)" "running 1 [] [] fs' opts l"
    "wal_files l = Some (sm, w, start_reader 1)"
proof -
  define sm where "sm = \<lparr>segments = [segmentFileName 1], ckptSegments = with_suffix ''.ckpt'' fs,
    ckptThreshold = threshold (optCheckpointThreshold opts)\<rparr>"
  define w where "w = \<lparr>wfile = segmentFileName 1, wopen = True, currentSize = 0,
    maxSegSize = optMaxSegSize opts, nextLSN = 1, wmode = optMode opts\<rparr>"
  have lv: "live 1 [] [] fs' sm w" unfolding fs'_def sm_def w_def by (rule live_new [OF new])
  have no: "segmentFileName 1 |\<notin>| fmdom fs" using new unfolding with_suffix_eq_iff by auto
  let ?l = "\<lparr>wal_files = Some (sm, w, start_reader 1), wal_mode = optMode opts, offLSN = 0\<rparr>"
  have "OpenWithOptions no_faults opts fs = Done (fs', ?l)"
    using m no OpenReader_live [OF lv]
    by (simp add: OpenWithOptions_def NewSegmentManagerWithThreshold_def refresh_def Let_def new OpenWriter_def
        Recover_def sm_Last_def CreateSegment_def fs'_def sm_def w_def threshold_def)
  moreover have "running 1 [] [] fs' opts ?l" using lv m by (simp add: running_def sm_def w_def)
  ultimately show ?thesis using that by simp
qed

end
