(* ===== verification/Wal_Read.thy ===== *)
theory Wal_Read
  imports Wal_Log
begin

text \<open>
  Reading a running log: the reader returns the records of the segments one after another,
  and \<open>readLoop\<close> computes a fold over them that replaces what a checkpoint covers by what
  its file holds.
\<close>

section \<open>One record at a time\<close>

lemma seg_contents:
  assumes "live s cs c fs sm w" "cs @ [c] = gs1 @ g # gs2"
  shows "fmlookup fs (segmentFileName (open_lsn s gs1)) = Some (encode_all g)" "list_all storable g"
proof -
  have st: "closed s cs fs" "fmlookup fs (segmentFileName (open_lsn s cs)) = Some (encode_all c)"
    "list_all storable (concat (cs @ [c]))"
    using liveD(1) [OF assms(1)] by (simp_all add: stored_def)
  show "list_all storable g" using st(3) unfolding assms(2) by simp
  show "fmlookup fs (segmentFileName (open_lsn s gs1)) = Some (encode_all g)"
  proof (cases gs2 rule: rev_cases)
    case Nil
    then show ?thesis using assms(2) st(2) by simp
  next
    case (snoc gs2' d)
    then have "cs = gs1 @ g # gs2'" using assms(2) by simp
    then show ?thesis using st(1) by (simp add: open_lsn_def)
  qed
qed

lemma segment_after_at:
  "name \<notin> set as \<Longrightarrow> segment_after name (as @ name # bs) = (case bs of [] \<Rightarrow> None | b # _ \<Rightarrow> Some b)"
proof (induction as)
  case Nil
  then show ?case by (cases bs) simp_all
next
  case (Cons a as)
  then show ?case by (cases as) auto
qed

lemma SegmentAfter_live:
  assumes "live s cs c fs sm w" "cs @ [c] = gs1 @ g # gs2"
  shows "SegmentAfter sm (segmentFileName (open_lsn s gs1)) =
    (case gs2 of [] \<Rightarrow> None | _ \<Rightarrow> Some (segmentFileName (open_lsn s (gs1 @ [g]))))"
proof -
  have st: "closed s cs fs" "open_lsn s cs < 2 ^ 64" using liveD(1) [OF assms(1)] by (simp_all add: stored_def)
  have "all_names s cs = seg_names s (cs @ [c])" by (simp add: all_names_def open_lsn_def)
  also have "\<dots> = seg_names s gs1 @ segmentFileName (open_lsn s gs1) # seg_names (open_lsn s (gs1 @ [g])) gs2"
    unfolding assms(2) by (simp add: open_lsn_def add.assoc)
  finally have names: "all_names s cs = \<dots>" .
  have "sorted_wrt (<) (all_names s cs)" using sorted_all_names [OF closed_nonempty [OF st(1)] st(2)] .
  then have "segmentFileName (open_lsn s gs1) \<notin> set (seg_names s gs1)"
    unfolding names by (auto simp: sorted_wrt_append)
  then show ?thesis
    unfolding SegmentAfter_def liveD(2) [OF assms(1)] names
    by (subst segment_after_at) (cases gs2; simp)+
qed

text \<open>The position of a reader: the records still to come.\<close>

definition reader_at :: "nat \<Rightarrow> Record list list \<Rightarrow> Record list \<Rightarrow> Reader" where
  "reader_at s gs1 d1 = \<lparr>rcurrent = segmentFileName (open_lsn s gs1), rpos = length (encode_all d1), ropen = True\<rparr>"

definition reads :: "nat \<Rightarrow> Record list list \<Rightarrow> Reader \<Rightarrow> Record list \<Rightarrow> bool" where
  "reads s gs r rest \<longleftrightarrow> (\<exists>gs1 d1 d2 gs2. gs = gs1 @ (d1 @ d2) # gs2 \<and> rest = d2 @ concat gs2 \<and>
     r = reader_at s gs1 d1)"

lemma reads_start: "reads s (cs @ [c]) (start_reader s) (concat cs @ c)"
proof (cases cs)
  case Nil
  then show ?thesis unfolding reads_def
    by (intro exI [of _ "[]"] exI [of _ c]) (simp add: start_reader_def reader_at_def open_lsn_def)
next
  case (Cons d ds)
  then show ?thesis unfolding reads_def
    by (intro exI [of _ "[]"] exI [of _ d] exI [of _ "ds @ [c]"]) (simp add: start_reader_def reader_at_def open_lsn_def)
qed

lemma read_record_Encode:
  assumes "storable x"
  shows "read_record no_faults sm r (Encode x @ b) = Done (Some x, r\<lparr>rpos := rpos r + length (Encode x)\<rparr>)"
proof -
  have x: "record_ok x" "body_len x \<le> maxLogLength" using assms by (simp_all add: storable_def)
  have t: "take (12 + body_len x) (Encode x @ b) = Encode x" by (simp add: length_Encode)
  have d: "Decode (Encode x) = Some (Inr x)" using Decode_Encode_append [OF x(1), of "[]"] by simp
  show ?thesis
    unfolding read_record_def Encode_length_field [OF x(1)] t d Let_def
    using x(2) by (simp add: length_Encode add.commute)
qed

lemma Encode_neq_Nil [simp]: "Encode x \<noteq> []"
  using length_Encode [of x] by auto

lemma unread_at:
  assumes "live s cs c fs sm w" "cs @ [c] = gs1 @ (d1 @ d2) # gs2"
  shows "unread fs (reader_at s gs1 d1) = encode_all d2"
  using seg_contents(1) [OF assms] by (simp add: unread_def reader_at_def)

lemma readNext_here:
  assumes "live s cs c fs sm w" "cs @ [c] = gs1 @ (d1 @ x # xs) # gs2"
  shows "readNext no_faults sm fs (reader_at s gs1 d1) = Some (Done (Some x, reader_at s gs1 (d1 @ [x])))"
proof -
  have x: "storable x" using seg_contents(2) [OF assms] by simp
  have un: "unread fs (reader_at s gs1 d1) = Encode x @ encode_all xs" using unread_at [OF assms] by simp
  have "(reader_at s gs1 d1)\<lparr>rpos := rpos (reader_at s gs1 d1) + length (Encode x)\<rparr> = reader_at s gs1 (d1 @ [x])"
    "ropen (reader_at s gs1 d1)" by (simp_all add: reader_at_def)
  then show ?thesis
    by (subst readNext.simps) (simp add: un read_record_Encode [OF x] Let_def)
qed

lemma readNext_end:
  assumes "live s cs c fs sm w" "cs @ [c] = gs1 @ [d1]"
  shows "readNext no_faults sm fs (reader_at s gs1 d1) = Some (Done (None, reader_at s gs1 d1))"
proof -
  have "unread fs (reader_at s gs1 d1) = []" using unread_at [OF assms(1), of gs1 d1 "[]" "[]"] assms(2) by simp
  moreover have "SegmentAfter sm (rcurrent (reader_at s gs1 d1)) = None"
    using SegmentAfter_live [OF assms(1), of gs1 d1 "[]"] assms(2) by (simp add: reader_at_def)
  ultimately show ?thesis by (subst readNext.simps) (simp add: reader_at_def)
qed

lemma readNext_skip:
  assumes "live s cs c fs sm w" "cs @ [c] = gs1 @ d1 # g # gs2"
  shows "readNext no_faults sm fs (reader_at s gs1 d1) = readNext no_faults sm fs (reader_at s (gs1 @ [d1]) [])"
proof -
  have "unread fs (reader_at s gs1 d1) = []" using unread_at [OF assms(1), of gs1 d1 "[]"] assms(2) by simp
  moreover have "SegmentAfter sm (rcurrent (reader_at s gs1 d1)) = Some (segmentFileName (open_lsn s (gs1 @ [d1])))"
    using SegmentAfter_live [OF assms] by (simp add: reader_at_def)
  moreover have "openSegment no_faults (segmentFileName (open_lsn s (gs1 @ [d1]))) fs = Inr (reader_at s (gs1 @ [d1]) [])"
    using seg_contents(1) [OF assms(1), of "gs1 @ [d1]" g gs2] assms(2)
    by (simp add: openSegment_def open_file_def reader_at_def)
  ultimately show ?thesis by (subst readNext.simps) (simp add: reader_at_def)
qed

lemma readNext_live:
  assumes lv: "live s cs c fs sm w" and r: "reads s (cs @ [c]) r rest"
  shows "case rest of
       [] \<Rightarrow> \<exists>r'. readNext no_faults sm fs r = Some (Done (None, r'))
     | x # xs \<Rightarrow> \<exists>r'. readNext no_faults sm fs r = Some (Done (Some x, r')) \<and> reads s (cs @ [c]) r' xs"
proof -
  have main: "case d2 @ concat gs2 of
      [] \<Rightarrow> \<exists>r'. readNext no_faults sm fs (reader_at s gs1 d1) = Some (Done (None, r'))
    | x # xs \<Rightarrow> \<exists>r'. readNext no_faults sm fs (reader_at s gs1 d1) = Some (Done (Some x, r')) \<and> reads s (cs @ [c]) r' xs"
    if "cs @ [c] = gs1 @ (d1 @ d2) # gs2" for gs1 d1 d2 gs2
    using that
  proof (induction gs2 arbitrary: gs1 d1 d2)
    case (Nil gs1 d1 d2)
    show ?case
    proof (cases d2)
      case (Cons x xs)
      have "reads s (cs @ [c]) (reader_at s gs1 (d1 @ [x])) xs"
        unfolding reads_def using Nil Cons 
        by (intro exI [of _ gs1] exI [of _ "d1 @ [x]"] exI [of _ xs] exI [of _ "[]"]) simp
      then show ?thesis using readNext_here [OF lv, of gs1 d1 x xs] Nil Cons by simp
    qed (use readNext_end [OF lv] Nil in simp)
  next
    case (Cons g gs2)
    show ?case
    proof (cases d2)
      case d2: Nil
      have eq: "readNext no_faults sm fs (reader_at s gs1 d1) = readNext no_faults sm fs (reader_at s (gs1 @ [d1]) [])"
        using readNext_skip [OF lv] Cons.prems d2 by simp
      show ?thesis unfolding eq using Cons.IH [of "gs1 @ [d1]" "[]" g] Cons.prems d2 by simp
    next
      case d2: (Cons x xs)
      have "reads s (cs @ [c]) (reader_at s gs1 (d1 @ [x])) (xs @ concat (g # gs2))"
        unfolding reads_def using Cons.prems d2
        by (intro exI [of _ gs1] exI [of _ "d1 @ [x]"] exI [of _ xs] exI [of _ "g # gs2"]) simp
      then show ?thesis using readNext_here [OF lv, of gs1 d1 x xs] Cons.prems d2 by simp
    qed
  qed
  obtain gs1 d1 d2 gs2 where "cs @ [c] = gs1 @ (d1 @ d2) # gs2" and eq: "rest = d2 @ concat gs2" "r = reader_at s gs1 d1"
    using r unfolding reads_def by blast
  then show ?thesis unfolding eq by (intro main)
qed

section \<open>The loop\<close>

text \<open>
  A directory is \<^emph>\<open>consistent\<close> with a record when it has no checkpoint file for it, or the
  file the record announces: complete, and with the announced checksum.
\<close>

definition ckpt_of :: "fs \<Rightarrow> Record \<Rightarrow> Record list option" where
  "ckpt_of fs rec =
     (if Op rec \<noteq> OpEndCheckpoint then None
      else case DecodeEndCheckpoint (RPayload rec) of
        None \<Rightarrow> None
      | Some e \<Rightarrow> map_option (fst \<circ> the \<circ> scan) (fmlookup fs (FileName e)))"

definition consistent :: "fs \<Rightarrow> Record \<Rightarrow> bool" where
  "consistent fs rec \<longleftrightarrow> (\<forall>e b. Op rec = OpEndCheckpoint \<longrightarrow> DecodeEndCheckpoint (RPayload rec) = Some e \<longrightarrow>
     fmlookup fs (FileName e) = Some b \<longrightarrow>
     hex8 (ChecksumIEEE b) = FileChecksum e \<and> (\<exists>xs. list_all storable xs \<and> b = encode_all xs))"

definition ckpt_name :: "Record \<Rightarrow> string" where
  "ckpt_name rec = (case DecodeEndCheckpoint (RPayload rec) of None \<Rightarrow> [] | Some e \<Rightarrow> FileName e)"

definition gather :: "fs \<Rightarrow> Record \<Rightarrow> gathered \<Rightarrow> gathered" where
  "gather fs rec g =
     (let g' = (case ckpt_of fs rec of
          None \<Rightarrow> if Op rec = OpBeginCheckpoint then g\<lparr>lastBeginCkptLSN := LSN rec\<rparr> else g
        | Some xs \<Rightarrow> g\<lparr>records := xs @ drop (splitAt (records g) (lastBeginCkptLSN g)) (records g),
            validCkptName := ckpt_name rec, validCkptLSN := lastBeginCkptLSN g\<rparr>)
      in g'\<lparr>records := records g' @ [rec]\<rparr>)"

lemma scan_encoded: "list_all storable xs \<Longrightarrow> scan (encode_all xs) = Some (xs, length (encode_all xs))"
  using scan_torn_tail [OF _ torn_Nil, of xs] by simp

lemma read_switch_gather:
  assumes "consistent fs rec"
  shows "read_switch no_faults rec fs g = (fs, Done (gather fs rec g))"
proof (cases "Op rec = OpEndCheckpoint \<and> (\<exists>e b. DecodeEndCheckpoint (RPayload rec) = Some e \<and> fmlookup fs (FileName e) = Some b)")
  case True
  then obtain e b where e: "Op rec = OpEndCheckpoint" "DecodeEndCheckpoint (RPayload rec) = Some e"
    "fmlookup fs (FileName e) = Some b" by blast
  then obtain xs where xs: "hex8 (ChecksumIEEE b) = FileChecksum e" "list_all storable xs" "b = encode_all xs"
    using assms unfolding consistent_def by blast
  have "ckpt_of fs rec = Some xs" using e xs(2,3) by (simp add: ckpt_of_def scan_encoded)
  moreover have "resolveCheckpoint no_faults e fs = (fs, Done (Some xs))"
    using e(3) xs by (simp add: resolveCheckpoint_def checksumFile_def open_file_def ReadAllCkpt_def scanSegment_def scan_encoded)
  ultimately show ?thesis using e by (simp add: read_switch_def gather_def ckpt_name_def Let_def)
next
  case False
  then show ?thesis
    by (auto simp: read_switch_def gather_def ckpt_of_def Let_def resolveCheckpoint_def checksumFile_def open_file_def
        split: option.splits)
qed

text \<open>The records up to the first at which the loop stops.\<close>

fun until :: "(Record \<Rightarrow> bool) \<Rightarrow> Record list \<Rightarrow> Record list" where
  "until stop [] = []"
| "until stop (x # xs) = x # (if stop x then [] else until stop xs)"

lemma readLoop_live:
  assumes lv: "live s cs c fs sm w" and "reads s (cs @ [c]) r rest" "list_all (consistent fs) rest"
  shows "\<exists>r'. readLoop no_faults sm stop fs r g = Some (fs, Done (fold (gather fs) (until stop rest) g, r'))"
  using assms(2,3)
proof (induction rest arbitrary: r g)
  case Nil
  then obtain r' where "readNext no_faults sm fs r = Some (Done (None, r'))" using readNext_live [OF lv] by fastforce
  then show ?case by (subst readLoop.simps) simp
next
  case (Cons x xs)
  obtain r' where r': "readNext no_faults sm fs r = Some (Done (Some x, r'))" "reads s (cs @ [c]) r' xs"
    using readNext_live [OF lv Cons.prems(1)] by auto
  have sw: "read_switch no_faults x fs g = (fs, Done (gather fs x g))" using Cons.prems(2) by (simp add: read_switch_gather)
  show ?case
  proof (cases "stop x")
    case True
    then show ?thesis by (subst readLoop.simps) (simp add: r'(1) sw)
  next
    case False
    obtain r'' where "readLoop no_faults sm stop fs r' (gather fs x g) =
        Some (fs, Done (fold (gather fs) (until stop xs) (gather fs x g), r''))"
      using Cons.IH [OF r'(2)] Cons.prems(2) by auto
    then show ?thesis using False by (subst readLoop.simps) (simp add: r'(1) sw)
  qed
qed

lemma until_never: "until (\<lambda>_. False) xs = xs"
  by (induction xs) simp_all

lemma until_numbered:
  assumes "numbered s xs" "s \<le> b" "b < s + length xs"
  shows "until (\<lambda>r. LSN r \<ge> b) xs = take (b + 1 - s) xs"
  using assms
proof (induction xs arbitrary: s)
  case (Cons x xs)
  show ?case
  proof (cases "s = b")
    case False
    then have "b + 1 - s = Suc (b + 1 - Suc s)" using Cons.prems by simp
    then show ?thesis using Cons.IH [of "Suc s"] Cons.prems False by simp
  qed (use Cons.prems in simp)
qed simp

end
