(* ===== verification/Compaction_Correct.thy ===== *)
theory Compaction_Correct
  imports Compaction
begin

text \<open>
  What replay and compaction promise: a well-formed log replays to its meaning, compacting
  a prefix of it is invisible to what is replayed later, compaction never adds records, and
  an acknowledgement that follows its queue's deletion makes the whole log unreadable.
\<close>

section \<open>The size of a compacted log\<close>

definition row_total :: "('a, ('b, 'v) fmap) fmap \<Rightarrow> nat" where
  "row_total m = (\<Sum>k \<in> fset (fmdom m). maplen (the (fmlookup m k)))"

lemma total_empty [simp]: "row_total fmempty = 0"
  by (simp add: row_total_def)

lemma maplen_upd: "maplen (fmupd k v m) \<le> Suc (maplen m)"
  by (simp add: maplen_def fcard_finsert_if)

lemma maplen_drop: "maplen (fmdrop k m) \<le> maplen m"
  by (simp add: maplen_def fcard.rep_eq card_Diff1_le)

lemma maplen_drop_fset: "maplen (fmdrop_fset K m) \<le> maplen m"
  by (auto simp: maplen_def fcard.rep_eq intro!: card_mono)

lemma total_drop_fset: "row_total (fmdrop_fset K m) \<le> row_total m"
proof -
  have "row_total (fmdrop_fset K m) = (\<Sum>k \<in> fset (fmdom m |-| K). maplen (the (fmlookup m k)))"
    unfolding row_total_def by (rule sum.cong) auto
  also have "\<dots> \<le> row_total m" unfolding row_total_def by (rule sum_mono2) auto
  finally show ?thesis .
qed

lemma total_drop: "row_total (fmdrop k m) \<le> row_total m"
  using total_drop_fset [of "{|k|}" m] by simp

lemma fmdrop_upd_same: "fmdrop k (fmupd k v m) = fmdrop k m"
  by (rule fmap_ext) simp

lemma total_upd: "row_total (fmupd k v m) \<le> maplen v + row_total (fmdrop k m)"
proof -
  have "row_total (fmupd k v m) = maplen v + (\<Sum>j \<in> fset (fmdom m) - {k}. maplen (the (fmlookup (fmupd k v m) j)))"
    unfolding row_total_def by (simp add: sum.insert_remove)
  also have "(\<Sum>j \<in> fset (fmdom m) - {k}. maplen (the (fmlookup (fmupd k v m) j))) = row_total (fmdrop k m)"
    unfolding row_total_def by (rule sum.cong) auto
  finally show ?thesis by simp
qed

lemma total_at: "fmlookup m k = Some v \<Longrightarrow> maplen v + row_total (fmdrop k m) = row_total m"
  unfolding row_total_def by (simp add: sum.remove [of "fset (fmdom m)" k] fmdomI)

text \<open>Replacing a row by one with at most one more entry adds at most one.\<close>

lemma total_upd_row:
  assumes "maplen v \<le> Suc (case fmlookup m k of None \<Rightarrow> 0 | Some u \<Rightarrow> maplen u)"
  shows "row_total (fmupd k v m) \<le> Suc (row_total m)"
proof (cases "fmlookup m k")
  case None
  then show ?thesis using total_upd [of k v m] total_drop [of k m] assms by simp
next
  case (Some u)
  then show ?thesis using total_upd [of k v m] total_at [OF Some] assms by simp
qed

definition comp_size :: "compactionState \<Rightarrow> nat" where
  "comp_size s = maplen (createdQueues s) + row_total (createdSubs s) + maplen (inFlightMessages s) + row_total (inFlightAcks s)"

lemma compact_one_size: "comp_size (compact_one rec s) \<le> Suc (comp_size s)"
proof (cases "Op rec")
  case OpEnqueue
  then show ?thesis
    using maplen_upd [of _ rec "inFlightMessages s"]
    by (auto simp: compact_one_def applyEnqueue_def comp_size_def split: option.splits)
next
  case OpAck
  show ?thesis
  proof (cases "DecodeAck (RPayload rec)")
    case None
    then show ?thesis using OpAck by (simp add: compact_one_def applyAck_def comp_size_def)
  next
    case (Some a)
    let ?old = "case fmlookup (inFlightAcks s) (ackMsgId a) of None \<Rightarrow> fmempty | Some x \<Rightarrow> x"
    let ?as = "fmupd (ackMsgId a) (fmupd (ackSubName a) rec ?old) (inFlightAcks s)"
    have "row_total ?as \<le> Suc (row_total (inFlightAcks s))"
      by (rule total_upd_row) (auto simp: maplen_upd [THEN order_trans] split: option.split)
    moreover have "row_total (fmdrop (ackMsgId a) ?as) \<le> row_total (inFlightAcks s)" unfolding fmdrop_upd_same by (rule total_drop)
    ultimately show ?thesis
      using OpAck Some maplen_drop [of "ackMsgId a" "inFlightMessages s"]
      by (auto simp: compact_one_def applyAck_def comp_size_def Let_def)
  qed
next
  case OpCreateQueue
  have "row_total (fmupd (QueueName rec) fmempty (createdSubs s)) \<le> row_total (createdSubs s)"
    using total_upd [of "QueueName rec" fmempty "createdSubs s"] total_drop [of "QueueName rec" "createdSubs s"] by simp
  then show ?thesis
    using OpCreateQueue maplen_upd [of "QueueName rec" rec "createdQueues s"]
    by (simp add: compact_one_def applyCreateQueue_def comp_size_def)
next
  case OpDeleteQueue
  then show ?thesis
    using maplen_drop [of "QueueName rec" "createdQueues s"] total_drop [of "QueueName rec" "createdSubs s"]
      maplen_drop_fset [of _ "inFlightMessages s"] total_drop_fset [of _ "inFlightAcks s"]
    by (auto simp: compact_one_def applyDeleteQueue_def comp_size_def Let_def intro!: le_SucI add_mono)
next
  case OpUpdateSubPolicy
  have "row_total (fmupd n (fmupd k rec u) (createdSubs s)) \<le> Suc (row_total (createdSubs s))"
    if "fmlookup (createdSubs s) n = Some u" for n k u
    by (rule total_upd_row) (simp add: that maplen_upd)
  then show ?thesis using OpUpdateSubPolicy
    by (auto simp: compact_one_def applyUpdateSubPolicy_def comp_size_def split: option.splits)
next
  case OpDeleteSubPolicy
  have "row_total (fmupd n (fmdrop k u) (createdSubs s)) \<le> Suc (row_total (createdSubs s))"
    if "fmlookup (createdSubs s) n = Some u" for n k u
    by (rule total_upd_row) (simp add: that maplen_drop [THEN le_SucI])
  then show ?thesis using OpDeleteSubPolicy
    by (auto simp: compact_one_def applyDeleteSubPolicy_def comp_size_def split: option.splits)
qed (simp_all add: compact_one_def)

lemma fold_compact_size: "comp_size (fold compact_one recs s) \<le> length recs + comp_size s"
proof (induction recs arbitrary: s)
  case (Cons r rs)
  show ?case using Cons.IH [of "compact_one r s"] compact_one_size [of r s] by simp
qed simp

lemma length_in_order: "visits_all ord \<Longrightarrow> length (in_order ord m) = maplen m"
  by (simp add: in_order_def maplen_def fcard.rep_eq visits_allD flip: distinct_card)

lemma length_in_order2:
  assumes "visits_all outer" "\<And>k. visits_all (inner k)"
  shows "length (in_order2 outer inner m) = row_total m"
proof -
  have "length (in_order2 outer inner m) = sum_list (map (\<lambda>k. maplen (the (fmlookup m k))) (outer (fmdom m)))"
    by (simp add: in_order2_def length_concat length_in_order assms(2) comp_def)
  also have "\<dots> = row_total m"
    using visits_allD [OF assms(1), of "fmdom m"] by (simp add: sum_list_distinct_conv_sum_set row_total_def)
  finally show ?thesis .
qed

lemma length_compacted:
  assumes "\<And>t. visits_all (ord t)"
  shows "length (compacted ord s) = comp_size s"
  by (simp add: compacted_def comp_size_def length_in_order length_in_order2 assms)


section \<open>The records of a compacted log\<close>

definition comp_records :: "compactionState \<Rightarrow> Record set" where
  "comp_records s =
     {r. (\<exists>k. fmlookup (createdQueues s) k = Some r) \<or>
         (\<exists>k u j. fmlookup (createdSubs s) k = Some u \<and> fmlookup u j = Some r) \<or>
         (\<exists>k. fmlookup (inFlightMessages s) k = Some r) \<or>
         (\<exists>k u j. fmlookup (inFlightAcks s) k = Some u \<and> fmlookup u j = Some r)}"

lemma compact_one_records: "comp_records (compact_one rec s) \<subseteq> insert rec (comp_records s)"
proof (cases "Op rec")
  case OpAck
  then show ?thesis
    by (fastforce simp: compact_one_def applyAck_def comp_records_def Let_def split: option.splits if_splits)
next
  case OpDeleteQueue
  then show ?thesis
    by (fastforce simp: compact_one_def applyDeleteQueue_def comp_records_def Let_def split: if_splits)
qed (fastforce simp: compact_one_def applyEnqueue_def applyCreateQueue_def applyUpdateSubPolicy_def
      applyDeleteSubPolicy_def comp_records_def split: option.splits if_splits)+

lemma fold_compact_records: "comp_records (fold compact_one recs s) \<subseteq> set recs \<union> comp_records s"
proof (induction recs arbitrary: s)
  case (Cons r rs)
  show ?case using Cons.IH [of "compact_one r s"] compact_one_records [of r s] by auto
qed simp

lemma set_compacted:
  assumes "\<And>t. visits_all (ord t)"
  shows "set (compacted ord s) = comp_records s"
  by (auto simp: compacted_def comp_records_def in_order_mem in_order2_mem assms)


section \<open>Acknowledging in a deleted queue\<close>

lemma replay_one_no_queue:
  assumes "fmlookup d n = None" "Op rec = OpEnqueue \<longrightarrow> QueueName rec \<noteq> n" "replay_one rec (c, d) = Inr (c', d')"
  shows "fmlookup d' n = None"
  using assms
  by (auto simp: replay_one_def ProcessEnqueue_def ProcessAck_def DeleteQueueMessages_def Let_def
      split: OpType.splits sum.splits option.splits if_splits)

lemma replay_no_queue:
  assumes "fmlookup d n = None" "\<forall>r \<in> set recs. Op r = OpEnqueue \<longrightarrow> QueueName r \<noteq> n"
    "replay recs (c, d) = Inr (c', d')"
  shows "fmlookup d' n = None"
  using assms
proof (induction recs arbitrary: c d)
  case (Cons r rs)
  then obtain c1 d1 where 1: "replay_one r (c, d) = Inr (c1, d1)" "replay rs (c1, d1) = Inr (c', d')"
    by (auto split: sum.splits)
  then show ?case using Cons.IH [OF _ _ 1(2)] replay_one_no_queue [OF Cons.prems(1) _ 1(1)] Cons.prems(2) by simp
qed simp

section \<open>Properties\<close>

definition orders_record :: "nat \<Rightarrow> OpType \<Rightarrow> bytes \<Rightarrow> Record" where
  "orders_record n op p = \<lparr>LSN = n, Op = op, QueueName = ''orders'', RPayload = p\<rparr>"

definition sample_msg :: "string \<Rightarrow> Enqueue" where
  "sample_msg m = \<lparr>enqMsgId = m, MsgContent = ''hello'', SubList = fmupd ''audit'' sample_policy fmempty\<rparr>"

definition sample_ack :: "string \<Rightarrow> Ack" where
  "sample_ack m = \<lparr>ackMsgId = m, ackSubName = ''audit''\<rparr>"

definition sample_log :: "Record list" where
  "sample_log =
     [orders_record 1 OpCreateQueue [],
      orders_record 2 OpUpdateSubPolicy (EncodeSubPolicy sample_policy),
      orders_record 3 OpEnqueue (EncodeEnqueue (sample_msg ''orders-1'')),
      orders_record 4 OpEnqueue (EncodeEnqueue (sample_msg ''orders-2'')),
      orders_record 5 OpAck (EncodeAck (sample_ack ''orders-1''))]"

definition sample_tail :: "Record list" where
  "sample_tail = [orders_record 6 OpAck (EncodeAck (sample_ack ''orders-2''))]"

lemma sample_decodes:
  "DecodeSubPolicy (EncodeSubPolicy sample_policy) = Some sample_policy"
  "DecodeEnqueue (EncodeEnqueue (sample_msg ''orders-1'')) = Some (sample_msg ''orders-1'')"
  "DecodeEnqueue (EncodeEnqueue (sample_msg ''orders-2'')) = Some (sample_msg ''orders-2'')"
  "DecodeAck (EncodeAck (sample_ack ''orders-1'')) = Some (sample_ack ''orders-1'')"
  "DecodeAck (EncodeAck (sample_ack ''orders-2'')) = Some (sample_ack ''orders-2'')"
  by (auto intro!: DecodeSubPolicy_Encode DecodeEnqueue_Encode DecodeAck_Encode policies_text_upd
      simp: sample_policy_text enqueue_text_def sample_msg_def sample_ack_def valid_utf8.simps code_def)

lemma sample_sel:
  "enqMsgId (sample_msg m) = m" "SubList (sample_msg m) = fmupd ''audit'' sample_policy fmempty"
  "ackMsgId (sample_ack m) = m" "ackSubName (sample_ack m) = ''audit''"
  by (simp_all add: sample_msg_def sample_ack_def)

lemma sample_log_ok: "log_ok (sample_log @ sample_tail) log_init"
  by (simp add: sample_log_def sample_tail_def orders_record_def step_ok_def meaning_step_def Let_def sample_decodes
      log_init_def put_def keep_def sample_sel sample_policy_text unacked_def set_policies_def)


text \<open>
  C10. Replaying a well-formed log never fails and arrives at its meaning: the catalog its
  records describe, and exactly the messages that some subscriber has yet to acknowledge.
\<close>

theorem replay_refines_meaning:
  assumes "log_ok recs log_init"
  shows "\<exists>c d. replay recs (NewCatalog, NewDelivery) = Inr (c, d) \<and> (c, pending d) = meaning recs log_init"
  using assms by (rule replay_init)

theorem replay_refines_meaning_witness:
  "\<exists>c d. replay (sample_log @ sample_tail) (NewCatalog, NewDelivery) = Inr (c, d) \<and>
     (c, pending d) = meaning (sample_log @ sample_tail) log_init"
  using sample_log_ok by (rule replay_refines_meaning)

text \<open>
  C9. Compacting a prefix of a well-formed log, whatever order the maps are visited in, is
  invisible: replaying what compaction kept and then the rest succeeds like replaying the
  whole log, with the same catalog and the same messages left to deliver.
\<close>

theorem compaction_transparent:
  assumes "log_ok (xs @ ys) log_init" "\<And>t. visits_all (ord t)"
  shows "\<exists>c d d'. replay (xs @ ys) (NewCatalog, NewDelivery) = Inr (c, d) \<and>
    replay (CompactRecords ord xs @ ys) (NewCatalog, NewDelivery) = Inr (c, d') \<and> pending d' = pending d"
proof -
  have xs: "log_ok xs log_init" and ys: "log_ok ys (meaning xs log_init)" using assms(1) by simp_all
  have "log_ok (CompactRecords ord xs @ ys) log_init"
    using CompactRecords_meaning [OF xs assms(2)] ys by simp
  then obtain c' d' where 1: "replay (CompactRecords ord xs @ ys) (NewCatalog, NewDelivery) = Inr (c', d')"
    "(c', pending d') = meaning (CompactRecords ord xs @ ys) log_init" using replay_init by blast
  obtain c d where 2: "replay (xs @ ys) (NewCatalog, NewDelivery) = Inr (c, d)"
    "(c, pending d) = meaning (xs @ ys) log_init" using replay_init [OF assms(1)] by blast
  have "(c', pending d') = (c, pending d)" using 1(2) 2(2) CompactRecords_meaning(2) [OF xs assms(2)] by simp
  then show ?thesis using 1(1) 2(1) by auto
qed

theorem compaction_transparent_witness:
  "\<exists>c d d'. replay (sample_log @ sample_tail) (NewCatalog, NewDelivery) = Inr (c, d) \<and>
    replay (CompactRecords (\<lambda>_. sorted_list_of_fset) sample_log @ sample_tail) (NewCatalog, NewDelivery) = Inr (c, d') \<and>
    pending d' = pending d"
  by (rule compaction_transparent [OF sample_log_ok]) (rule visits_all_sorted)

text \<open>
  C35. Compaction of any window, well-formed or not, keeps only records of the window and
  never more of them than it had: repeated checkpoints cannot grow the log.
\<close>

theorem compaction_never_grows:
  assumes "\<And>t. visits_all (ord t)"
  shows "length (CompactRecords ord recs) \<le> length recs \<and> set (CompactRecords ord recs) \<subseteq> set recs"
  using fold_compact_size [of recs newCompactionState] fold_compact_records [of recs newCompactionState]
  by (simp add: CompactRecords_def length_compacted set_compacted assms comp_size_def comp_records_def
      newCompactionState_def)

theorem compaction_never_grows_witness:
  "length (CompactRecords (\<lambda>_. sorted_list_of_fset) sample_log) \<le> length sample_log \<and>
   set (CompactRecords (\<lambda>_. sorted_list_of_fset) sample_log) \<subseteq> set sample_log"
  by (rule compaction_never_grows) (rule visits_all_sorted)

text \<open>
  C36. An acknowledgement logged after its queue was deleted, with no message enqueued under
  that name in between, makes the replay of every log that contains it fail: the broker
  does not start on such a log.
\<close>

theorem orphan_ack_stops_replay:
  assumes "Op del = OpDeleteQueue" "QueueName del = n" "Op ack = OpAck" "QueueName ack = n"
    and "\<forall>r \<in> set ys. Op r = OpEnqueue \<longrightarrow> QueueName r \<noteq> n"
  shows "\<exists>e. replay (xs @ [del] @ ys @ [ack] @ zs) (NewCatalog, NewDelivery) = Inl e"
proof (cases "replay (xs @ [del]) (NewCatalog, NewDelivery)")
  case (Inl e)
  then show ?thesis using replay_append [of "xs @ [del]" "ys @ [ack] @ zs" "(NewCatalog, NewDelivery)"] by simp
next
  case (Inr s)
  obtain c d where s: "s = (c, d)" by (cases s)
  have d: "fmlookup d n = None" using Inr assms(1,2)
    by (auto simp: s replay_append replay_one_def ProcessRecord_def DeleteQueueMessages_def split: sum.splits)
  have whole: "replay (xs @ [del] @ ys @ [ack] @ zs) (NewCatalog, NewDelivery) = replay (ys @ [ack] @ zs) (c, d)"
    using Inr replay_append [of "xs @ [del]" "ys @ [ack] @ zs" "(NewCatalog, NewDelivery)"] by (simp add: s)
  have "\<exists>e. replay_one ack (c1, d1) = Inl e" if "replay ys (c, d) = Inr (c1, d1)" for c1 d1
    using replay_no_queue [OF d assms(5) that] assms(3,4)
    by (auto simp: replay_one_def ProcessAck_def split: option.splits)
  then show ?thesis unfolding whole by (fastforce simp: replay_append split: sum.splits)
qed

theorem orphan_ack_stops_replay_witness:
  "\<exists>e. replay (sample_log @ [orders_record 6 OpDeleteQueue []] @ [orders_record 7 OpCreateQueue []] @
      [orders_record 8 OpAck (EncodeAck (sample_ack ''orders-2''))] @ []) (NewCatalog, NewDelivery) = Inl e"
  by (rule orphan_ack_stops_replay [where n = "''orders''"]) (simp_all add: orders_record_def)

end
