(* ===== verification/History.thy ===== *)
theory History
  imports Wal_Read Compaction_Correct
begin

text \<open>
  The log as a history: all records ever appended, of which a directory holds the last ones
  and checkpoint files that stand for the ones before. What \<open>readLoop\<close> gathers from such a
  directory means the same as the whole history.
\<close>

section \<open>Histories\<close>

text \<open>The number of the last BEGIN record, or 0.\<close>

definition last_begin :: "Record list \<Rightarrow> nat" where
  "last_begin H = fold (\<lambda>r b. if Op r = OpBeginCheckpoint then LSN r else b) H 0"

lemma last_begin_simps [simp]:
  "last_begin [] = 0"
  "last_begin (H @ [r]) = (if Op r = OpBeginCheckpoint then LSN r else last_begin H)"
  by (simp_all add: last_begin_def)

lemma last_begin_bound: "numbered 1 H \<Longrightarrow> last_begin H \<le> length H"
  by (induction H rule: rev_induct) auto

lemma last_begin_mono: "numbered 1 (A @ B) \<Longrightarrow> last_begin A \<le> last_begin (A @ B)"
proof (induction B rule: rev_induct)
  case (snoc r B)
  have "numbered 1 A" "numbered 1 (A @ B)" using snoc.prems by simp_all
  then have "last_begin A \<le> length A" "last_begin A \<le> last_begin (A @ B)" using last_begin_bound snoc.IH by blast+
  then show ?case using snoc.prems unfolding append_assoc [symmetric] last_begin_simps by auto
qed simp

text \<open>
  The records \<open>xs\<close> of a checkpoint that ends after the history \<open>A\<close>: they mean what the records up to
  its BEGIN mean.
\<close>

definition ckpt_right :: "Record list \<Rightarrow> Record list \<Rightarrow> bool" where
  "ckpt_right A xs \<longleftrightarrow> 0 < last_begin A \<and> log_ok xs log_init \<and>
     meaning xs log_init = meaning (take (last_begin A) A) log_init \<and>
     (\<forall>x \<in> set xs. 1 \<le> LSN x \<and> LSN x \<le> last_begin A)"

definition good :: "fs \<Rightarrow> Record list \<Rightarrow> bool" where
  "good fs H \<longleftrightarrow> (\<forall>A r B xs. H = A @ r # B \<longrightarrow> ckpt_of fs r = Some xs \<longrightarrow> ckpt_right A xs)"

lemma goodD: "good fs (A @ r # B) \<Longrightarrow> ckpt_of fs r = Some xs \<Longrightarrow> ckpt_right A xs"
  unfolding good_def by blast

lemma good_prefix: "good fs (A @ B) \<Longrightarrow> good fs A"
  unfolding good_def by (metis append.assoc append_Cons)

text \<open>\<open>P\<close> is gone, \<open>Q\<close> is left: then \<open>Q\<close> has a checkpoint that covers \<open>P\<close>.\<close>

definition seen :: "fs \<Rightarrow> Record list \<Rightarrow> Record list \<Rightarrow> bool" where
  "seen fs P Q \<longleftrightarrow> P = [] \<or> (\<exists>A r B. Q = A @ r # B \<and> ckpt_of fs r \<noteq> None \<and> length P < last_begin (P @ A))"

lemma seen_append: "seen fs P Q \<Longrightarrow> seen fs P (Q @ R)"
  unfolding seen_def by (metis append.assoc append_Cons)

section \<open>Splicing checkpoints in\<close>

lemma splitAt_low: "\<forall>y \<in> set Y. LSN y \<le> b \<Longrightarrow> splitAt (Y @ Z) b = length Y + splitAt Z b"
  by (induction Y) auto

lemma splitAt_numbered: "numbered (Suc m) Z \<Longrightarrow> m \<le> b \<Longrightarrow> b \<le> m + length Z \<Longrightarrow> splitAt Z b = b - m"
proof (induction Z arbitrary: m)
  case (Cons z Z)
  show ?case
  proof (cases "b = m")
    case False
    then have "splitAt Z b = b - Suc m" using Cons.IH [of "Suc m"] Cons.prems by simp
    then show ?thesis using Cons.prems False by simp
  qed (use Cons.prems in simp)
qed simp

lemma splitAt_0: "\<forall>y \<in> set Y. 1 \<le> LSN y \<Longrightarrow> splitAt Y 0 = 0"
  by (cases Y) auto

lemma numbered_drop: "numbered s H \<Longrightarrow> m \<le> length H \<Longrightarrow> numbered (s + m) (drop m H)"
  by (metis add_diff_cancel_left' append_take_drop_id length_append length_drop length_take min.absorb2 numbered_append)

lemma drop_past: "m \<le> b \<Longrightarrow> drop (length Y + (b - m)) (Y @ drop m Z) = drop b Z"
  by simp

text \<open>What has been gathered after \<open>Q\<close>.\<close>

definition spliced :: "fs \<Rightarrow> Record list \<Rightarrow> Record list \<Rightarrow> gathered \<Rightarrow> bool" where
  "spliced fs P Q g \<longleftrightarrow>
     lastBeginCkptLSN g = (if length P < last_begin (P @ Q) then last_begin (P @ Q) else 0) \<and>
     (\<exists>m Y. length P \<le> m \<and> m \<le> length (P @ Q) \<and> (m = length P \<or> m \<le> last_begin (P @ Q)) \<and>
        records g = Y @ drop m (P @ Q) \<and> (\<forall>y \<in> set Y. 1 \<le> LSN y \<and> LSN y \<le> m) \<and>
        (seen fs P Q \<longrightarrow> log_ok Y log_init \<and> meaning Y log_init = meaning (take m (P @ Q)) log_init))"

lemma splicedI:
  assumes "lastBeginCkptLSN g = (if length P < last_begin (P @ Q) then last_begin (P @ Q) else 0)"
    "length P \<le> m" "m \<le> length (P @ Q)" "m = length P \<or> m \<le> last_begin (P @ Q)"
    "records g = Y @ drop m (P @ Q)" "\<forall>y \<in> set Y. 1 \<le> LSN y \<and> LSN y \<le> m"
    "seen fs P Q \<Longrightarrow> log_ok Y log_init \<and> meaning Y log_init = meaning (take m (P @ Q)) log_init"
  shows "spliced fs P Q g"
  unfolding spliced_def using assms by blast

lemma spliced_start:
  assumes "numbered 1 P"
  shows "spliced fs P [] nothing"
  by (rule splicedI [where m = "length P" and Y = "[]"])
    (use last_begin_bound [OF assms] in \<open>auto simp: nothing_def seen_def\<close>)

lemma spliced_plain:
  assumes sp: "spliced fs P Q g" and num: "numbered 1 (P @ Q @ [r])" and no: "ckpt_of fs r = None"
  shows "spliced fs P (Q @ [r]) (gather fs r g)"
proof -
  obtain m Y where mY: "length P \<le> m" "m \<le> length (P @ Q)" "m = length P \<or> m \<le> last_begin (P @ Q)"
    "records g = Y @ drop m (P @ Q)" "\<forall>y \<in> set Y. 1 \<le> LSN y \<and> LSN y \<le> m"
    "seen fs P Q \<longrightarrow> log_ok Y log_init \<and> meaning Y log_init = meaning (take m (P @ Q)) log_init"
    and lb: "lastBeginCkptLSN g = (if length P < last_begin (P @ Q) then last_begin (P @ Q) else 0)"
    using sp unfolding spliced_def by blast
  have app: "P @ Q @ [r] = (P @ Q) @ [r]" by simp
  have r: "LSN r = Suc (length (P @ Q))" and pq: "numbered 1 (P @ Q)" using num by simp_all
  have sn: "seen fs P Q" if "seen fs P (Q @ [r])"
    using that no unfolding seen_def by (auto simp: append_eq_append_conv2 append_eq_Cons_conv Cons_eq_append_conv)
  show ?thesis
  proof (rule splicedI [where m = m and Y = Y])
    show "lastBeginCkptLSN (gather fs r g) = (if length P < last_begin (P @ Q @ [r]) then last_begin (P @ Q @ [r]) else 0)"
      unfolding app last_begin_simps using r lb by (simp add: gather_def no)
    show "m = length P \<or> m \<le> last_begin (P @ Q @ [r])"
      using mY(3) last_begin_mono [of "P @ Q" "[r]"] num unfolding app by auto
    show "records (gather fs r g) = Y @ drop m (P @ Q @ [r])"
      unfolding app using mY(2,4) by (simp add: gather_def no)
    show "log_ok Y log_init \<and> meaning Y log_init = meaning (take m (P @ Q @ [r])) log_init" if "seen fs P (Q @ [r])"
      using mY(6) sn [OF that] mY(2) unfolding app by simp
  qed (use mY in simp_all)
qed

lemma spliced_ckpt:
  assumes sp: "spliced fs P Q g" and num: "numbered 1 (P @ Q @ [r])" and gd: "good fs (P @ Q @ [r])"
    and xs: "ckpt_of fs r = Some xs"
  shows "spliced fs P (Q @ [r]) (gather fs r g)"
proof -
  obtain m Y where mY: "length P \<le> m" "m \<le> length (P @ Q)" "m = length P \<or> m \<le> last_begin (P @ Q)"
    "records g = Y @ drop m (P @ Q)" "\<forall>y \<in> set Y. 1 \<le> LSN y \<and> LSN y \<le> m"
    "seen fs P Q \<longrightarrow> log_ok Y log_init \<and> meaning Y log_init = meaning (take m (P @ Q)) log_init"
    and lb: "lastBeginCkptLSN g = (if length P < last_begin (P @ Q) then last_begin (P @ Q) else 0)"
    using sp unfolding spliced_def by blast
  let ?b = "last_begin (P @ Q)"
  have app: "P @ Q @ [r] = (P @ Q) @ [r]" by simp
  have r: "Op r \<noteq> OpBeginCheckpoint" using xs by (auto simp: ckpt_of_def split: if_splits)
  have pq: "numbered 1 (P @ Q)" using num by simp
  have b: "?b \<le> length (P @ Q)" using last_begin_bound [OF pq] .
  have rt: "0 < ?b" "log_ok xs log_init" "meaning xs log_init = meaning (take ?b (P @ Q)) log_init"
    "\<forall>x \<in> set xs. 1 \<le> LSN x \<and> LSN x \<le> ?b"
    using goodD [of fs "P @ Q" r "[]" xs] gd xs unfolding ckpt_right_def by simp_all
  have lb': "last_begin (P @ Q @ [r]) = ?b" unfolding app last_begin_simps using r by simp
  have g': "lastBeginCkptLSN (gather fs r g) = lastBeginCkptLSN g"
    "records (gather fs r g) = xs @ drop (splitAt (records g) (lastBeginCkptLSN g)) (records g) @ [r]"
    by (simp_all add: gather_def xs Let_def)
  have num_m: "numbered (Suc m) (drop m (P @ Q))" using numbered_drop [OF pq mY(2)] by simp
  show ?thesis
  proof (cases "length P < ?b")
    case True
    have "m \<le> ?b" using mY(3) True by auto
    then have low: "\<forall>y \<in> set Y. LSN y \<le> ?b" using mY(5) by fastforce
    have "splitAt (records g) ?b = length Y + (?b - m)"
      unfolding mY(4) splitAt_low [OF low]
      using splitAt_numbered [OF num_m, of ?b] \<open>m \<le> ?b\<close> b mY(2) by simp
    then have "drop (splitAt (records g) ?b) (records g) = drop ?b (P @ Q)"
      using drop_past [OF \<open>m \<le> ?b\<close>, of Y "P @ Q"] by (simp only: mY(4))
    then have "records (gather fs r g) = xs @ drop ?b (P @ Q @ [r])"
      using True lb b unfolding app by (simp add: g'(2) del: append_assoc)
    then show ?thesis
      by (intro splicedI [where m = ?b and Y = xs]) (use True lb b rt g'(1) in \<open>simp_all add: lb'\<close>)
  next
    case False
    have "splitAt (records g) 0 = 0"
    proof (rule splitAt_0, rule ballI)
      fix y assume "y \<in> set (records g)"
      then consider "y \<in> set Y" | "y \<in> set (drop m (P @ Q))" unfolding mY(4) set_append by blast
      then show "1 \<le> LSN y"
      proof cases
        case 2
        show ?thesis using numbered_mem [OF num_m 2] by linarith
      qed (use mY(5) in blast)
    qed
    then have rs: "records (gather fs r g) = (xs @ Y) @ drop m (P @ Q @ [r])"
      using False lb mY(2,4) unfolding app by (simp add: g'(2) del: append_assoc)
    have "\<not> seen fs P (Q @ [r])"
    proof
      assume "seen fs P (Q @ [r])"
      then obtain A x B where "Q @ [r] = A @ x # B" "length P < last_begin (P @ A)"
        using False rt(1) unfolding seen_def by auto
      then have "P @ Q = P @ A @ butlast (x # B)"
        by (metis append_butlast_last_id butlast_append butlast_snoc list.distinct(1))
      then have "last_begin (P @ A) \<le> ?b" using last_begin_mono [of "P @ A" "butlast (x # B)"] pq by simp
      then show False using \<open>length P < last_begin (P @ A)\<close> False by simp
    qed
    then show ?thesis
      by (intro splicedI [where m = m and Y = "xs @ Y"])
        (use False lb mY rt(4) rs g'(1) in \<open>auto simp: lb' intro: order_trans\<close>)
  qed
qed

lemma gather_spliced:
  assumes "numbered 1 (P @ Q)" "good fs (P @ Q)"
  shows "spliced fs P Q (fold (gather fs) Q nothing)"
  using assms
proof (induction Q rule: rev_induct)
  case Nil
  then show ?case by (simp add: spliced_start)
next
  case (snoc r Q)
  have IH: "spliced fs P Q (fold (gather fs) Q nothing)"
    using snoc good_prefix [of fs "P @ Q" "[r]"] by simp
  show ?case
    using spliced_plain [OF IH snoc.prems(1)] spliced_ckpt [OF IH snoc.prems] by (cases "ckpt_of fs r") simp_all
qed

text \<open>Reading a directory gives a log with the meaning of the whole history.\<close>

lemma gather_meaning:
  assumes "numbered 1 (P @ Q)" "good fs (P @ Q)" "seen fs P Q" "log_ok (P @ Q) log_init"
  defines "g \<equiv> fold (gather fs) Q nothing"
  shows "log_ok (records g) log_init" "meaning (records g) log_init = meaning (P @ Q) log_init"
    "x \<in> set (records g) \<Longrightarrow> 1 \<le> LSN x \<and> LSN x \<le> length (P @ Q)"
proof -
  obtain m Y where mY: "m \<le> length (P @ Q)" "records g = Y @ drop m (P @ Q)"
    "log_ok Y log_init" "meaning Y log_init = meaning (take m (P @ Q)) log_init" "\<forall>y \<in> set Y. 1 \<le> LSN y \<and> LSN y \<le> m"
    using gather_spliced [OF assms(1,2)] assms(3) unfolding spliced_def g_def by blast
  have H: "P @ Q = take m (P @ Q) @ drop m (P @ Q)" by (rule append_take_drop_id [symmetric])
  have ok: "log_ok (drop m (P @ Q)) (meaning (take m (P @ Q)) log_init)"
    using assms(4) by (subst (asm) H) (simp del: append_take_drop_id)
  have mn: "meaning (P @ Q) log_init = meaning (drop m (P @ Q)) (meaning (take m (P @ Q)) log_init)"
    by (subst H) (simp del: append_take_drop_id)
  show "log_ok (records g) log_init" using mY(3) ok by (simp only: mY(2,4) log_ok_append)
  show "meaning (records g) log_init = meaning (P @ Q) log_init"
    using meaning_simps(3) [of Y "drop m (P @ Q)" log_init] by (simp only: mn mY(2,4))
  show "1 \<le> LSN x \<and> LSN x \<le> length (P @ Q)" if "x \<in> set (records g)"
  proof -
    have "x \<in> set Y \<or> x \<in> set (P @ Q)" using that set_drop_subset [of m "P @ Q"] unfolding mY(2) by auto
    then show ?thesis using mY(1,5) numbered_mem [OF assms(1), of x] by force
  qed
qed

lemma gather_storable:
  assumes "list_all storable Q" "list_all (consistent fs) Q" "list_all storable (records g)"
  shows "list_all storable (records (fold (gather fs) Q g))"
  using assms
proof (induction Q arbitrary: g)
  case (Cons r Q)
  have "list_all storable xs" if xs: "ckpt_of fs r = Some xs" for xs
  proof -
    obtain e b where e: "Op r = OpEndCheckpoint" "DecodeEndCheckpoint (RPayload r) = Some e"
      "fmlookup fs (FileName e) = Some b" "xs = fst (the (scan b))"
      using xs by (auto simp: ckpt_of_def split: if_splits option.splits)
    moreover obtain ys where "list_all storable ys" "b = encode_all ys"
      using Cons.prems(2) e(1-3) by (auto simp: consistent_def)
    ultimately show ?thesis by (simp add: scan_encoded)
  qed
  then have "list_all storable (records (gather fs r g))"
    using Cons.prems(1,3) by (auto simp: gather_def Let_def list_all_iff split: option.splits dest: in_set_dropD)
  then show ?case using Cons by simp
qed simp

text \<open>Which checkpoint is in force at the end, and where it begins.\<close>

lemma gather_valid:
  fixes fs :: fs
  defines "g \<equiv> \<lambda>Q. fold (gather fs) Q nothing"
  shows "(\<forall>r \<in> set Q. ckpt_of fs r = None) \<and> validCkptName (g Q) = [] \<and> validCkptLSN (g Q) = 0 \<or>
    (\<exists>A r B. Q = A @ r # B \<and> ckpt_of fs r \<noteq> None \<and> (\<forall>x \<in> set B. ckpt_of fs x = None) \<and>
       validCkptName (g Q) = ckpt_name r \<and> validCkptLSN (g Q) = lastBeginCkptLSN (g A))"
proof (induction Q rule: rev_induct)
  case Nil
  then show ?case by (simp add: g_def nothing_def)
next
  case (snoc r Q)
  have g: "g (Q @ [r]) = gather fs r (g Q)" by (simp add: g_def)
  show ?case
  proof (cases "ckpt_of fs r")
    case None
    then have v: "validCkptName (g (Q @ [r])) = validCkptName (g Q)" "validCkptLSN (g (Q @ [r])) = validCkptLSN (g Q)"
      by (simp_all add: g gather_def Let_def)
    show ?thesis
    proof (rule disjE [OF snoc.IH])
      assume "\<exists>A x B. Q = A @ x # B \<and> ckpt_of fs x \<noteq> None \<and> (\<forall>x \<in> set B. ckpt_of fs x = None) \<and>
          validCkptName (g Q) = ckpt_name x \<and> validCkptLSN (g Q) = lastBeginCkptLSN (g A)"
      then obtain A x B where "Q = A @ x # B" "ckpt_of fs x \<noteq> None" "\<forall>x \<in> set B. ckpt_of fs x = None"
          "validCkptName (g Q) = ckpt_name x" "validCkptLSN (g Q) = lastBeginCkptLSN (g A)" by blast
      then show ?thesis unfolding v
        by (intro disjI2 exI [of _ A] exI [of _ x] exI [of _ "B @ [r]"]) (simp add: None)
    qed (simp add: v None)
  next
    case (Some xs)
    then have "validCkptName (g (Q @ [r])) = ckpt_name r" "validCkptLSN (g (Q @ [r])) = lastBeginCkptLSN (g Q)"
      by (simp_all add: g gather_def Let_def)
    then show ?thesis
      by (intro disjI2 exI [of _ Q] exI [of _ r] exI [of _ "[]"]) (simp add: Some)
  qed
qed

section \<open>A directory and its history\<close>

definition ckpt_named :: "Record \<Rightarrow> bool" where
  "ckpt_named r \<longleftrightarrow> (\<forall>e. Op r = OpEndCheckpoint \<longrightarrow> DecodeEndCheckpoint (RPayload r) = Some e \<longrightarrow> suffix ''.ckpt'' (FileName e))"

text \<open>\<open>s\<close> is the number of the first record that is left in the segments.\<close>

definition history :: "Record list \<Rightarrow> nat \<Rightarrow> fs \<Rightarrow> bool" where
  "history H s fs \<longleftrightarrow> 1 \<le> s \<and> s \<le> Suc (length H) \<and> numbered 1 H \<and> log_ok H log_init \<and> good fs H \<and>
     seen fs (take (s - 1) H) (drop (s - 1) H) \<and> list_all (consistent fs) H \<and> list_all ckpt_named H"

lemma historyD:
  assumes "history H s fs"
  shows "1 \<le> s" "s \<le> Suc (length H)" "numbered 1 H" "log_ok H log_init" "good fs H"
    "seen fs (take (s - 1) H) (drop (s - 1) H)" "list_all (consistent fs) H" "list_all ckpt_named H"
  using assms unfolding history_def by blast+

lemma history_empty: "history [] 1 fs"
  by (simp add: history_def good_def seen_def)

text \<open>Removing checkpoint files is safe as long as one that covers what is gone stays.\<close>

definition ckpts_within :: "fs \<Rightarrow> fs \<Rightarrow> bool" where
  "ckpts_within fs' fs \<longleftrightarrow> (\<forall>n. suffix ''.ckpt'' n \<longrightarrow> fmlookup fs' n = None \<or> fmlookup fs' n = fmlookup fs n)"

lemma ckpt_of_within:
  assumes "ckpts_within fs' fs" "ckpt_named r"
  shows "ckpt_of fs' r = None \<or> ckpt_of fs' r = ckpt_of fs r"
  using assms by (auto simp: ckpt_of_def ckpt_named_def ckpts_within_def split: option.splits)

lemma consistent_within:
  assumes "ckpts_within fs' fs" "ckpt_named r" "consistent fs r"
  shows "consistent fs' r"
  using assms unfolding consistent_def ckpt_named_def ckpts_within_def by (metis option.distinct(1))

lemma history_within:
  assumes h: "history H s fs" and w: "ckpts_within fs' fs" and "1 \<le> s'" "s' \<le> Suc (length H)"
    and sn: "seen fs' (take (s' - 1) H) (drop (s' - 1) H)"
  shows "history H s' fs'"
proof -
  note hD = historyD [OF h]
  have "good fs' H"
    unfolding good_def
  proof (intro allI impI)
    fix A r B xs assume eq: "H = A @ r # B" and xs: "ckpt_of fs' r = Some xs"
    have "ckpt_named r" using hD(8) eq by simp
    then have "ckpt_of fs r = Some xs" using ckpt_of_within [OF w, of r] xs by auto
    then show "ckpt_right A xs" using hD(5) eq goodD by blast
  qed
  moreover have "list_all (consistent fs') H"
    using hD(7,8) consistent_within [OF w] by (auto simp: list_all_iff)
  ultimately show ?thesis using assms hD unfolding history_def by blast
qed

definition ckpts_same :: "fs \<Rightarrow> fs \<Rightarrow> bool" where
  "ckpts_same fs' fs \<longleftrightarrow> (\<forall>n. suffix ''.ckpt'' n \<longrightarrow> fmlookup fs' n = fmlookup fs n)"

lemma ckpt_of_same: "ckpts_same fs' fs \<Longrightarrow> ckpt_named r \<Longrightarrow> ckpt_of fs' r = ckpt_of fs r"
  by (auto simp: ckpt_of_def ckpt_named_def ckpts_same_def split: option.splits)

lemma seen_cong:
  assumes "\<And>r. r \<in> set Q \<Longrightarrow> ckpt_of fs' r = ckpt_of fs r" "seen fs P Q"
  shows "seen fs' P Q"
  using assms unfolding seen_def by (metis in_set_conv_decomp)

lemma history_same:
  assumes "history H s fs" "ckpts_same fs' fs"
  shows "history H s fs'"
proof (rule history_within [OF assms(1)])
  show "ckpts_within fs' fs" using assms(2) by (simp add: ckpts_within_def ckpts_same_def)
  show "seen fs' (take (s - 1) H) (drop (s - 1) H)"
    by (rule seen_cong [OF _ historyD(6) [OF assms(1)]])
      (use historyD(8) [OF assms(1)] ckpt_of_same [OF assms(2)] in \<open>auto simp: list_all_iff dest: in_set_dropD\<close>)
qed (use historyD(1,2) [OF assms(1)] in auto)

lemma seen_cut:
  assumes "H = A @ r # B" "ckpt_of fs r \<noteq> None" "n < last_begin A" "numbered 1 H"
  shows "seen fs (take n H) (drop n H)"
proof -
  have "n \<le> length A" using last_begin_bound [of A] assms by simp
  then have "drop n H = drop n A @ r # B" "take n H @ drop n A = A" "length (take n H) = n" using assms(1) by simp_all
  then show ?thesis using assms(2,3) unfolding seen_def by metis
qed

lemma history_append:
  assumes h: "history H s fs" and r: "LSN r = Suc (length H)" "step_ok r (meaning H log_init)" "consistent fs r" "ckpt_named r"
    and right: "\<And>xs. ckpt_of fs r = Some xs \<Longrightarrow> ckpt_right H xs"
  shows "history (H @ [r]) s fs"
proof -
  note hD = historyD [OF h]
  have "good fs (H @ [r])"
    unfolding good_def
  proof (intro allI impI)
    fix A x B xs assume eq: "H @ [r] = A @ x # B" and xs: "ckpt_of fs x = Some xs"
    show "ckpt_right A xs"
    proof (cases B rule: rev_cases)
      case Nil
      then show ?thesis using eq xs right by simp
    next
      case (snoc B' y)
      then have "H = A @ x # B'" using eq by simp
      then show ?thesis using hD(5) xs goodD by blast
    qed
  qed
  moreover have "seen fs (take (s - 1) (H @ [r])) (drop (s - 1) (H @ [r]))"
    using seen_append [OF hD(6), of "[r]"] hD(1,2) by simp
  ultimately show ?thesis using hD r unfolding history_def by simp
qed

section \<open>The directory of a log\<close>

text \<open>Everything about the segments of a log is determined by the \<open>.wal\<close> files.\<close>

definition wals_same :: "fs \<Rightarrow> fs \<Rightarrow> bool" where
  "wals_same fs' fs \<longleftrightarrow> (\<forall>n. suffix ''.wal'' n \<longrightarrow> fmlookup fs' n = fmlookup fs n)"

lemma seg_names_wal: "n \<in> set (seg_names s cs) \<Longrightarrow> suffix ''.wal'' n"
  by (induction cs arbitrary: s) auto

lemma stored_same:
  assumes st: "stored s cs c t fs" and same: "wals_same fs' fs"
  shows "stored s cs c t fs'"
proof -
  have st: "closed s cs fs" "with_suffix ''.wal'' fs = all_names s cs" "numbered s (concat cs @ c)"
    "list_all storable (concat cs @ c)" "open_lsn s cs + length c < 2 ^ 64"
    "fmlookup fs (segmentFileName (open_lsn s cs)) = Some (encode_all c @ t)"
    using st unfolding stored_def by blast+
  have cl: "closed s cs fs'"
    by (rule closed_frame [OF st(1)]) (use same seg_names_wal in \<open>auto simp: wals_same_def\<close>)
  have op: "fmlookup fs' (segmentFileName (open_lsn s cs)) = Some (encode_all c @ t)"
    using st(6) same by (simp add: wals_same_def)
  have "with_suffix ''.wal'' fs' = with_suffix ''.wal'' fs"
    by (rule with_suffix_frame) (use same in \<open>auto simp: wals_same_def fmlookup_dom_iff\<close>)
  then have ws: "with_suffix ''.wal'' fs' = all_names s cs" using st(2) by (rule trans)
  show ?thesis unfolding stored_def by (intro conjI cl op ws st(3-5))
qed

lemma live_same: "live s cs c fs sm w \<Longrightarrow> wals_same fs' fs \<Longrightarrow> live s cs c fs' sm w"
  unfolding live_def using stored_same by blast

lemma suffixes_apart:
  "suffix ''.ckpt'' n \<Longrightarrow> \<not> suffix ''.wal'' n" "suffix ''.tmp'' n \<Longrightarrow> \<not> suffix ''.wal'' n"
  "suffix ''.tmp'' n \<Longrightarrow> \<not> suffix ''.ckpt'' n"
  by (auto simp: suffix_def)

lemma checksum_all_ok:
  "set ns \<subseteq> fset (fmdom fs) \<Longrightarrow> \<exists>cks. checksum_all no_faults fs ns = Inr cks \<and> map fst cks = ns"
proof (induction ns)
  case (Cons n ns)
  then obtain cks b where "checksum_all no_faults fs ns = Inr cks" "map fst cks = ns" "fmlookup fs n = Some b"
    by (auto simp: fmlookup_dom_iff)
  then show ?case by (simp add: checksumFile_def open_file_def)
qed simp

lemma set_with_suffix: "set (with_suffix ext fs) = {n. n |\<in>| fmdom fs \<and> suffix ext n}"
  using with_suffix_eq_iff by blast

lemma DeleteCheckpointFilesExcept_ok:
  "fmlookup (fst (DeleteCheckpointFilesExcept no_faults k fs)) n =
     (if suffix ''.ckpt'' n \<and> n \<noteq> k then None else fmlookup fs n)"
proof -
  obtain cks where cks: "checksum_all no_faults fs (with_suffix ''.ckpt'' fs) = Inr cks" "map fst cks = with_suffix ''.ckpt'' fs"
    using checksum_all_ok [of "with_suffix ''.ckpt'' fs" fs] by (auto simp: set_with_suffix)
  then show ?thesis
    by (auto simp: DeleteCheckpointFilesExcept_def GetCheckpointFiles_def remove_files_ok fset_of_list.rep_eq set_with_suffix
        fmdom_notD)
qed

lemma DeleteTmpFiles_ok:
  "fmlookup (fst (DeleteTmpFiles no_faults fs)) n = (if suffix ''.tmp'' n then None else fmlookup fs n)"
  by (auto simp: DeleteTmpFiles_def remove_files_ok fset_of_list.rep_eq entries_def sorted_list_of_fset.rep_eq fmdom_notD)

end
