(* ===== verification/Wal_Correct.thy ===== *)
theory Wal_Correct
  imports History
begin

text \<open>
  Reading a running log at start-up and for a checkpoint, over a directory with a history.
\<close>

section \<open>A running log with a history\<close>

definition running_on :: "Record list \<Rightarrow> fs \<Rightarrow> Options \<Rightarrow> WAL \<Rightarrow> bool" where
  "running_on H fs opts l \<longleftrightarrow>
     (\<exists>s cs c. running s cs c fs opts l \<and> history H s fs \<and> concat cs @ c = drop (s - 1) H)"

lemma valid_covers:
  assumes num: "numbered 1 (P @ Q)" and gd: "good fs (P @ Q)" and sn: "seen fs P Q"
    and Q: "Q = A @ r # B" "ckpt_of fs r \<noteq> None" "\<forall>x \<in> set B. ckpt_of fs x = None"
  shows "length P < last_begin (P @ A)"
proof (cases "P = []")
  case True
  obtain xs where "ckpt_of fs r = Some xs" using Q(2) by blast
  then show ?thesis using goodD [of fs A r B xs] gd Q(1) True by (simp add: ckpt_right_def)
next
  case False
  then obtain A' x B' where x: "Q = A' @ x # B'" "ckpt_of fs x \<noteq> None" "length P < last_begin (P @ A')"
    using sn unfolding seen_def by blast
  have "\<exists>C. A = A' @ C"
  proof -
    have "A @ r # B = A' @ x # B'" using Q(1) x(1) by simp
    then consider C where "A = A' @ C" | C where "A @ C = A'" "r # B = C @ x # B'"
      by (auto simp: append_eq_append_conv2)
    then show ?thesis
    proof cases
      case 2
      then show ?thesis using Q(3) x(2) by (cases C) auto
    qed blast
  qed
  then obtain C where "A = A' @ C" by blast
  then show ?thesis using last_begin_mono [of "P @ A'" C] num x(3) Q(1) by simp
qed

text \<open>The clean-up of \<open>ReadAll\<close> keeps what the history needs.\<close>

lemma cleanup_seen:
  fixes fs :: fs and s :: nat and H :: "Record list"
  defines "g \<equiv> fold (gather fs) (drop (s - 1) H) nothing"
  assumes h: "history H s fs" and w: "ckpts_within fs' fs"
    and kept: "\<And>n. suffix ''.ckpt'' n \<Longrightarrow> n = validCkptName g \<Longrightarrow> fmlookup fs' n = fmlookup fs n"
    and s': "s' = s \<or> s' \<le> validCkptLSN g" "s \<le> s'"
  shows "history H s' fs'"
proof -
  note hD = historyD [OF h]
  let ?P = "take (s - 1) H" and ?Q = "drop (s - 1) H"
  have PQ: "?P @ ?Q = H" by simp
  have lP: "length ?P = s - 1" using hD(1,2) by simp
  have "(\<forall>r \<in> set ?Q. ckpt_of fs r = None) \<and> validCkptName g = [] \<and> validCkptLSN g = 0 \<or>
    (\<exists>A r B. ?Q = A @ r # B \<and> ckpt_of fs r \<noteq> None \<and> (\<forall>x \<in> set B. ckpt_of fs x = None) \<and>
       validCkptName g = ckpt_name r \<and> validCkptLSN g = lastBeginCkptLSN (fold (gather fs) A nothing))"
    unfolding g_def by (rule gather_valid)
  then show ?thesis
  proof (elim disjE exE conjE, goal_cases)
    case 1
    have "?P = []" using hD(6) 1(1) unfolding seen_def by (metis in_set_conv_decomp)
    then have "s - 1 = 0" using lP by (metis list.size(3))
    then have "s = 1" using hD(1) by simp
    then have "s' = 1" using s' 1(3) by auto
    then show ?thesis by (intro history_within [OF h w]) (simp_all add: seen_def)
  next
    case (2 A r B)
    have H: "H = (?P @ A) @ r # B" using PQ unfolding 2(1) by simp
    have num: "numbered 1 (?P @ A)" and gd: "good fs (?P @ A)" using hD(3,5) H good_prefix by (metis numbered_append)+
    have b: "length ?P < last_begin (?P @ A)"
      by (rule valid_covers [OF _ _ hD(6) 2(1-3)]) (use hD(3,5) PQ in simp_all)
    then have "validCkptLSN g = last_begin (?P @ A)"
      using gather_spliced [OF num gd] 2(5) by (simp add: spliced_def)
    then have s'b: "s' - 1 < last_begin (?P @ A)" using s' b lP hD(1) by auto
    obtain e where e: "Op r = OpEndCheckpoint" "DecodeEndCheckpoint (RPayload r) = Some e" "ckpt_name r = FileName e"
      using 2(2) by (auto simp: ckpt_of_def ckpt_name_def split: if_splits option.splits)
    have "ckpt_named r" using hD(8) by (subst (asm) H) simp
    then have "fmlookup fs' (FileName e) = fmlookup fs (FileName e)" using kept e 2(4) by (simp add: ckpt_named_def)
    then have "ckpt_of fs' r \<noteq> None" using 2(2) e by (simp add: ckpt_of_def)
    then have sn: "seen fs' (take (s' - 1) H) (drop (s' - 1) H)" using seen_cut [OF H _ s'b hD(3)] by blast
    have "length H = length (?P @ A) + Suc (length B)" using arg_cong [OF H, of length] by (simp del: append_assoc)
    then have "s' \<le> Suc (length H)" using s'b last_begin_bound [OF num] by linarith
    then show ?thesis using s'(2) hD(1) by (intro history_within [OF h w _ _ sn]) simp_all
  qed
qed

section \<open>Reading at start-up\<close>

lemma gather_records_meaning:
  assumes h: "history H s fs"
  defines "g \<equiv> fold (gather fs) (drop (s - 1) H) nothing"
  shows "log_ok (records g) log_init" "meaning (records g) log_init = meaning H log_init"
  using gather_meaning [of "take (s - 1) H" "drop (s - 1) H" fs] historyD [OF h] by (simp_all add: g_def)

lemma list_all_drop: "list_all P xs \<Longrightarrow> list_all P (drop n xs)"
  by (auto simp: list_all_iff dest: in_set_dropD)

lemma wal_ReadAll_ok:
  assumes run: "running s cs c fs opts l" and files: "wal_files l = Some (sm, w, start_reader s)"
    and h: "history H s fs" and seg: "concat cs @ c = drop (s - 1) H"
  obtains fs' l' recs where "wal_ReadAll no_faults fs l = Some ((fs', l'), Done recs)" "running_on H fs' opts l'"
    "log_ok recs log_init" "meaning recs log_init = meaning H log_init"
proof -
  have lv: "live s cs c fs sm w" and opts: "wal_mode l = optMode opts" "optMode opts \<noteq> ModeOff"
    "maxSegSize w = optMaxSegSize opts" "ckptThreshold sm = threshold (optCheckpointThreshold opts)"
    using run files by (auto simp: running_def)
  define g where "g = fold (gather fs) (drop (s - 1) H) nothing"
  have "reads s (cs @ [c]) (start_reader s) (drop (s - 1) H)" using reads_start [of s cs c] seg by simp
  then obtain r' where r': "readLoop no_faults sm (\<lambda>_. False) fs (start_reader s) nothing = Some (fs, Done (g, r'))"
    using readLoop_live [OF lv, of _ _ "\<lambda>_. False" nothing] list_all_drop [OF historyD(7) [OF h]]
    unfolding until_never g_def by blast
  define fs2 where "fs2 = fst (DeleteCheckpointFilesExcept no_faults (validCkptName g) fs)"
  have fs2: "fmlookup fs2 n = (if suffix ''.ckpt'' n \<and> n \<noteq> validCkptName g then None else fmlookup fs n)" for n
    unfolding fs2_def by (rule DeleteCheckpointFilesExcept_ok)
  have "live s cs c fs2 sm w"
    by (rule live_same [OF lv]) (auto simp: wals_same_def fs2 dest: suffixes_apart(1))
  from DeleteSegmentsBefore_live [OF this, of "validCkptLSN g"]
  obtain cs1 cs2 sm' where d: "cs = cs1 @ cs2" "cs1 = [] \<or> open_lsn s cs1 \<le> validCkptLSN g"
    "DeleteSegmentsBefore no_faults (validCkptLSN g) fs2 sm = Done (fmdrop_fset (fset_of_list (seg_names s cs1)) fs2, sm', [])"
    "live (open_lsn s cs1) cs2 c (fmdrop_fset (fset_of_list (seg_names s cs1)) fs2) sm' w"
    "ckptThreshold sm' = ckptThreshold sm" by metis
  define fs3 where "fs3 = fmdrop_fset (fset_of_list (seg_names s cs1)) fs2"
  define fs4 where "fs4 = fst (DeleteTmpFiles no_faults fs3)"
  have fs3: "suffix ''.ckpt'' n \<Longrightarrow> fmlookup fs3 n = fmlookup fs2 n" for n
    using seg_names_wal [of n s cs1] suffixes_apart(1) [of n] by (auto simp: fs3_def fset_of_list.rep_eq)
  have fs4: "fmlookup fs4 n = (if suffix ''.tmp'' n then None else fmlookup fs3 n)" for n
    unfolding fs4_def by (rule DeleteTmpFiles_ok)
  have ck: "suffix ''.ckpt'' n \<Longrightarrow> fmlookup fs4 n = (if n \<noteq> validCkptName g then None else fmlookup fs n)" for n
    using suffixes_apart(3) [of n] by (auto simp: fs4 fs3 fs2)
  let ?l = "l\<lparr>wal_files := Some (sm', w, r')\<rparr>"
  have "wal_ReadAll no_faults fs l = Some ((fs4, ?l), Done (records g))"
    using opts(1,2) r' d(3)
    by (simp add: wal_ReadAll_def files reader_ReadAll_def wal_DeleteSegmentsBefore_def fs2_def fs4_def fs3_def
        case_prod_unfold Let_def)
  moreover have "running_on H fs4 opts ?l"
    unfolding running_on_def
  proof (intro exI conjI)
    have "live (open_lsn s cs1) cs2 c fs4 sm' w"
      by (rule live_same [OF d(4)]) (auto simp: wals_same_def fs4 fs3_def [symmetric] dest: suffixes_apart(2))
    then show "running (open_lsn s cs1) cs2 c fs4 opts ?l" using opts d(5) by (simp add: running_def)
    show "history H (open_lsn s cs1) fs4"
      by (rule cleanup_seen [OF h]) (use d(2) ck in \<open>auto simp: ckpts_within_def open_lsn_def g_def\<close>)
    show "concat cs2 @ c = drop (open_lsn s cs1 - 1) H"
    proof -
      have "open_lsn s cs1 - 1 = length (concat cs1) + (s - 1)" using historyD(1) [OF h] by (simp add: open_lsn_def)
      then have "drop (open_lsn s cs1 - 1) H = drop (length (concat cs1)) (drop (s - 1) H)" by (simp add: add.commute)
      also have "\<dots> = concat cs2 @ c" unfolding seg [symmetric] d(1) by simp
      finally show ?thesis ..
    qed
  qed
  ultimately show ?thesis using that gather_records_meaning [OF h] unfolding g_def by blast
qed

section \<open>Reading for a checkpoint\<close>

lemma wal_ReadUpTo_ok:
  assumes run: "running s cs c fs opts l" and h: "history H s fs" and seg: "concat cs @ c = drop (s - 1) H"
    and b: "s \<le> b" "b \<le> length H" "seen fs (take (s - 1) H) (drop (s - 1) (take b H))"
  obtains recs where "wal_ReadUpTo no_faults b fs l = Some (fs, Done recs)"
    "log_ok recs log_init" "meaning recs log_init = meaning (take b H) log_init" "list_all storable recs"
    "\<forall>x \<in> set recs. 1 \<le> LSN x \<and> LSN x \<le> b"
proof -
  obtain sm w r where files: "wal_files l = Some (sm, w, r)" and lv: "live s cs c fs sm w" using run by (auto simp: running_def)
  note hD = historyD [OF h]
  let ?P = "take (s - 1) H" and ?Q = "drop (s - 1) (take b H)"
  have PQ: "?P @ ?Q = take b H" using b(1) by (metis append_take_drop_id le_diff_conv min.absorb1 take_take trans_le_add1)
  have un: "until (\<lambda>r. b \<le> LSN r) (drop (s - 1) H) = ?Q"
  proof -
    have "numbered s (drop (s - 1) H)" using numbered_drop [OF hD(3), of "s - 1"] hD(1,2) by simp
    then have "until (\<lambda>r. b \<le> LSN r) (drop (s - 1) H) = take (b + 1 - s) (drop (s - 1) H)"
      by (rule until_numbered) (use b hD(1) in simp_all)
    also have "\<dots> = ?Q" using b(1) hD(1) by (simp add: drop_take)
    finally show ?thesis .
  qed
  define g where "g = fold (gather fs) ?Q nothing"
  have "reads s (cs @ [c]) (start_reader s) (drop (s - 1) H)" using reads_start [of s cs c] seg by simp
  then obtain r' where r': "readLoop no_faults sm (\<lambda>r. b \<le> LSN r) fs (start_reader s) nothing = Some (fs, Done (g, r'))"
    using readLoop_live [OF lv, of _ _ "\<lambda>r. b \<le> LSN r" nothing] list_all_drop [OF hD(7)]
    unfolding un [symmetric] g_def by blast
  have "wal_ReadUpTo no_faults b fs l = Some (fs, Done (records g))"
    by (simp add: wal_ReadUpTo_def files OpenReader_live [OF lv] reader_ReadUpTo_def r')
  moreover have ok: "numbered 1 (?P @ ?Q)" "good fs (?P @ ?Q)" "log_ok (?P @ ?Q) log_init"
    unfolding PQ using hD(3-5) good_prefix [of fs "take b H" "drop b H"] append_take_drop_id [of b H]
    by (metis numbered_append log_ok_append)+
  note gm = gather_meaning [OF ok(1,2) b(3) ok(3), folded g_def]
  have "list_all storable (records g)"
    unfolding g_def
  proof (rule gather_storable)
    have "list_all storable (drop (s - 1) H)" using liveD(1) [OF lv] unfolding seg [symmetric] stored_def by blast
    then show "list_all storable ?Q" by (auto simp: list_all_iff drop_take dest: in_set_takeD)
    show "list_all (consistent fs) ?Q" using hD(7) by (auto simp: list_all_iff dest: in_set_takeD in_set_dropD)
  qed (simp add: nothing_def)
  ultimately show ?thesis using that [of "records g"] gm(1,2) gm(3) b(2) unfolding PQ by auto
qed

end
