(* ===== verification/Coordinator_Correct.thy ===== *)
theory Coordinator_Correct
  imports Wal_Correct Coordinator
begin

text \<open>
  The coordinator implements an abstract broker state, the catalog and the messages some
  subscriber has yet to acknowledge: every legal operation and every step of a checkpoint
  refines it, while files do not fail.
\<close>

section \<open>Invariant\<close>

definition coord_options :: "Config \<Rightarrow> Options" where
  "coord_options cfg = (let c = withDefaults cfg in
     \<lparr>optMaxSegSize = cfgMaxSegSize c, optMode = cfgMode c, optCheckpointThreshold = cfgCheckpointThreshold c\<rparr>)"

text \<open>A checkpoint has begun at record \<open>b\<close> and has not ended.\<close>

definition begun :: "Record list \<Rightarrow> nat \<Rightarrow> bool" where
  "begun H b \<longleftrightarrow> 0 < b \<and> b \<le> length H \<and> last_begin H = b \<and> (\<forall>r \<in> set (drop b H). Op r \<noteq> OpEndCheckpoint)"

text \<open>Records that may stand for the history up to \<open>b\<close>.\<close>

definition summary :: "Record list \<Rightarrow> nat \<Rightarrow> Record list \<Rightarrow> bool" where
  "summary H b xs \<longleftrightarrow> log_ok xs log_init \<and> meaning xs log_init = meaning (take b H) log_init \<and>
     list_all storable xs \<and> (\<forall>x \<in> set xs. 1 \<le> LSN x \<and> LSN x \<le> b)"

text \<open>The checkpoint that has just ended: it begins at \<open>b\<close>, and its file is there.\<close>

definition ended :: "fs \<Rightarrow> Record list \<Rightarrow> nat \<Rightarrow> string \<Rightarrow> bool" where
  "ended fs H b name \<longleftrightarrow> (\<exists>A r B. H = A @ r # B \<and> ckpt_of fs r \<noteq> None \<and> ckpt_name r = name \<and> last_begin A = b)"

definition ckpt_inv :: "string set \<Rightarrow> ckpt_pc option \<Rightarrow> Record list \<Rightarrow> nat \<Rightarrow> fs \<Rightarrow> bool" where
  "ckpt_inv U pc H s fs =
     (case pc of
        None \<Rightarrow> True
      | Some CkptBegin \<Rightarrow> True
      | Some (CkptRead b) \<Rightarrow> begun H b
      | Some (CkptWrite b xs) \<Rightarrow> begun H b \<and> summary H b xs
      | Some (CkptEnd b name ck) \<Rightarrow>
          begun H b \<and> name \<in> checkpointFileName ` U \<and> valid_utf8 name \<and>
          (\<exists>xs. summary H b xs \<and> fmlookup fs name = Some (encode_all xs) \<and> ck = hex8 (ChecksumIEEE (encode_all xs)))
      | Some (CkptDeleteSegments b name) \<Rightarrow> ended fs H b name \<and> s \<le> b
      | Some (CkptDeleteFiles name) \<Rightarrow> \<exists>b. ended fs H b name \<and> s \<le> b)"

text \<open>
  \<open>U\<close> are the checkpoint identifiers used so far. The invariant of the log and the checkpoint,
  and with the catalog that of the coordinator.
\<close>

definition log_inv :: "string set \<Rightarrow> Options \<Rightarrow> Record list \<Rightarrow> fs \<Rightarrow> Coordinator \<Rightarrow> bool" where
  "log_inv U opts H fs c \<longleftrightarrow>
     (checkpointing c \<longleftrightarrow> ckpt c \<noteq> None) \<and>
     (\<forall>r \<in> set H. Op r = OpEndCheckpoint \<longrightarrow> ckpt_name r \<in> insert [] (checkpointFileName ` U)) \<and>
     (\<exists>s cs d. running s cs d fs opts (clog c) \<and> history H s fs \<and> concat cs @ d = drop (s - 1) H \<and>
        ckpt_inv U (ckpt c) H s fs)"

definition coord_inv :: "string set \<Rightarrow> Options \<Rightarrow> Record list \<Rightarrow> fs \<Rightarrow> Coordinator \<Rightarrow> bool" where
  "coord_inv U opts H fs c \<longleftrightarrow> log_inv U opts H fs c \<and> cat c = fst (meaning H log_init)"

section \<open>Appending\<close>

text \<open>The record has room: in the numbering, in a segment, and for the reader.\<close>

definition fits :: "Options \<Rightarrow> nat \<Rightarrow> Record \<Rightarrow> bool" where
  "fits opts n r \<longleftrightarrow> n + 1 < 2 ^ 64 \<and> storable (r\<lparr>LSN := n\<rparr>) \<and> int (length (Encode (r\<lparr>LSN := n\<rparr>))) \<le> optMaxSegSize opts"

lemma running_next:
  assumes "running s cs d fs opts l" "history H s fs" "concat cs @ d = drop (s - 1) H" "wal_files l = Some (sm, w, r)"
  shows "nextLSN w = Suc (length H)"
proof -
  have "nextLSN w = s + length (concat cs @ d)"
    using assms(1,4) liveD(6) by (fastforce simp: running_def open_lsn_def)
  then show ?thesis using historyD(1,2) [OF assms(2)] unfolding assms(3) by simp
qed

lemma wal_Append_ok:
  fixes rec :: Record
  assumes run: "running s cs d fs opts l" and h: "history H s fs" and seg: "concat cs @ d = drop (s - 1) H"
    and ok: "fits opts (Suc (length H)) rec"
  obtains fs' l' cs' d' where "wal_Append no_faults rec fs l = Some ((fs', l'), Inr (rec\<lparr>LSN := Suc (length H)\<rparr>))"
    "running s cs' d' fs' opts l'" "concat cs' @ d' = drop (s - 1) (H @ [rec\<lparr>LSN := Suc (length H)\<rparr>])" "ckpts_same fs' fs"
proof -
  obtain sm w r where files: "wal_files l = Some (sm, w, r)" and lv: "live s cs d fs sm w"
    and opts: "wal_mode l = optMode opts" "optMode opts \<noteq> ModeOff" "maxSegSize w = optMaxSegSize opts"
      "ckptThreshold sm = threshold (optCheckpointThreshold opts)"
    using run by (auto simp: running_def)
  have n: "nextLSN w = Suc (length H)" by (rule running_next [OF run h seg files])
  have room: "nextLSN w + 1 < 2 ^ 64" "storable (rec\<lparr>LSN := nextLSN w\<rparr>)"
    "int (length (Encode (rec\<lparr>LSN := nextLSN w\<rparr>))) \<le> maxSegSize w"
    using ok unfolding fits_def n opts(3) by blast+
  obtain fs' sm' w' cs' d' where a: "writer_Append no_faults rec fs sm w = ((fs', sm', w'), Inr (rec\<lparr>LSN := nextLSN w\<rparr>))"
    "live s cs' d' fs' sm' w'" "concat cs' @ d' = (concat cs @ d) @ [rec\<lparr>LSN := nextLSN w\<rparr>]" "same_others fs fs'"
    "maxSegSize w' = maxSegSize w" "ckptThreshold sm' = ckptThreshold sm"
    by (rule writer_Append_live [OF lv room])
  show ?thesis
  proof (rule that)
    show "wal_Append no_faults rec fs l = Some ((fs', l\<lparr>wal_files := Some (sm', w', r)\<rparr>), Inr (rec\<lparr>LSN := Suc (length H)\<rparr>))"
      using a(1) opts(1,2) by (simp add: wal_Append_def files n)
    show "running s cs' d' fs' opts (l\<lparr>wal_files := Some (sm', w', r)\<rparr>)"
      using a(2,5,6) opts by (simp add: running_def)
    show "concat cs' @ d' = drop (s - 1) (H @ [rec\<lparr>LSN := Suc (length H)\<rparr>])"
      using a(3) historyD(1,2) [OF h] unfolding seg n by simp
    show "ckpts_same fs' fs" using a(4) suffixes_apart(1) by (auto simp: same_others_def ckpts_same_def)
  qed
qed

lemma begun_append: "begun H b \<Longrightarrow> Op r \<noteq> OpBeginCheckpoint \<Longrightarrow> Op r \<noteq> OpEndCheckpoint \<Longrightarrow> begun (H @ [r]) b"
  by (auto simp: begun_def)

lemma summary_append: "summary H b xs \<Longrightarrow> b \<le> length H \<Longrightarrow> summary (H @ [r]) b xs"
  by (simp add: summary_def)

lemma ended_append:
  assumes "ended fs H b name" "ckpts_same fs' fs" "list_all ckpt_named H"
  shows "ended fs' (H @ R) b name"
proof -
  obtain A r B where H: "H = A @ r # B" "ckpt_of fs r \<noteq> None" "ckpt_name r = name" "last_begin A = b"
    using assms(1) unfolding ended_def by blast
  then have "ckpt_of fs' r \<noteq> None" using ckpt_of_same [OF assms(2)] assms(3) by simp
  then show ?thesis unfolding ended_def using H by (intro exI [of _ A] exI [of _ r] exI [of _ "B @ R"]) simp
qed

lemma suffix_checkpointFileName [simp]: "suffix ''.ckpt'' (checkpointFileName u)"
  by (simp add: checkpointFileName_def suffix_def)

lemma ckpt_inv_append:
  assumes "ckpt_inv U pc H s fs" "ckpts_same fs' fs" "list_all ckpt_named H"
    "Op r \<noteq> OpBeginCheckpoint" "Op r \<noteq> OpEndCheckpoint"
  shows "ckpt_inv U pc (H @ [r]) s fs'"
proof (cases pc)
  case (Some p)
  show ?thesis
  proof (cases p)
    case (CkptEnd b name ck)
    then have "suffix ''.ckpt'' name" "b \<le> length H" using assms(1) Some by (auto simp: ckpt_inv_def begun_def)
    then show ?thesis using assms Some CkptEnd begun_append summary_append
      by (fastforce simp: ckpt_inv_def ckpts_same_def)
  next
    case (CkptWrite b xs)
    then have "b \<le> length H" using assms(1) Some by (auto simp: ckpt_inv_def begun_def)
    then show ?thesis using assms Some CkptWrite begun_append summary_append by (auto simp: ckpt_inv_def)
  next
    case (CkptDeleteFiles name)
    then obtain b where "ended fs H b name" "s \<le> b" using assms(1) Some by (auto simp: ckpt_inv_def)
    then have "ended fs' (H @ [r]) b name" "s \<le> b" using ended_append assms(2,3) by blast+
    then show ?thesis using Some CkptDeleteFiles by (auto simp: ckpt_inv_def)
  qed (use assms Some begun_append ended_append in \<open>auto simp: ckpt_inv_def\<close>)
qed (simp add: ckpt_inv_def)

lemma ShouldCheckpoint_running: "running s cs d fs opts l \<Longrightarrow> \<exists>x. wal_ShouldCheckpoint l = Some x"
  by (auto simp: running_def wal_ShouldCheckpoint_def)

lemma consistent_plain: "Op r \<noteq> OpEndCheckpoint \<Longrightarrow> consistent fs r \<and> ckpt_named r \<and> ckpt_of fs r = None"
  by (simp add: consistent_def ckpt_named_def ckpt_of_def)

lemma coord_append_ok:
  fixes rec :: Record
  assumes inv: "log_inv U opts H fs c" and op: "Op rec \<noteq> OpBeginCheckpoint" "Op rec \<noteq> OpEndCheckpoint"
  defines "r \<equiv> rec\<lparr>LSN := Suc (length H)\<rparr>"
  assumes ok: "fits opts (Suc (length H)) rec" "step_ok r (meaning H log_init)"
  obtains fs' c' where "coord_append no_faults rec fs c = Some ((fs', c'), Inr r)"
    "log_inv U opts (H @ [r]) fs' c'" "cat c' = cat c"
proof -
  obtain s cs d where run: "running s cs d fs opts (clog c)" and h: "history H s fs" and seg: "concat cs @ d = drop (s - 1) H"
    and ck: "ckpt_inv U (ckpt c) H s fs" using inv unfolding log_inv_def by blast
  obtain fs' l' cs' d' where a: "wal_Append no_faults rec fs (clog c) = Some ((fs', l'), Inr r)"
    "running s cs' d' fs' opts l'" "concat cs' @ d' = drop (s - 1) (H @ [r])" "ckpts_same fs' fs"
    using wal_Append_ok [OF run h seg ok(1)] unfolding r_def by metis
  obtain x where x: "wal_ShouldCheckpoint l' = Some x" using ShouldCheckpoint_running [OF a(2)] by blast
  have op': "Op r \<noteq> OpBeginCheckpoint" "Op r \<noteq> OpEndCheckpoint" using op by (simp_all add: r_def)
  have h': "history (H @ [r]) s fs'"
    using history_append [OF history_same [OF h a(4)], of r] ok(2) consistent_plain [OF op'(2)] by (simp add: r_def)
  have ck': "ckpt_inv U (ckpt c) (H @ [r]) s fs'"
    by (rule ckpt_inv_append [OF ck a(4) historyD(8) [OF h] op'])
  have names: "\<forall>y \<in> set (H @ [r]). Op y = OpEndCheckpoint \<longrightarrow> ckpt_name y \<in> insert [] (checkpointFileName ` U)"
    using inv op'(2) by (auto simp: log_inv_def)
  let ?c = "c\<lparr>clog := l'\<rparr>"
  define c' where "c' = (if \<not> x then ?c else if checkpointing ?c then ?c else ?c\<lparr>checkpointing := True, ckpt := Some CkptBegin\<rparr>)"
  have "coord_append no_faults rec fs c = Some ((fs', c'), Inr r)"
    using a(1) x by (simp add: coord_append_def appendLocked_def maybeCheckpoint_def c'_def)
  moreover have "log_inv U opts (H @ [r]) fs' c'"
  proof -
    have c': "clog c' = l'" "checkpointing c' \<longleftrightarrow> ckpt c' \<noteq> None" "ckpt c' = ckpt c \<or> ckpt c' = Some CkptBegin"
      using inv by (auto simp: c'_def log_inv_def)
    have "ckpt_inv U (Some CkptBegin) (H @ [r]) s fs'" by (simp add: ckpt_inv_def)
    then have "ckpt_inv U (ckpt c') (H @ [r]) s fs'" using c'(3) ck' by metis
    then show ?thesis unfolding log_inv_def c'(1) using c'(2) a(2,3) h' names by blast
  qed
  moreover have "cat c' = cat c" by (simp add: c'_def)
  ultimately show ?thesis using that by blast
qed

section \<open>Operations\<close>

text \<open>The operations of the coordinator and what they do to the abstract state.\<close>

datatype coord_op =
    CreateOp string | DeleteOp string | UpdateOp string SubPolicy | UnsubOp string string
  | EnqueueOp string string string | AckOp string string string

definition subs_of :: "string \<Rightarrow> catalog \<Rightarrow> policies" where
  "subs_of q c = (case fmlookup c q of None \<Rightarrow> fmempty | Some i \<Rightarrow> qiSubs i)"

definition spec :: "coord_op \<Rightarrow> log_state \<Rightarrow> log_state" where
  "spec op A = (let (c, p) = A in
     case op of
       CreateOp q \<Rightarrow> (fmupd q \<lparr>qiName = q, qiSubs = fmempty\<rparr> c, p)
     | DeleteOp q \<Rightarrow> (fmdrop q c, p(q := \<lambda>_. None))
     | UpdateOp q pol \<Rightarrow> (set_policies q (fmupd (SubName pol) pol) c, p)
     | UnsubOp q name \<Rightarrow> (set_policies q (fmdrop name) c, p)
     | EnqueueOp q m content \<Rightarrow>
         (c, put q m (keep \<lparr>Content = content, dSubList = subs_of q c, dAckedSubs = {||}\<rparr>) p)
     | AckOp q m sub \<Rightarrow> (c, put q m (Option.bind (p q m) (keep \<circ> ack_msg sub)) p))"

text \<open>
  The queue an operation needs, and the use its caller may make of it: a message identifier
  is new, an acknowledgement is for an outstanding message and a subscriber that still owes it,
  and all texts are valid UTF-8.
\<close>

definition needs :: "coord_op \<Rightarrow> string option" where
  "needs op = (case op of
     DeleteOp q \<Rightarrow> Some q | UpdateOp q _ \<Rightarrow> Some q | UnsubOp q _ \<Rightarrow> Some q | EnqueueOp q _ _ \<Rightarrow> Some q | _ \<Rightarrow> None)"

definition legal :: "coord_op \<Rightarrow> log_state \<Rightarrow> bool" where
  "legal op A = (let (c, p) = A in
     case op of
       UpdateOp q pol \<Rightarrow> policy_text pol
     | UnsubOp q name \<Rightarrow> valid_utf8 name
     | EnqueueOp q m content \<Rightarrow> valid_utf8 m \<and> valid_utf8 content \<and> (\<forall>q. p q m = None)
     | AckOp q m sub \<Rightarrow> valid_utf8 m \<and> valid_utf8 sub \<and> (\<exists>mi. p q m = Some mi \<and> sub |\<in>| unacked mi)
     | _ \<Rightarrow> True)"

definition record_of :: "coord_op \<Rightarrow> catalog \<Rightarrow> Record" where
  "record_of op c = (case op of
       CreateOp q \<Rightarrow> mk_record OpCreateQueue q []
     | DeleteOp q \<Rightarrow> mk_record OpDeleteQueue q []
     | UpdateOp q pol \<Rightarrow> mk_record OpUpdateSubPolicy q (EncodeSubPolicy pol)
     | UnsubOp q name \<Rightarrow> mk_record OpDeleteSubPolicy q (EncodeSubPolicy (zero_SubPolicy\<lparr>SubName := name\<rparr>))
     | EnqueueOp q m content \<Rightarrow>
         mk_record OpEnqueue q (EncodeEnqueue \<lparr>enqMsgId = m, MsgContent = content, SubList = subs_of q c\<rparr>)
     | AckOp q m sub \<Rightarrow> mk_record OpAck q (EncodeAck \<lparr>ackMsgId = m, ackSubName = sub\<rparr>))"

text \<open>Running an operation; what it returns on success is left out.\<close>

definition drop_value :: "'a coord_result \<Rightarrow> ((fs \<times> Coordinator) \<times> coord_error option) option" where
  "drop_value x = map_option (\<lambda>(st, out). (st, case out of Inl e \<Rightarrow> Some e | Inr _ \<Rightarrow> None)) x"

definition exec :: "faults \<Rightarrow> coord_op \<Rightarrow> fs \<Rightarrow> Coordinator \<Rightarrow> ((fs \<times> Coordinator) \<times> coord_error option) option" where
  "exec flt op fs c = (case op of
       CreateOp q \<Rightarrow> drop_value (coord_CreateQueue flt q fs c)
     | DeleteOp q \<Rightarrow> drop_value (coord_DeleteQueue flt q fs c)
     | UpdateOp q pol \<Rightarrow> drop_value (coord_UpdateSubPolicy flt q pol fs c)
     | UnsubOp q name \<Rightarrow> drop_value (coord_DeleteSubPolicy flt q name fs c)
     | EnqueueOp q m content \<Rightarrow> drop_value (coord_Enqueue flt q m content fs c)
     | AckOp q m sub \<Rightarrow> drop_value (coord_Ack flt q m sub fs c))"

text \<open>Policies in the catalog have been decoded from JSON, so they are text, under their own names.\<close>

definition catalog_text :: "catalog \<Rightarrow> bool" where
  "catalog_text c \<longleftrightarrow> (\<forall>q i. fmlookup c q = Some i \<longrightarrow> keyed (qiSubs i) \<and> policies_text (qiSubs i))"

lemma DecodeSubPolicy_text: "DecodeSubPolicy b = Some p \<Longrightarrow> policy_text p"
  unfolding DecodeSubPolicy_def by (rule Unmarshal_keeps [OF _ policy_text_zero keeps_SubPolicy])

lemma set_policies_text:
  assumes "catalog_text c" "\<And>m. keyed m \<Longrightarrow> policies_text m \<Longrightarrow> keyed (f m) \<and> policies_text (f m)"
  shows "catalog_text (set_policies q f c)"
  using assms by (simp add: catalog_text_def set_policies_def split: option.splits)

lemma meaning_step_text:
  assumes "catalog_text (fst A)"
  shows "catalog_text (fst (meaning_step r A))"
proof (cases A)
  case (Pair c p)
  then have c: "catalog_text c" using assms by simp
  have up: "catalog_text (set_policies q (fmupd (SubName x) x) c)" if "DecodeSubPolicy b = Some x" for q x b
    using DecodeSubPolicy_text [OF that] by (intro set_policies_text [OF c]) (auto intro: policies_text_upd simp: policy_text_def)
  have dr: "catalog_text (set_policies q (fmdrop n) c)" for q n
    by (intro set_policies_text [OF c]) (auto intro: policies_text_drop)
  have cr: "catalog_text (fmupd q \<lparr>qiName = q, qiSubs = fmempty\<rparr> c)" "catalog_text (fmdrop q c)" for q
    using c by (simp_all add: catalog_text_def)
  show ?thesis
    by (cases "Op r"; cases "DecodeSubPolicy (RPayload r)")
      (simp_all add: meaning_step_def Pair Let_def c up dr cr split: option.split)
qed

lemma meaning_text: "catalog_text (fst (meaning H log_init))"
proof (induction H rule: rev_induct)
  case Nil
  show ?case by (simp add: log_init_def catalog_text_def)
next
  case (snoc r H)
  then show ?case using meaning_step_text [of "meaning H log_init" r] by simp
qed

lemma record_meaning:
  fixes n :: nat
  assumes ok: "legal op (c, p)" "\<And>q. needs op = Some q \<Longrightarrow> q |\<in>| fmdom c" and ct: "catalog_text c"
  defines "r \<equiv> (record_of op c)\<lparr>LSN := n\<rparr>"
  shows "step_ok r (c, p) \<and> meaning_step r (c, p) = spec op (c, p)"
proof (cases op)
  case (UpdateOp q pol)
  then have "DecodeSubPolicy (EncodeSubPolicy pol) = Some pol"
    using ok(1) by (intro DecodeSubPolicy_Encode) (simp add: legal_def)
  then show ?thesis using UpdateOp ok(2)
    by (simp add: r_def record_of_def mk_record_def step_ok_def meaning_step_def spec_def needs_def)
next
  case (UnsubOp q name)
  then have "DecodeSubPolicy (EncodeSubPolicy (zero_SubPolicy\<lparr>SubName := name\<rparr>)) = Some (zero_SubPolicy\<lparr>SubName := name\<rparr>)"
    using ok(1) by (intro DecodeSubPolicy_Encode) (simp add: legal_def policy_text_def zero_SubPolicy_def int64_def)
  then show ?thesis using UnsubOp ok(2)
    by (simp add: r_def record_of_def mk_record_def step_ok_def meaning_step_def spec_def needs_def)
next
  case (EnqueueOp q m content)
  let ?e = "\<lparr>enqMsgId = m, MsgContent = content, SubList = subs_of q c\<rparr>"
  have subs: "keyed (subs_of q c)" "policies_text (subs_of q c)"
    using ct by (auto simp: subs_of_def catalog_text_def split: option.split)
  then have "DecodeEnqueue (EncodeEnqueue ?e) = Some ?e"
    using ok(1) EnqueueOp by (intro DecodeEnqueue_Encode) (simp add: enqueue_text_def legal_def)
  then show ?thesis using EnqueueOp ok subs(1)
    by (simp add: r_def record_of_def mk_record_def step_ok_def meaning_step_def spec_def needs_def legal_def)
next
  case (AckOp q m sub)
  then have "DecodeAck (EncodeAck \<lparr>ackMsgId = m, ackSubName = sub\<rparr>) = Some \<lparr>ackMsgId = m, ackSubName = sub\<rparr>"
    using ok(1) by (intro DecodeAck_Encode) (auto simp: legal_def)
  then show ?thesis using AckOp ok(1)
    by (auto simp: r_def record_of_def mk_record_def step_ok_def meaning_step_def spec_def legal_def)
qed (simp_all add: r_def record_of_def mk_record_def step_ok_def meaning_step_def spec_def)

lemma ProcessRecord_meaning:
  assumes "step_ok r (c, p)" "Op r \<in> {OpCreateQueue, OpDeleteQueue, OpUpdateSubPolicy, OpDeleteSubPolicy}"
  shows "ProcessRecord r c = Inr (fst (meaning_step r (c, p)))"
  using assms
  by (auto simp: step_ok_def meaning_step_def ProcessRecord_def createQueue_def NewQueueInfo_def removeQueue_def
      updateSubPolicy_def removeSubPolicy_def set_policies_def Let_def fmlookup_dom_iff)

lemma meaning_step_cat:
  "Op r \<in> {OpEnqueue, OpAck} \<Longrightarrow> fst (meaning_step r A) = fst A"
  by (cases A) (auto simp: meaning_step_def Let_def split: option.splits)

lemma drop_value_simps [simp]:
  "drop_value None = None" "drop_value (Some (st, Inl e)) = Some (st, Some e)"
  "drop_value (Some (st, Inr x)) = Some (st, None)"
  by (simp_all add: drop_value_def)

lemma exec_missing:
  "needs op = Some q \<Longrightarrow> q |\<notin>| fmdom (cat c) \<Longrightarrow> exec flt op fs c = Some ((fs, c), Some (QueueNotFound q))"
  by (cases op) (auto simp: needs_def exec_def coord_DeleteQueue_def coord_UpdateSubPolicy_def coord_DeleteSubPolicy_def
      coord_Enqueue_def QueueExists_iff)

text \<open>When the queue is there, an operation is an append, and for the catalog's records an update of the catalog.\<close>

definition exec_append :: "faults \<Rightarrow> coord_op \<Rightarrow> fs \<Rightarrow> Coordinator \<Rightarrow> ((fs \<times> Coordinator) \<times> coord_error option) option" where
  "exec_append flt op fs c =
     (case op of
        EnqueueOp _ _ _ \<Rightarrow> drop_value (coord_append flt (record_of op (cat c)) fs c)
      | AckOp _ _ _ \<Rightarrow> drop_value (coord_append flt (record_of op (cat c)) fs c)
      | _ \<Rightarrow> drop_value (log_catalog flt (record_of op (cat c)) fs c))"

lemma drop_value_map:
  "drop_value (Option.bind x (\<lambda>(st, out). Some (st, map_sum id f out))) = drop_value x"
proof (cases x)
  case (Some y)
  obtain st out where "y = (st, out)" by (cases y)
  then show ?thesis using Some by (cases out) (simp_all add: case_prod_unfold)
qed simp

lemma exec_present:
  assumes "\<And>q. needs op = Some q \<Longrightarrow> q |\<in>| fmdom (cat c)"
  shows "exec flt op fs c = exec_append flt op fs c"
  using assms
  by (cases op) (auto simp: needs_def exec_def exec_append_def record_of_def coord_CreateQueue_def coord_DeleteQueue_def
      coord_UpdateSubPolicy_def coord_DeleteSubPolicy_def coord_Enqueue_def coord_Ack_def QueueExists_iff
      FetchQueueSubList_def subs_of_def fmlookup_dom_iff drop_value_map [unfolded case_prod_unfold] case_prod_unfold)

lemma exec_refines:
  assumes inv: "coord_inv U opts H fs c" and ok: "legal op (meaning H log_init)" "\<And>q. needs op = Some q \<Longrightarrow> q |\<in>| fmdom (cat c)"
    and ft: "fits opts (Suc (length H)) (record_of op (cat c))"
  defines "r \<equiv> (record_of op (cat c))\<lparr>LSN := Suc (length H)\<rparr>"
  obtains fs' c' where "exec no_faults op fs c = Some ((fs', c'), None)" "coord_inv U opts (H @ [r]) fs' c'"
    "meaning (H @ [r]) log_init = spec op (meaning H log_init)"
proof -
  obtain p where m: "meaning H log_init = (cat c, p)" using inv by (cases "meaning H log_init") (auto simp: coord_inv_def)
  have rm: "step_ok r (cat c, p)" "meaning_step r (cat c, p) = spec op (cat c, p)"
    using record_meaning [of op "cat c" p "Suc (length H)"] ok meaning_text [of H] unfolding m r_def by auto
  have li: "log_inv U opts H fs c" using inv by (simp add: coord_inv_def)
  have op: "Op (record_of op (cat c)) \<noteq> OpBeginCheckpoint" "Op (record_of op (cat c)) \<noteq> OpEndCheckpoint"
    by (cases op; simp add: record_of_def mk_record_def)+
  obtain fs1 c1 where a: "coord_append no_faults (record_of op (cat c)) fs c = Some ((fs1, c1), Inr r)"
    "log_inv U opts (H @ [r]) fs1 c1" "cat c1 = cat c"
    using coord_append_ok [OF li op ft] rm(1) unfolding m r_def by metis
  have mn: "meaning (H @ [r]) log_init = spec op (meaning H log_init)" by (simp add: m rm(2))
  show ?thesis
  proof (cases "Op r \<in> {OpEnqueue, OpAck}")
    case True
    then have "exec no_faults op fs c = Some ((fs1, c1), None)"
      using exec_present [OF ok(2)] a(1) by (cases op) (auto simp: exec_append_def r_def record_of_def mk_record_def)
    moreover have "coord_inv U opts (H @ [r]) fs1 c1"
      using a(2,3) meaning_step_cat [OF True, of "(cat c, p)"] by (simp add: coord_inv_def m)
    ultimately show ?thesis using that mn by blast
  next
    case False
    then have "Op r \<in> {OpCreateQueue, OpDeleteQueue, OpUpdateSubPolicy, OpDeleteSubPolicy}"
      by (cases op) (auto simp: r_def record_of_def mk_record_def)
    note pr = ProcessRecord_meaning [OF rm(1) this]
    have "exec no_faults op fs c = Some ((fs1, c1\<lparr>cat := fst (meaning_step r (cat c, p))\<rparr>), None)"
      using exec_present [OF ok(2)] a(1,3) False pr
      by (cases op) (auto simp: exec_append_def r_def record_of_def mk_record_def log_catalog_def)
    moreover have "coord_inv U opts (H @ [r]) fs1 (c1\<lparr>cat := fst (meaning_step r (cat c, p))\<rparr>)"
      using a(2) by (simp add: coord_inv_def log_inv_def m)
    ultimately show ?thesis using that mn by blast
  qed
qed

section \<open>Checkpoints\<close>

lemma history_cong:
  assumes h: "history H s fs"
    and same: "\<And>r. r \<in> set H \<Longrightarrow> ckpt_of fs' r = ckpt_of fs r \<and> (consistent fs r \<longrightarrow> consistent fs' r)"
  shows "history H s fs'"
proof -
  note hD = historyD [OF h]
  have "good fs' H" unfolding good_def using hD(5) same goodD by (metis in_set_conv_decomp)
  moreover have "seen fs' (take (s - 1) H) (drop (s - 1) H)"
    by (rule seen_cong [OF _ hD(6)]) (use same in \<open>auto dest: in_set_dropD\<close>)
  moreover have "list_all (consistent fs') H" using hD(7) same by (auto simp: list_all_iff)
  ultimately show ?thesis using hD unfolding history_def by blast
qed

text \<open>A new file that no record announces changes nothing.\<close>

lemma history_fresh:
  assumes h: "history H s fs" and other: "\<And>n. suffix ''.ckpt'' n \<Longrightarrow> n \<noteq> name \<Longrightarrow> fmlookup fs' n = fmlookup fs n"
    and new: "\<And>r. r \<in> set H \<Longrightarrow> Op r = OpEndCheckpoint \<Longrightarrow> ckpt_name r \<noteq> name"
  shows "history H s fs'"
proof (rule history_cong [OF h])
  fix r assume r: "r \<in> set H"
  have nm: "ckpt_named r" using historyD(8) [OF h] r by (simp add: list_all_iff)
  show "ckpt_of fs' r = ckpt_of fs r \<and> (consistent fs r \<longrightarrow> consistent fs' r)"
  proof (cases "Op r = OpEndCheckpoint \<and> (\<exists>e. DecodeEndCheckpoint (RPayload r) = Some e)")
    case True
    then obtain e where e: "Op r = OpEndCheckpoint" "DecodeEndCheckpoint (RPayload r) = Some e" by blast
    then have "fmlookup fs' (FileName e) = fmlookup fs (FileName e)"
      using other nm new [OF r] by (simp add: ckpt_named_def ckpt_name_def)
    then show ?thesis using e by (simp add: ckpt_of_def consistent_def)
  qed (auto simp: ckpt_of_def consistent_def split: option.splits)
qed

lemma begun_seen:
  assumes b: "begun H b" and h: "history H s fs"
  shows "s \<le> b \<and> seen fs (take (s - 1) H) (drop (s - 1) (take b H))"
proof (cases "take (s - 1) H = []")
  case True
  then have "length (take (s - 1) H) = 0" by (simp only: list.size)
  moreover have "length (take (s - 1) H) = s - 1" using historyD(2) [OF h] by simp
  ultimately have "s = 1" using historyD(1) [OF h] by linarith
  then show ?thesis using b by (simp add: begun_def seen_def)
next
  case False
  let ?P = "take (s - 1) H"
  have lP: "length ?P = s - 1" using historyD(2) [OF h] by simp
  obtain A r B where r: "drop (s - 1) H = A @ r # B" "ckpt_of fs r \<noteq> None" "length ?P < last_begin (?P @ A)"
    using historyD(6) [OF h] False unfolding seen_def by blast
  have H: "H = (?P @ A) @ r # B" using r(1) by (metis append.assoc append_take_drop_id)
  have "Op r = OpEndCheckpoint" using r(2) by (simp add: ckpt_of_def split: if_splits)
  have lt: "length (?P @ A) < b"
  proof (rule ccontr)
    assume "\<not> length (?P @ A) < b"
    then have "r \<in> set (drop b H)" by (subst H) simp
    then show False using b \<open>Op r = OpEndCheckpoint\<close> by (simp add: begun_def)
  qed
  have "last_begin (?P @ A) \<le> last_begin H"
    using last_begin_mono [of "?P @ A" "r # B"] historyD(3) [OF h] H by metis
  then have sb: "s \<le> b" using r(3) lP b by (simp add: begun_def)
  have len: "length A + (s - 1) < b" using lt lP by simp
  then have "drop (s - 1) (take b H) = A @ r # take (b - (s - 1) - Suc (length A)) B"
    unfolding drop_take r(1) using take_Cons' [of "b - (s - 1) - length A" r B] by simp
  then show ?thesis using sb r(2,3) unfolding seen_def by blast
qed

lemma log_inv_mono:
  assumes "log_inv U opts H fs c" "U \<subseteq> U'"
  shows "log_inv U' opts H fs c"
proof -
  have "ckpt_inv U' pc H s fs" if "ckpt_inv U pc H s fs" for pc s
    using that assms(2) by (auto simp: ckpt_inv_def split: option.splits ckpt_pc.splits)
  then show ?thesis using assms unfolding log_inv_def by blast
qed

lemma inj_checkpointFileName: "checkpointFileName u = checkpointFileName v \<longleftrightarrow> u = v"
  by (simp add: checkpointFileName_def)

text \<open>The file \<open>WriteCheckpointFile\<close> leaves when nothing fails.\<close>

lemma WriteCheckpointFile_ok:
  obtains fs' where "WriteCheckpointFile no_faults u xs fs =
      (fs', Inr (checkpointFileName u, hex8 (ChecksumIEEE (encode_all xs))))"
    "fmlookup fs' (checkpointFileName u) = Some (encode_all xs)"
    "\<And>n. n \<noteq> checkpointFileName u \<Longrightarrow> \<not> suffix ''.tmp'' n \<Longrightarrow> fmlookup fs' n = fmlookup fs n"
proof -
  let ?n = "checkpointFileName u"
  let ?fs = "fmupd ?n (encode_all xs) (fmdrop (?n @ ''.tmp'') (fmupd (?n @ ''.tmp'') (encode_all xs) fs))"
  have "WriteCheckpointFile no_faults u xs fs = (?fs, Inr (?n, hex8 (ChecksumIEEE (encode_all xs))))"
    by (simp add: WriteCheckpointFile_def Let_def checksumFile_def open_file_def encode_all_def)
  then show ?thesis by (rule that) (auto simp: suffix_def)
qed

lemma valid_utf8_plain: "\<forall>c \<in> set s. code c < 128 \<Longrightarrow> valid_utf8 s"
  by (induction s) (simp_all add: valid_ascii valid_utf8.simps(1))

lemma valid_hex8: "valid_utf8 (hex8 w)"
proof (rule valid_utf8_plain)
  have d: "code (hex_digit n) < 128" if "n < 16" for n using that by (simp add: hex_digit_def)
  show "\<forall>c \<in> set (hex8 w). code c < 128" by (auto simp: hex8_def intro!: d)
qed

text \<open>Appending without looking whether a checkpoint is due.\<close>

lemma appendLocked_ok:
  fixes rec :: Record
  assumes run: "running s cs d fs opts (clog c)" and h: "history H s fs" and seg: "concat cs @ d = drop (s - 1) H"
    and ft: "fits opts (Suc (length H)) rec"
  obtains fs' l' cs' d' where
    "appendLocked no_faults rec fs c = Some ((fs', c\<lparr>clog := l'\<rparr>), Inr (rec\<lparr>LSN := Suc (length H)\<rparr>))"
    "running s cs' d' fs' opts l'" "concat cs' @ d' = drop (s - 1) (H @ [rec\<lparr>LSN := Suc (length H)\<rparr>])" "ckpts_same fs' fs"
proof -
  obtain fs' l' cs' d' where "wal_Append no_faults rec fs (clog c) = Some ((fs', l'), Inr (rec\<lparr>LSN := Suc (length H)\<rparr>))"
    "running s cs' d' fs' opts l'" "concat cs' @ d' = drop (s - 1) (H @ [rec\<lparr>LSN := Suc (length H)\<rparr>])" "ckpts_same fs' fs"
    by (rule wal_Append_ok [OF run h seg ft])
  then show ?thesis using that by (simp add: appendLocked_def)
qed

definition ckpt_record :: "ckpt_pc \<Rightarrow> Record option" where
  "ckpt_record pc = (case pc of
       CkptBegin \<Rightarrow> Some (mk_record OpBeginCheckpoint [] [])
     | CkptEnd b name ck \<Rightarrow> Some (mk_record OpEndCheckpoint [] (EncodeEndCheckpoint \<lparr>FileName = name, FileChecksum = ck\<rparr>))
     | _ \<Rightarrow> None)"

lemma log_inv_stop: "log_inv U opts H fs c \<Longrightarrow> log_inv U opts H fs (ckpt_stop c)"
  unfolding log_inv_def by (auto simp: ckpt_stop_def ckpt_inv_def)

lemma log_invI:
  assumes "running s cs d fs opts (clog c)" "history H s fs" "concat cs @ d = drop (s - 1) H" "ckpt_inv U (ckpt c) H s fs"
    "checkpointing c \<longleftrightarrow> ckpt c \<noteq> None"
    "\<And>r. r \<in> set H \<Longrightarrow> Op r = OpEndCheckpoint \<Longrightarrow> ckpt_name r \<in> insert [] (checkpointFileName ` U)"
  shows "log_inv U opts H fs c"
  using assms unfolding log_inv_def by blast

lemma checkpoint_begin:
  assumes inv: "log_inv U opts H fs c" and pc: "ckpt c = Some CkptBegin"
    and ft: "fits opts (Suc (length H)) (mk_record OpBeginCheckpoint [] [])"
  obtains fs' c' r where "runCheckpoint no_faults ord uid fs c = Some (fs', c')" "log_inv U opts (H @ [r]) fs' c'"
    "cat c' = cat c" "Op r = OpBeginCheckpoint"
proof -
  obtain s cs d where run: "running s cs d fs opts (clog c)" and h: "history H s fs" and seg: "concat cs @ d = drop (s - 1) H"
    and fl: "checkpointing c" and nm: "\<forall>r \<in> set H. Op r = OpEndCheckpoint \<longrightarrow> ckpt_name r \<in> insert [] (checkpointFileName ` U)"
    using inv pc unfolding log_inv_def by blast
  define r where "r = (mk_record OpBeginCheckpoint [] [])\<lparr>LSN := Suc (length H)\<rparr>"
  obtain fs' l' cs' d' where a: "appendLocked no_faults (mk_record OpBeginCheckpoint [] []) fs c = Some ((fs', c\<lparr>clog := l'\<rparr>), Inr r)"
    "running s cs' d' fs' opts l'" "concat cs' @ d' = drop (s - 1) (H @ [r])" "ckpts_same fs' fs"
    unfolding r_def by (rule appendLocked_ok [OF run h seg ft])
  have r: "Op r = OpBeginCheckpoint" "LSN r = Suc (length H)" by (simp_all add: r_def mk_record_def)
  have h': "history (H @ [r]) s fs'"
    by (rule history_append [OF history_same [OF h a(4)] r(2)])
      (use consistent_plain [of r] r in \<open>simp_all add: step_ok_def case_prod_unfold\<close>)
  let ?c = "ckpt_goto (CkptRead (LSN r)) (c\<lparr>clog := l'\<rparr>)"
  have "log_inv U opts (H @ [r]) fs' ?c"
    by (rule log_invI [of s cs' d']) (use a(2,3) h' r fl nm in \<open>auto simp: ckpt_goto_def ckpt_inv_def begun_def\<close>)
  moreover have "runCheckpoint no_faults ord uid fs c = Some (fs', ?c)"
    using a(1) by (simp add: runCheckpoint_def pc)
  ultimately show ?thesis using that r(1) by (simp add: ckpt_goto_def)
qed

lemma CompactRecords_subset:
  "(\<And>t. visits_all (ord t)) \<Longrightarrow> set (CompactRecords ord recs) \<subseteq> set recs"
  using fold_compact_records [of recs newCompactionState]
  by (simp add: CompactRecords_def set_compacted comp_records_def newCompactionState_def)

lemma checkpoint_read:
  assumes inv: "log_inv U opts H fs c" and pc: "ckpt c = Some (CkptRead b)" and ord: "\<And>t. visits_all (ord t)"
  obtains c' where "runCheckpoint no_faults ord uid fs c = Some (fs, c')" "log_inv U opts H fs c'" "cat c' = cat c"
proof -
  obtain s cs d where run: "running s cs d fs opts (clog c)" and h: "history H s fs" and seg: "concat cs @ d = drop (s - 1) H"
    and b: "begun H b" and fl: "checkpointing c"
    and nm: "\<forall>r \<in> set H. Op r = OpEndCheckpoint \<longrightarrow> ckpt_name r \<in> insert [] (checkpointFileName ` U)"
    using inv pc unfolding log_inv_def by (auto simp: ckpt_inv_def)
  have sb: "s \<le> b" "b \<le> length H" "seen fs (take (s - 1) H) (drop (s - 1) (take b H))"
    using begun_seen [OF b h] b by (auto simp: begun_def)
  obtain recs where recs: "wal_ReadUpTo no_faults b fs (clog c) = Some (fs, Done recs)"
    "log_ok recs log_init" "meaning recs log_init = meaning (take b H) log_init" "list_all storable recs"
    "\<forall>x \<in> set recs. 1 \<le> LSN x \<and> LSN x \<le> b"
    by (rule wal_ReadUpTo_ok [OF run h seg sb])
  have "log_ok (CompactRecords ord recs) log_init" "meaning (CompactRecords ord recs) log_init = meaning recs log_init"
    "set (CompactRecords ord recs) \<subseteq> set recs"
    by (intro CompactRecords_meaning CompactRecords_subset recs(2) ord)+
  then have "summary H b (CompactRecords ord recs)"
    unfolding summary_def list_all_iff using recs(3-5) by (auto simp: list_all_iff)
  then have "log_inv U opts H fs (ckpt_goto (CkptWrite b (CompactRecords ord recs)) c)"
    by (intro log_invI [of s cs d]) (use run h seg b fl nm in \<open>auto simp: ckpt_goto_def ckpt_inv_def\<close>)
  moreover have "runCheckpoint no_faults ord uid fs c = Some (fs, ckpt_goto (CkptWrite b (CompactRecords ord recs)) c)"
    using recs(1) by (simp add: runCheckpoint_def pc)
  ultimately show ?thesis using that by (simp add: ckpt_goto_def)
qed

lemma running_same: "running s cs d fs opts l \<Longrightarrow> wals_same fs' fs \<Longrightarrow> running s cs d fs' opts l"
  unfolding running_def using live_same by blast

lemma checkpoint_write:
  assumes inv: "log_inv U opts H fs c" and pc: "ckpt c = Some (CkptWrite b xs)"
    and u: "u \<notin> U" "valid_utf8 (checkpointFileName u)"
  obtains fs' c' where "runCheckpoint no_faults ord (Some u) fs c = Some (fs', c')" "log_inv (insert u U) opts H fs' c'"
    "cat c' = cat c"
proof -
  obtain s cs d where run: "running s cs d fs opts (clog c)" and h: "history H s fs" and seg: "concat cs @ d = drop (s - 1) H"
    and b: "begun H b" "summary H b xs" and fl: "checkpointing c"
    and nm: "\<forall>r \<in> set H. Op r = OpEndCheckpoint \<longrightarrow> ckpt_name r \<in> insert [] (checkpointFileName ` U)"
    using inv pc unfolding log_inv_def by (auto simp: ckpt_inv_def)
  obtain fs' where w: "WriteCheckpointFile no_faults u xs fs =
      (fs', Inr (checkpointFileName u, hex8 (ChecksumIEEE (encode_all xs))))"
    "fmlookup fs' (checkpointFileName u) = Some (encode_all xs)"
    "\<And>n. n \<noteq> checkpointFileName u \<Longrightarrow> \<not> suffix ''.tmp'' n \<Longrightarrow> fmlookup fs' n = fmlookup fs n"
    using WriteCheckpointFile_ok [of u xs fs] by metis
  have h': "history H s fs'"
  proof (rule history_fresh [OF h])
    show "fmlookup fs' n = fmlookup fs n" if "suffix ''.ckpt'' n" "n \<noteq> checkpointFileName u" for n
      using w(3) that suffixes_apart(3) by blast
    show "ckpt_name r \<noteq> checkpointFileName u" if "r \<in> set H" "Op r = OpEndCheckpoint" for r
    proof
      assume "ckpt_name r = checkpointFileName u"
      then have "checkpointFileName u \<in> insert [] (checkpointFileName ` U)" using nm that by metis
      moreover have "checkpointFileName u \<noteq> []" by (simp add: checkpointFileName_def)
      ultimately obtain v where "v \<in> U" "checkpointFileName u = checkpointFileName v" by auto
      then show False using u(1) by (simp add: inj_checkpointFileName)
    qed
  qed
  have "wals_same fs' fs"
    unfolding wals_same_def
  proof (intro allI impI)
    fix n assume n: "suffix ''.wal'' n"
    then have "n \<noteq> checkpointFileName u" "\<not> suffix ''.tmp'' n"
      using suffixes_apart(1) [OF suffix_checkpointFileName, of u] suffixes_apart(2) [of n] by auto
    then show "fmlookup fs' n = fmlookup fs n" by (rule w(3))
  qed
  then have run': "running s cs d fs' opts (clog c)" by (rule running_same [OF run])
  let ?c = "ckpt_goto (CkptEnd b (checkpointFileName u) (hex8 (ChecksumIEEE (encode_all xs)))) c"
  have "log_inv (insert u U) opts H fs' ?c"
  proof (rule log_invI [of s cs d])
    show "ckpt_inv (insert u U) (ckpt ?c) H s fs'" using b u(2) w(2) by (auto simp: ckpt_goto_def ckpt_inv_def)
    show "ckpt_name r \<in> insert [] (checkpointFileName ` insert u U)" if "r \<in> set H" "Op r = OpEndCheckpoint" for r
      using nm that by blast
  qed (use run' h' seg fl in \<open>simp_all add: ckpt_goto_def\<close>)
  moreover have "runCheckpoint no_faults ord (Some u) fs c = Some (fs', ?c)"
    using w(1) by (simp add: runCheckpoint_def pc)
  ultimately show ?thesis using that by (simp add: ckpt_goto_def)
qed

lemma checkpoint_end:
  assumes inv: "log_inv U opts H fs c" and pc: "ckpt c = Some (CkptEnd b name ck)"
    and ft: "fits opts (Suc (length H)) (mk_record OpEndCheckpoint [] (EncodeEndCheckpoint \<lparr>FileName = name, FileChecksum = ck\<rparr>))"
  obtains fs' c' r where "runCheckpoint no_faults ord uid fs c = Some (fs', c')" "log_inv U opts (H @ [r]) fs' c'"
    "cat c' = cat c" "Op r = OpEndCheckpoint"
proof -
  let ?rec = "mk_record OpEndCheckpoint [] (EncodeEndCheckpoint \<lparr>FileName = name, FileChecksum = ck\<rparr>)"
  obtain s cs d where run: "running s cs d fs opts (clog c)" and h: "history H s fs" and seg: "concat cs @ d = drop (s - 1) H"
    and fl: "checkpointing c" and nm: "\<forall>r \<in> set H. Op r = OpEndCheckpoint \<longrightarrow> ckpt_name r \<in> insert [] (checkpointFileName ` U)"
    and ci: "ckpt_inv U (Some (CkptEnd b name ck)) H s fs"
    using inv pc unfolding log_inv_def by auto
  then obtain xs where b: "begun H b" "name \<in> checkpointFileName ` U" "valid_utf8 name" "summary H b xs"
    "fmlookup fs name = Some (encode_all xs)" "ck = hex8 (ChecksumIEEE (encode_all xs))"
    by (auto simp: ckpt_inv_def)
  have sb: "s \<le> b" using begun_seen [OF b(1) h] by blast
  define r where "r = ?rec\<lparr>LSN := Suc (length H)\<rparr>"
  obtain fs' l' cs' d' where a: "appendLocked no_faults ?rec fs c = Some ((fs', c\<lparr>clog := l'\<rparr>), Inr r)"
    "running s cs' d' fs' opts l'" "concat cs' @ d' = drop (s - 1) (H @ [r])" "ckpts_same fs' fs"
    unfolding r_def by (rule appendLocked_ok [OF run h seg ft])
  have dec: "DecodeEndCheckpoint (RPayload r) = Some \<lparr>FileName = name, FileChecksum = ck\<rparr>"
    using DecodeEndCheckpoint_Encode [of "\<lparr>FileName = name, FileChecksum = ck\<rparr>"] b(3,6) valid_hex8
    by (simp add: r_def mk_record_def)
  have sfx: "suffix ''.ckpt'' name" using b(2) by auto
  have f: "fmlookup fs' name = Some (encode_all xs)" using a(4) sfx b(5) by (simp add: ckpts_same_def)
  have st: "list_all storable xs" using b(4) by (simp add: summary_def)
  have r: "Op r = OpEndCheckpoint" "LSN r = Suc (length H)" "ckpt_name r = name" "ckpt_of fs' r = Some xs"
    using dec f st by (simp_all add: r_def mk_record_def ckpt_name_def ckpt_of_def scan_encoded)
  have "ckpt_right H xs" using b(1,4) by (simp add: ckpt_right_def begun_def summary_def)
  then have h': "history (H @ [r]) s fs'"
    by (intro history_append [OF history_same [OF h a(4)] r(2)])
      (use r dec f st b(6) sfx in \<open>auto simp: step_ok_def case_prod_unfold consistent_def ckpt_named_def\<close>)
  have "ended fs' (H @ [r]) b name" using r(3,4) b(1) unfolding ended_def begun_def by blast
  then have ci': "ckpt_inv U (Some (CkptDeleteSegments b name)) (H @ [r]) s fs'" using sb by (simp add: ckpt_inv_def)
  let ?c = "ckpt_goto (CkptDeleteSegments b name) (c\<lparr>clog := l'\<rparr>)"
  have "log_inv U opts (H @ [r]) fs' ?c"
    by (rule log_invI [of s cs' d']) (use a(2,3) h' ci' r(3) b(2) fl nm in \<open>auto simp: ckpt_goto_def\<close>)
  moreover have "runCheckpoint no_faults ord uid fs c = Some (fs', ?c)"
    using a(1) by (simp add: runCheckpoint_def pc)
  ultimately show ?thesis using that r(1) by (simp add: ckpt_goto_def)
qed

lemma ended_cut:
  assumes "ended fs' H b name" "numbered 1 H" "n < b"
  shows "seen fs' (take n H) (drop n H)"
proof -
  obtain A r B where r: "H = A @ r # B" "ckpt_of fs' r \<noteq> None" "last_begin A = b"
    using assms(1) unfolding ended_def by blast
  show ?thesis by (rule seen_cut [OF r(1,2) _ assms(2)]) (simp add: r(3) assms(3))
qed

lemma ended_within:
  assumes "ended fs H b name" "\<And>n. suffix ''.ckpt'' n \<Longrightarrow> n = name \<Longrightarrow> fmlookup fs' n = fmlookup fs n" "list_all ckpt_named H"
  shows "ended fs' H b name"
proof -
  obtain A r B where r: "H = A @ r # B" "ckpt_of fs r \<noteq> None" "ckpt_name r = name" "last_begin A = b"
    using assms(1) unfolding ended_def by blast
  obtain e where e: "Op r = OpEndCheckpoint" "DecodeEndCheckpoint (RPayload r) = Some e" "FileName e = name"
    using r(2,3) by (auto simp: ckpt_of_def ckpt_name_def split: if_splits option.splits)
  have "suffix ''.ckpt'' (FileName e)" using assms(3) r(1) e(1,2) by (simp add: ckpt_named_def)
  then have "fmlookup fs' name = fmlookup fs name" using assms(2) e(3) by simp
  then have "ckpt_of fs' r \<noteq> None" using r(2) e by (simp add: ckpt_of_def)
  then show ?thesis unfolding ended_def using r by blast
qed

text \<open>Once a checkpoint has ended, segments before its BEGIN and other checkpoint files may go.\<close>

lemma cut_history:
  assumes h: "history H s fs" and seg: "concat (cs1 @ cs2) @ d = drop (s - 1) H"
    and en: "ended fs H b name" "s \<le> b" and cut: "cs1 = [] \<or> open_lsn s cs1 \<le> b"
  defines "s' \<equiv> open_lsn s cs1" and "fs' \<equiv> fmdrop_fset (fset_of_list (seg_names s cs1)) fs"
  shows "history H s' fs'" "ended fs' H b name" "s' \<le> b" "concat cs2 @ d = drop (s' - 1) H"
proof -
  have same: "ckpts_same fs' fs"
    unfolding ckpts_same_def fs'_def
    using seg_names_wal suffixes_apart(1) by (metis fmlookup_drop_fset fset_of_list.rep_eq)
  show s': "s' \<le> b" using cut en(2) by (auto simp: s'_def open_lsn_def)
  have ss': "s \<le> s'" by (simp add: s'_def open_lsn_def)
  show en': "ended fs' H b name" using ended_append [OF en(1) same historyD(8) [OF h], of "[]"] by simp
  have sn: "seen fs' (take (s' - 1) H) (drop (s' - 1) H)"
    using ended_cut [OF en' historyD(3) [OF h], of "s' - 1"] s' ss' historyD(1) [OF h] by simp
  have "b \<le> length H" using en(1) historyD(3) [OF h] last_begin_bound unfolding ended_def by fastforce
  then show "history H s' fs'"
    using s' ss' historyD(1) [OF h] same
    by (intro history_within [OF h _ _ _ sn]) (simp_all add: ckpts_within_def ckpts_same_def)
  have "s' - 1 = length (concat cs1) + (s - 1)" using historyD(1) [OF h] by (simp add: open_lsn_def s'_def)
  then have "drop (s' - 1) H = drop (length (concat cs1)) (drop (s - 1) H)" by (simp add: add.commute)
  also have "\<dots> = concat cs2 @ d" unfolding seg [symmetric] by simp
  finally show "concat cs2 @ d = drop (s' - 1) H" ..
qed

lemma kept_history:
  assumes h: "history H s fs" and en: "ended fs H b name" "s \<le> b"
    and w: "ckpts_within fs' fs" and kept: "fmlookup fs' name = fmlookup fs name"
  shows "history H s fs'"
proof -
  have en': "ended fs' H b name" by (rule ended_within [OF en(1) _ historyD(8) [OF h]]) (simp add: kept)
  have sn: "seen fs' (take (s - 1) H) (drop (s - 1) H)"
    using ended_cut [OF en' historyD(3) [OF h], of "s - 1"] en(2) historyD(1) [OF h] by simp
  then show ?thesis using historyD(1,2) [OF h] by (intro history_within [OF h w _ _ sn]) auto
qed

lemma checkpoint_delete_segments:
  assumes inv: "log_inv U opts H fs c" and pc: "ckpt c = Some (CkptDeleteSegments b name)"
  obtains fs' c' where "runCheckpoint no_faults ord uid fs c = Some (fs', c')" "log_inv U opts H fs' c'" "cat c' = cat c"
proof -
  obtain s cs d where run: "running s cs d fs opts (clog c)" and h: "history H s fs" and seg: "concat cs @ d = drop (s - 1) H"
    and fl: "checkpointing c" and nm: "\<forall>r \<in> set H. Op r = OpEndCheckpoint \<longrightarrow> ckpt_name r \<in> insert [] (checkpointFileName ` U)"
    and en: "ended fs H b name" "s \<le> b"
    using inv pc unfolding log_inv_def by (auto simp: ckpt_inv_def)
  obtain sm w r where files: "wal_files (clog c) = Some (sm, w, r)" and lv: "live s cs d fs sm w"
    and opts: "wal_mode (clog c) = optMode opts" "optMode opts \<noteq> ModeOff" "maxSegSize w = optMaxSegSize opts"
      "ckptThreshold sm = threshold (optCheckpointThreshold opts)"
    using run by (auto simp: running_def)
  obtain cs1 cs2 sm' where del: "cs = cs1 @ cs2" "cs1 = [] \<or> open_lsn s cs1 \<le> b"
    "DeleteSegmentsBefore no_faults b fs sm = Done (fmdrop_fset (fset_of_list (seg_names s cs1)) fs, sm', [])"
    "live (open_lsn s cs1) cs2 d (fmdrop_fset (fset_of_list (seg_names s cs1)) fs) sm' w"
    "ckptThreshold sm' = ckptThreshold sm"
    by (rule DeleteSegmentsBefore_live [OF lv])
  note cut = cut_history [OF h seg [unfolded del(1)] en del(2)]
  let ?fs = "fmdrop_fset (fset_of_list (seg_names s cs1)) fs"
  let ?c = "ckpt_goto (CkptDeleteFiles name) (c\<lparr>clog := (clog c)\<lparr>wal_files := Some (sm', w, r)\<rparr>\<rparr>)"
  have "log_inv U opts H ?fs ?c"
  proof (rule log_invI [of "open_lsn s cs1" cs2 d])
    show "running (open_lsn s cs1) cs2 d ?fs opts (clog ?c)"
      using del(4,5) opts by (simp add: running_def ckpt_goto_def)
    show "ckpt_inv U (ckpt ?c) H (open_lsn s cs1) ?fs" using cut(2,3) by (auto simp: ckpt_goto_def ckpt_inv_def)
  qed (use cut fl nm in \<open>auto simp: ckpt_goto_def\<close>)
  moreover have "runCheckpoint no_faults ord uid fs c = Some (?fs, ?c)"
    using del(3) by (simp add: runCheckpoint_def pc wal_DeleteSegmentsBefore_def files)
  ultimately show ?thesis using that by (simp add: ckpt_goto_def)
qed

lemma checkpoint_delete_files:
  assumes inv: "log_inv U opts H fs c" and pc: "ckpt c = Some (CkptDeleteFiles name)"
  obtains fs' c' where "runCheckpoint no_faults ord uid fs c = Some (fs', c')" "log_inv U opts H fs' c'" "cat c' = cat c"
proof -
  obtain s cs d b where run: "running s cs d fs opts (clog c)" and h: "history H s fs" and seg: "concat cs @ d = drop (s - 1) H"
    and nm: "\<forall>r \<in> set H. Op r = OpEndCheckpoint \<longrightarrow> ckpt_name r \<in> insert [] (checkpointFileName ` U)"
    and en: "ended fs H b name" "s \<le> b"
    using inv pc unfolding log_inv_def by (auto simp: ckpt_inv_def)
  define fs' where "fs' = fst (DeleteCheckpointFilesExcept no_faults name fs)"
  have fs': "fmlookup fs' n = (if suffix ''.ckpt'' n \<and> n \<noteq> name then None else fmlookup fs n)" for n
    unfolding fs'_def by (rule DeleteCheckpointFilesExcept_ok)
  have h': "history H s fs'" by (rule kept_history [OF h en]) (auto simp: ckpts_within_def fs')
  have run': "running s cs d fs' opts (clog c)"
    by (rule running_same [OF run]) (auto simp: wals_same_def fs' dest: suffixes_apart(1))
  have "log_inv U opts H fs' (ckpt_stop c)"
    by (rule log_invI [of s cs d]) (use run' h' seg nm in \<open>auto simp: ckpt_stop_def ckpt_inv_def\<close>)
  moreover have "runCheckpoint no_faults ord uid fs c = Some (fs', ckpt_stop c)"
    by (simp add: runCheckpoint_def pc fs'_def)
  ultimately show ?thesis using that by (simp add: ckpt_stop_def)
qed

text \<open>No step of a checkpoint changes the abstract state.\<close>

lemma runCheckpoint_refines:
  assumes inv: "coord_inv U opts H fs c" and ord: "\<And>t. visits_all (ord t)"
    and u: "\<And>u. uid = Some u \<Longrightarrow> u \<notin> U \<and> valid_utf8 (checkpointFileName u)"
    and ft: "\<And>pc r. ckpt c = Some pc \<Longrightarrow> ckpt_record pc = Some r \<Longrightarrow> fits opts (Suc (length H)) r"
  obtains fs' c' H' where "runCheckpoint no_faults ord uid fs c = Some (fs', c')"
    "coord_inv (U \<union> set_option uid) opts H' fs' c'" "meaning H' log_init = meaning H log_init"
proof -
  have li: "log_inv U opts H fs c" and cat: "cat c = fst (meaning H log_init)" using inv by (simp_all add: coord_inv_def)
  have one: "\<exists>fs' c' H'. runCheckpoint no_faults ord uid fs c = Some (fs', c') \<and> coord_inv (U \<union> set_option uid) opts H' fs' c' \<and>
      meaning H' log_init = meaning H log_init"
    if "runCheckpoint no_faults ord uid fs c = Some (fs', c')" "log_inv (U \<union> set_option uid) opts (H @ R) fs' c'" "cat c' = cat c"
      "\<forall>r \<in> set R. Op r = OpBeginCheckpoint \<or> Op r = OpEndCheckpoint" for fs' c' R
  proof -
    have "meaning R A = A" for A
      using that(4) by (induction R arbitrary: A) (auto simp: meaning_step_def Let_def case_prod_unfold)
    then show ?thesis using that(1-3) cat by (intro exI [of _ fs'] exI [of _ c'] exI [of _ "H @ R"]) (simp add: coord_inv_def)
  qed
  note mono = log_inv_mono [where U' = "U \<union> set_option uid", OF _ Un_upper1]
  have "\<exists>fs' c' H'. runCheckpoint no_faults ord uid fs c = Some (fs', c') \<and> coord_inv (U \<union> set_option uid) opts H' fs' c' \<and>
      meaning H' log_init = meaning H log_init"
  proof (cases "ckpt c")
    case None
    then show ?thesis using one [of fs c "[]"] mono [OF li] by (simp add: runCheckpoint_def)
  next
    case (Some pc)
    show ?thesis
    proof (cases pc)
      case CkptBegin
      have pc: "ckpt c = Some CkptBegin" using Some CkptBegin by simp
      have "fits opts (Suc (length H)) (mk_record OpBeginCheckpoint [] [])" by (rule ft [OF pc]) (simp add: ckpt_record_def)
      from checkpoint_begin [OF li pc this] obtain fs' c' r where
        "runCheckpoint no_faults ord uid fs c = Some (fs', c')" "log_inv U opts (H @ [r]) fs' c'" "cat c' = cat c" "Op r = OpBeginCheckpoint"
        by metis
      then show ?thesis by (intro one [of fs' c' "[r]"] mono) simp_all
    next
      case (CkptRead b)
      have pc: "ckpt c = Some (CkptRead b)" using Some CkptRead by simp
      obtain c' where "runCheckpoint no_faults ord uid fs c = Some (fs, c')" "log_inv U opts H fs c'" "cat c' = cat c"
        by (rule checkpoint_read [OF li pc]) (rule ord)
      then show ?thesis by (intro one [of fs c' "[]"] mono) simp_all
    next
      case (CkptWrite b xs)
      have pc: "ckpt c = Some (CkptWrite b xs)" using Some CkptWrite by simp
      show ?thesis
      proof (cases uid)
        case None
        then have "runCheckpoint no_faults ord uid fs c = Some (fs, ckpt_stop c)" by (simp add: runCheckpoint_def pc)
        then show ?thesis using mono [OF log_inv_stop [OF li]] by (intro one [of fs "ckpt_stop c" "[]"]) (simp_all add: ckpt_stop_def)
      next
        case (Some v)
        obtain fs' c' where "runCheckpoint no_faults ord (Some v) fs c = Some (fs', c')" "log_inv (insert v U) opts H fs' c'"
          "cat c' = cat c" using checkpoint_write [OF li pc] u [OF Some] by metis
        then show ?thesis using Some by (intro one [of fs' c' "[]"]) simp_all
      qed
    next
      case (CkptEnd b name ck)
      have pc: "ckpt c = Some (CkptEnd b name ck)" using Some CkptEnd by simp
      have "fits opts (Suc (length H)) (mk_record OpEndCheckpoint [] (EncodeEndCheckpoint \<lparr>FileName = name, FileChecksum = ck\<rparr>))"
        by (rule ft [OF pc]) (simp add: ckpt_record_def)
      from checkpoint_end [OF li pc this] obtain fs' c' r where
        "runCheckpoint no_faults ord uid fs c = Some (fs', c')" "log_inv U opts (H @ [r]) fs' c'" "cat c' = cat c" "Op r = OpEndCheckpoint"
        by metis
      then show ?thesis by (intro one [of fs' c' "[r]"] mono) simp_all
    next
      case (CkptDeleteSegments b name)
      have pc: "ckpt c = Some (CkptDeleteSegments b name)" using Some CkptDeleteSegments by simp
      obtain fs' c' where "runCheckpoint no_faults ord uid fs c = Some (fs', c')" "log_inv U opts H fs' c'" "cat c' = cat c"
        by (rule checkpoint_delete_segments [OF li pc])
      then show ?thesis by (intro one [of fs' c' "[]"] mono) simp_all
    next
      case (CkptDeleteFiles name)
      have pc: "ckpt c = Some (CkptDeleteFiles name)" using Some CkptDeleteFiles by simp
      obtain fs' c' where "runCheckpoint no_faults ord uid fs c = Some (fs', c')" "log_inv U opts H fs' c'" "cat c' = cat c"
        by (rule checkpoint_delete_files [OF li pc])
      then show ?thesis by (intro one [of fs' c' "[]"] mono) simp_all
    qed
  qed
  then show ?thesis using that by blast
qed

end
