(* ===== verification/Durability.thy ===== *)
theory Durability
  imports Coordinator_Correct
begin

text \<open>
  Crash safety of \<open>durable-mq\<close>: a process that is killed at any point, in the middle of an
  operation, of any step of a checkpoint or of a start-up, restarts with the catalog and the undelivered messages
  of the operations it had acknowledged, and perhaps of the one it was killed in. What the process
  has written survives it: the machine, and so the page cache of its kernel, stays up.
\<close>

section \<open>What a crash leaves\<close>

text \<open>
  The checkpoint goroutine may have been writing its temporary file, or removing old
  segments or old checkpoint files one by one.
\<close>

inductive torn_checkpoint :: "Coordinator \<Rightarrow> fs \<Rightarrow> fs \<Rightarrow> bool" for c fs where
  no_checkpoint: "torn_checkpoint c fs fs"
| writing: "ckpt c = Some (CkptWrite b xs) \<Longrightarrow>
    torn_checkpoint c fs (fmupd (checkpointFileName u @ ''.tmp'') data fs)"
| removing_segments: "ckpt c = Some (CkptDeleteSegments b name) \<Longrightarrow> wal_files (clog c) = Some (sm, w, r) \<Longrightarrow>
    segments_before b (segments sm) = Some ns \<Longrightarrow> torn_checkpoint c fs (fst (remove_files no_faults (take k ns) fs))"
| removing_files: "ckpt c = Some (CkptDeleteFiles name) \<Longrightarrow> GetCheckpointFiles no_faults fs = Inr files \<Longrightarrow>
    torn_checkpoint c fs (fst (remove_files no_faults (take k (filter (\<lambda>n. n \<noteq> name) (map fst files))) fs))"

text \<open>An append may have written a part of its record, to the open segment or to a new one.\<close>

inductive torn_append :: "Coordinator \<Rightarrow> fs \<Rightarrow> fs \<Rightarrow> bool" for c fs where
  no_append: "torn_append c fs fs"
| appending: "wal_files (clog c) = Some (sm, w, r) \<Longrightarrow> torn t \<Longrightarrow> torn_append c fs (append_file (wfile w) t fs)"
| rolling: "wal_files (clog c) = Some (sm, w, r) \<Longrightarrow> 0 < currentSize w \<Longrightarrow> torn t \<Longrightarrow>
    torn_append c fs (fmupd (segmentFileName (nextLSN w)) t fs)"

definition cut_off :: "Coordinator \<Rightarrow> fs \<Rightarrow> fs \<Rightarrow> bool" where
  "cut_off c fs fs' \<longleftrightarrow> (\<exists>fs1. torn_checkpoint c fs fs1 \<and> torn_append c fs1 fs')"

text \<open>A directory a log with history \<open>H\<close> can be recovered from.\<close>

definition disk :: "Record list \<Rightarrow> fs \<Rightarrow> bool" where
  "disk H fs \<longleftrightarrow> H = [] \<and> with_suffix ''.wal'' fs = [] \<or>
     (\<exists>s cs d t. stored s cs d t fs \<and> torn t \<and> history H s fs \<and> concat cs @ d = drop (s - 1) H)"

text \<open>What the writer knows of the open segment still holds after \<open>torn_checkpoint\<close>.\<close>

definition on_disk :: "Record list \<Rightarrow> fs \<Rightarrow> Writer \<Rightarrow> bool" where
  "on_disk H fs w \<longleftrightarrow> (\<exists>s cs d. stored s cs d [] fs \<and> history H s fs \<and> concat cs @ d = drop (s - 1) H \<and>
     wfile w = segmentFileName (open_lsn s cs) \<and> currentSize w = length (encode_all d) \<and> nextLSN w = open_lsn s cs + length d)"

lemma seg_names_take: "take k (seg_names s cs) = seg_names s (take k cs)"
  by (induction cs arbitrary: s k) (simp_all add: take_Cons')

lemma open_lsn_take: "open_lsn s (take k cs) \<le> open_lsn s cs"
proof -
  have "length (concat cs) = length (concat (take k cs)) + length (concat (drop k cs))"
    by (metis append_take_drop_id concat_append length_append)
  then show ?thesis by (simp add: open_lsn_def)
qed

lemma torn_checkpoint_disk:
  assumes inv: "log_inv U opts H fs c" and tc: "torn_checkpoint c fs fs'" and files: "wal_files (clog c) = Some (sm, w, r)"
  shows "on_disk H fs' w"
proof -
  obtain s cs d where run: "running s cs d fs opts (clog c)" and h: "history H s fs" and seg: "concat cs @ d = drop (s - 1) H"
    and ci: "ckpt_inv U (ckpt c) H s fs" using inv unfolding log_inv_def by blast
  have lv: "live s cs d fs sm w" using run files by (auto simp: running_def)
  note lvD = liveD [OF lv]
  show ?thesis using tc
  proof cases
    case no_checkpoint
    then show ?thesis unfolding on_disk_def using lvD h seg by blast
  next
    case (writing b xs u data)
    have t: "suffix ''.tmp'' (checkpointFileName u @ ''.tmp'')" by (simp add: suffix_def)
    have "wals_same fs' fs" "ckpts_same fs' fs"
      unfolding writing(1) wals_same_def ckpts_same_def using suffixes_apart(2,3) [OF t] by auto
    then show ?thesis unfolding on_disk_def using lvD h seg stored_same history_same by blast
  next
    case (removing_segments b name sm' w' r' ns k)
    have sm': "sm' = sm" using removing_segments(3) files by simp
    have en: "ended fs H b name" "s \<le> b" using ci removing_segments(2) by (auto simp: ckpt_inv_def)
    have "open_lsn s cs < 2 ^ 64" using lvD(1) by (simp add: stored_def)
    then obtain cs1 cs2 where c12: "cs = cs1 @ cs2" "ns = seg_names s cs1" "cs1 = [] \<or> open_lsn s cs1 \<le> b"
      using segments_before_names [of s cs b] removing_segments(4) lvD(2) unfolding sm' by auto
    let ?k1 = "take k cs1" and ?k2 = "drop k cs1 @ cs2"
    have eq: "cs = ?k1 @ ?k2" using c12(1) by simp
    have cut: "?k1 = [] \<or> open_lsn s ?k1 \<le> b" using c12(3) open_lsn_take [of s k cs1] by auto
    note ch = cut_history [OF h _ en cut, of ?k2 d]
    have fs': "fs' = fmdrop_fset (fset_of_list (seg_names s ?k1)) fs"
      by (simp add: removing_segments(1) remove_files_ok c12(2) seg_names_take)
    have st: "stored (open_lsn s ?k1) ?k2 d [] fs'"
      using stored_drop [of s ?k1 ?k2 d "[]" fs] lvD(1) unfolding fs' by (simp add: eq [symmetric])
    have lsn: "open_lsn (open_lsn s ?k1) ?k2 = open_lsn s cs" unfolding eq open_lsn_append ..
    show ?thesis unfolding on_disk_def
      by (intro exI [of _ "open_lsn s ?k1"] exI [of _ ?k2] exI [of _ d])
        (use st ch(1,4) seg eq lvD lsn in \<open>simp add: fs'\<close>)
  next
    case (removing_files name files' k)
    then obtain b where en: "ended fs H b name" "s \<le> b" using ci by (auto simp: ckpt_inv_def)
    have names: "set (map fst files') \<subseteq> {n. suffix ''.ckpt'' n}"
      using removing_files(3) checksum_all_ok [of "with_suffix ''.ckpt'' fs" fs]
      by (auto simp: GetCheckpointFiles_def set_with_suffix)
    define ns where "ns = take k (filter (\<lambda>n. n \<noteq> name) (map fst files'))"
    have ns: "suffix ''.ckpt'' n \<and> n \<noteq> name" if "n \<in> set ns" for n
    proof -
      have "n \<in> set (filter (\<lambda>n. n \<noteq> name) (map fst files'))" using that unfolding ns_def by (rule in_set_takeD)
      then have "n \<in> set (map fst files')" "n \<noteq> name" by auto
      then show ?thesis using names by blast
    qed
    have fs': "fmlookup fs' n = (if n \<in> set ns then None else fmlookup fs n)" for n
      by (simp add: removing_files(1) remove_files_ok ns_def fset_of_list.rep_eq)
    have "history H s fs'"
      by (rule kept_history [OF h en]) (use ns in \<open>auto simp: ckpts_within_def fs'\<close>)
    moreover have "wals_same fs' fs" unfolding wals_same_def fs' using ns suffixes_apart(1) by auto
    ultimately show ?thesis unfolding on_disk_def using lvD seg stored_same by blast
  qed
qed

lemma segment_not_ckpt: "\<not> suffix ''.ckpt'' (segmentFileName n)"
  using suffixes_apart(1) suffix_segmentFileName by blast

lemma torn_append_disk:
  assumes od: "on_disk H fs w" and ta: "torn_append c fs fs'" and files: "wal_files (clog c) = Some (sm, w, r)"
  shows "disk H fs'"
proof -
  obtain s cs d where st: "stored s cs d [] fs" and h: "history H s fs" and seg: "concat cs @ d = drop (s - 1) H"
    and w: "wfile w = segmentFileName (open_lsn s cs)" "currentSize w = length (encode_all d)" "nextLSN w = open_lsn s cs + length d"
    using od unfolding on_disk_def by blast
  have nd: "numbered (open_lsn s cs) d" "list_all storable d" "open_lsn s cs + length d < 2 ^ 64"
    using st by (simp_all add: stored_def open_lsn_def)
  show ?thesis using ta
  proof cases
    case no_append
    then show ?thesis unfolding disk_def using st h seg torn_Nil by blast
  next
    case (appending sm' w' r' t)
    have w': "w' = w" using appending(2) files by simp
    have "stored s cs d t fs'"
    proof (rule stored_replace_open [OF st])
      show "fmlookup fs' (segmentFileName (open_lsn s cs)) = Some (encode_all d @ t)"
        using st w(1) by (simp add: appending(1) w' append_file_def stored_def)
      show "fmlookup fs' n = fmlookup fs n" if "n \<noteq> segmentFileName (open_lsn s cs)" for n
        using that w(1) by (simp add: appending(1) w' append_file_def)
    qed (use nd in simp_all)
    moreover have "ckpts_same fs' fs"
      using w(1) by (auto simp: appending(1) w' append_file_def ckpts_same_def segment_not_ckpt)
    ultimately show ?thesis unfolding disk_def using h history_same seg appending(3) by blast
  next
    case (rolling sm' w' r' t)
    have w': "w' = w" using rolling(2) files by simp
    have "d \<noteq> []" using rolling(3) w(2) unfolding w' by auto
    note roll = stored_roll [OF st this]
    have lsn: "open_lsn s (cs @ [d]) = nextLSN w" by (simp add: open_lsn_def w(3))
    have "stored s (cs @ [d]) [] t fs'"
    proof (rule stored_replace_open [OF roll(2)])
      show "fmlookup fs' (segmentFileName (open_lsn s (cs @ [d]))) = Some (encode_all [] @ t)"
        by (simp add: rolling(1) w' lsn)
      show "fmlookup fs' n = fmlookup (fmupd (segmentFileName (open_lsn s cs + length d)) [] fs) n"
        if "n \<noteq> segmentFileName (open_lsn s (cs @ [d]))" for n
        using that by (simp add: rolling(1) w' lsn flip: w(3))
    qed (use nd(3) in \<open>simp_all add: lsn w(3)\<close>)
    moreover have "ckpts_same fs' fs"
      by (auto simp: rolling(1) ckpts_same_def segment_not_ckpt)
    moreover have "concat (cs @ [d]) @ [] = drop (s - 1) H" using seg by simp
    ultimately show ?thesis unfolding disk_def using h history_same rolling(4) by blast
  qed
qed

lemma cut_off_disk:
  assumes "log_inv U opts H fs c" "cut_off c fs fs'"
  shows "disk H fs'"
proof -
  obtain sm w r where "wal_files (clog c) = Some (sm, w, r)"
    using assms(1) unfolding log_inv_def running_def by blast
  then show ?thesis
    using assms torn_checkpoint_disk torn_append_disk unfolding cut_off_def by blast
qed

section \<open>Restarting\<close>

lemma cfgMode_withDefaults [simp]: "cfgMode (withDefaults cfg) = cfgMode cfg"
  by (simp add: withDefaults_def Let_def)

text \<open>A directory that can be recovered from, after opening it.\<close>

lemma open_disk:
  assumes dk: "disk H fs" and m: "optMode opts \<noteq> ModeOff"
  obtains fs' l s cs d sm w where "OpenWithOptions no_faults opts fs = Done (fs', l)" "running s cs d fs' opts l"
    "wal_files l = Some (sm, w, start_reader s)" "history H s fs'" "concat cs @ d = drop (s - 1) H"
proof (cases "H = [] \<and> with_suffix ''.wal'' fs = []")
  case True
  obtain l sm w where "OpenWithOptions no_faults opts fs = Done (fmupd (segmentFileName 1) [] fs, l)"
    "running 1 [] [] (fmupd (segmentFileName 1) [] fs) opts l" "wal_files l = Some (sm, w, start_reader 1)"
    using True m by (auto intro: OpenWithOptions_new)
  then show ?thesis using that [of _ l 1 "[]" "[]"] True history_empty by simp
next
  case False
  then obtain s cs d t where st: "stored s cs d t fs" "torn t" and h: "history H s fs" "concat cs @ d = drop (s - 1) H"
    using dk unfolding disk_def by blast
  let ?fs = "fmupd (segmentFileName (open_lsn s cs)) (encode_all d) fs"
  obtain l sm w where o: "OpenWithOptions no_faults opts fs = Done (?fs, l)" "running s cs d ?fs opts l"
    "wal_files l = Some (sm, w, start_reader s)"
    by (rule OpenWithOptions_stored [OF st m])
  have "ckpts_same ?fs fs" by (auto simp: ckpts_same_def segment_not_ckpt)
  then show ?thesis using that [OF o] history_same [OF h(1)] h(2) by blast
qed

text \<open>
  A start-up that is itself cut off: it opens the log, which cuts a torn tail off or creates the
  first segment, and then reads it and removes the checkpoint files that are not in force, the
  segments that the one in force covers, and temporary files, one by one.
\<close>

definition cleaned :: "gathered \<Rightarrow> (string \<times> string) list \<Rightarrow> string list \<Rightarrow> fs \<Rightarrow> string list" where
  "cleaned g files covered fs = filter (\<lambda>n. n \<noteq> validCkptName g) (map fst files) @ covered @ filter (suffix ''.tmp'') (entries fs)"

inductive torn_start :: "Config \<Rightarrow> fs \<Rightarrow> fs \<Rightarrow> bool" for cfg fs where
  starting: "torn_start cfg fs fs"
| opened: "NewCoordinatorWithConfig no_faults cfg fs = Done (fs1, c) \<Longrightarrow> torn_start cfg fs fs1"
| cleaning: "NewCoordinatorWithConfig no_faults cfg fs = Done (fs1, c) \<Longrightarrow> wal_files (clog c) = Some (sm, w, r) \<Longrightarrow>
    reader_ReadAll no_faults sm fs1 r = Some (fs2, Done (g, r')) \<Longrightarrow> GetCheckpointFiles no_faults fs2 = Inr files \<Longrightarrow>
    segments_before (validCkptLSN g) (segments sm) = Some covered \<Longrightarrow>
    torn_start cfg fs (fst (remove_files no_faults (take k (cleaned g files covered fs2)) fs2))"

lemma cut_drop:
  assumes "1 \<le> s" "concat (cs1 @ cs2) @ d = drop (s - 1) H"
  shows "concat cs2 @ d = drop (open_lsn s cs1 - 1) H"
proof -
  have "open_lsn s cs1 - 1 = length (concat cs1) + (s - 1)" using assms(1) by (simp add: open_lsn_def)
  then have "drop (open_lsn s cs1 - 1) H = drop (length (concat cs1)) (drop (s - 1) H)" by (simp add: add.commute)
  also have "\<dots> = concat cs2 @ d" unfolding assms(2) [symmetric] by simp
  finally show ?thesis ..
qed

lemma cleaned_disk:
  fixes fs :: fs
  defines "g \<equiv> \<lambda>H s. fold (gather fs) (drop (s - 1) H) nothing"
  assumes st: "stored s (cs1 @ cs2) d [] fs" and h: "history H s fs" and seg: "concat (cs1 @ cs2) @ d = drop (s - 1) H"
    and cov: "cs1 = [] \<or> open_lsn s cs1 \<le> validCkptLSN (g H s)"
    and A: "\<And>n. n \<in> set A \<Longrightarrow> suffix ''.ckpt'' n \<and> n \<noteq> validCkptName (g H s)" and T: "\<And>n. n \<in> set T \<Longrightarrow> suffix ''.tmp'' n"
  shows "disk H (fmdrop_fset (fset_of_list (take k (A @ seg_names s cs1 @ T))) fs)"
proof -
  define j where "j = k - length A"
  let ?k1 = "take j cs1" and ?k2 = "drop j cs1 @ cs2" and ?ns = "take k (A @ seg_names s cs1 @ T)"
  let ?fs = "fmdrop_fset (fset_of_list ?ns) fs"
  have ns: "n \<in> set ?ns \<Longrightarrow> n \<in> set A \<or> n \<in> set (seg_names s ?k1) \<or> n \<in> set T" "n \<in> set (seg_names s ?k1) \<Longrightarrow> n \<in> set ?ns" for n
    by (auto simp: j_def seg_names_take dest: in_set_takeD)
  have look: "fmlookup ?fs n = (if n \<in> set ?ns then None else fmlookup fs n)" for n by (simp add: fset_of_list.rep_eq)
  have eq: "?k1 @ ?k2 = cs1 @ cs2" by simp
  have "stored (open_lsn s ?k1) ?k2 d [] (fmdrop_fset (fset_of_list (seg_names s ?k1)) fs)"
    by (rule stored_drop) (unfold eq, rule st)
  moreover have "wals_same ?fs (fmdrop_fset (fset_of_list (seg_names s ?k1)) fs)"
    unfolding wals_same_def
  proof (intro allI impI)
    fix n :: string assume n: "suffix ''.wal'' n"
    then have "n \<in> set ?ns \<longleftrightarrow> n \<in> set (seg_names s ?k1)" using ns A T suffixes_apart(1,2) by blast
    then show "fmlookup ?fs n = fmlookup (fmdrop_fset (fset_of_list (seg_names s ?k1)) fs) n" by (simp add: fset_of_list.rep_eq)
  qed
  ultimately have "stored (open_lsn s ?k1) ?k2 d [] ?fs" by (rule stored_same)
  moreover have "history H (open_lsn s ?k1) ?fs"
  proof (rule cleanup_seen [OF h])
    show "ckpts_within ?fs fs" by (simp add: ckpts_within_def look)
    show "fmlookup ?fs n = fmlookup fs n" if "suffix ''.ckpt'' n" "n = validCkptName (fold (gather fs) (drop (s - 1) H) nothing)" for n
    proof -
      have "n \<notin> set ?ns" using ns(1) [of n] A [of n] T [of n] that seg_names_wal suffixes_apart(1,3) unfolding g_def by blast
      then show ?thesis unfolding look by (rule if_not_P)
    qed
    show "open_lsn s ?k1 = s \<or> open_lsn s ?k1 \<le> validCkptLSN (fold (gather fs) (drop (s - 1) H) nothing)"
      using cov open_lsn_take [of s j cs1] unfolding g_def by (auto simp: open_lsn_def)
    show "s \<le> open_lsn s ?k1" by (simp add: open_lsn_def)
  qed
  moreover have "concat ?k2 @ d = drop (open_lsn s ?k1 - 1) H"
    by (rule cut_drop [OF historyD(1) [OF h]]) (unfold eq, rule seg)
  ultimately show ?thesis unfolding disk_def using torn_Nil by blast
qed

lemma torn_start_disk:
  assumes dk: "disk H fs" and m: "cfgMode cfg \<noteq> ModeOff" and ts: "torn_start cfg fs fs'"
  shows "disk H fs'"
proof -
  have m': "optMode (coord_options cfg) \<noteq> ModeOff" using m by (simp add: coord_options_def Let_def)
  obtain fs1 l s cs d sm w where o: "OpenWithOptions no_faults (coord_options cfg) fs = Done (fs1, l)"
    "running s cs d fs1 (coord_options cfg) l" "wal_files l = Some (sm, w, start_reader s)" and h: "history H s fs1"
    and seg: "concat cs @ d = drop (s - 1) H"
    by (rule open_disk [OF dk m'])
  let ?c = "\<lparr>clog = l, cat = NewCatalog, deli = Some NewDelivery, checkpointing = False, ckpt = None\<rparr>"
  have new: "NewCoordinatorWithConfig no_faults cfg fs = Done (fs1, ?c)"
    using o(1) by (simp add: NewCoordinatorWithConfig_def coord_options_def Let_def)
  have lv: "live s cs d fs1 sm w" using o(2,3) by (auto simp: running_def)
  note lvD = liveD [OF lv]
  show ?thesis using ts
  proof cases
    case starting
    then show ?thesis using dk by simp
  next
    case (opened c)
    then have "fs' = fs1" using new by simp
    then show ?thesis unfolding disk_def using lvD(1) h seg torn_Nil by blast
  next
    case (cleaning fs1' c sm' w' r fs2 g r' files covered k)
    have eq: "fs1' = fs1" "sm' = sm" "r = start_reader s" using cleaning(2,3) new o(3) by auto
    define g0 where "g0 = fold (gather fs1) (drop (s - 1) H) nothing"
    have "reads s (cs @ [d]) (start_reader s) (drop (s - 1) H)" using reads_start [of s cs d] seg by simp
    then obtain r0 where "readLoop no_faults sm (\<lambda>_. False) fs1 (start_reader s) nothing = Some (fs1, Done (g0, r0))"
      using readLoop_live [OF lv, of _ _ "\<lambda>_. False" nothing] list_all_drop [OF historyD(7) [OF h]]
      unfolding until_never g0_def by blast
    then have g: "g = g0" "fs2 = fs1" using cleaning(4) by (simp_all add: eq reader_ReadAll_def)
    have ck: "set (map fst files) \<subseteq> {n. suffix ''.ckpt'' n}"
      using cleaning(5) checksum_all_ok [of "with_suffix ''.ckpt'' fs1" fs1]
      by (auto simp: g GetCheckpointFiles_def set_with_suffix)
    have "open_lsn s cs < 2 ^ 64" using lvD(1) by (simp add: stored_def)
    then obtain cs1 cs2 where c12: "cs = cs1 @ cs2" "covered = seg_names s cs1" "cs1 = [] \<or> open_lsn s cs1 \<le> validCkptLSN g0"
      using segments_before_names [of s cs "validCkptLSN g0"] cleaning(6) lvD(2) unfolding eq g by auto
    have st: "stored s (cs1 @ cs2) d [] fs1" "concat (cs1 @ cs2) @ d = drop (s - 1) H" using lvD(1) seg c12(1) by simp_all
    have "fs' = fmdrop_fset (fset_of_list (take k (filter (\<lambda>n. n \<noteq> validCkptName g0) (map fst files) @ seg_names s cs1 @
        filter (suffix ''.tmp'') (entries fs1)))) fs1"
      using cleaning(1) by (simp add: cleaned_def g c12(2) remove_files_ok)
    then show ?thesis
      using cleaned_disk [OF st(1) h st(2), where A = "filter (\<lambda>n. n \<noteq> validCkptName g0) (map fst files)"
          and T = "filter (suffix ''.tmp'') (entries fs1)" and k = k] c12(3) ck
      unfolding g0_def by auto
  qed
qed

text \<open>A kill, and any number of start-ups that are killed in their turn.\<close>

definition crash :: "Config \<Rightarrow> Coordinator \<Rightarrow> fs \<Rightarrow> fs \<Rightarrow> bool" where
  "crash cfg c fs fs' \<longleftrightarrow> (\<exists>fs1. cut_off c fs fs1 \<and> rtranclp (torn_start cfg) fs1 fs')"

lemma crash_same: "crash cfg c fs fs"
  unfolding crash_def cut_off_def using no_checkpoint no_append by blast

lemma crash_disk:
  assumes "log_inv U opts H fs c" "crash cfg c fs fs'" "cfgMode cfg \<noteq> ModeOff"
  shows "disk H fs'"
proof -
  obtain fs1 where fs1: "cut_off c fs fs1" "rtranclp (torn_start cfg) fs1 fs'" using assms(2) unfolding crash_def by blast
  from fs1(2) show ?thesis
    by (induction rule: rtranclp_induct) (use cut_off_disk [OF assms(1) fs1(1)] torn_start_disk [OF _ assms(3)] in blast)+
qed

definition names_in :: "string set \<Rightarrow> Record list \<Rightarrow> bool" where
  "names_in U H \<longleftrightarrow> (\<forall>r \<in> set H. Op r = OpEndCheckpoint \<longrightarrow> ckpt_name r \<in> insert [] (checkpointFileName ` U))"

lemma restart_ok:
  assumes dk: "disk H fs" and m: "cfgMode cfg \<noteq> ModeOff" and nm: "names_in U H"
  obtains fs1 c1 fs2 c2 d where "NewCoordinatorWithConfig no_faults cfg fs = Done (fs1, c1)"
    "ReplayLog no_faults ord fs1 c1 = Some ((fs2, c2), Inr (ord (fmdom (cat c2)), d))"
    "coord_inv U (coord_options cfg) H fs2 c2" "(cat c2, pending d) = meaning H log_init" "ckpt c2 = None"
proof -
  have m': "optMode (coord_options cfg) \<noteq> ModeOff" using m by (simp add: coord_options_def Let_def)
  obtain fs1 l s cs d sm w where o: "OpenWithOptions no_faults (coord_options cfg) fs = Done (fs1, l)"
    "running s cs d fs1 (coord_options cfg) l" "wal_files l = Some (sm, w, start_reader s)" "history H s fs1"
    "concat cs @ d = drop (s - 1) H"
    by (rule open_disk [OF dk m'])
  let ?c = "\<lparr>clog = l, cat = NewCatalog, deli = Some NewDelivery, checkpointing = False, ckpt = None\<rparr>"
  have new: "NewCoordinatorWithConfig no_faults cfg fs = Done (fs1, ?c)"
    using o(1) by (simp add: NewCoordinatorWithConfig_def coord_options_def Let_def)
  obtain fs2 l' recs where rd: "wal_ReadAll no_faults fs1 l = Some ((fs2, l'), Done recs)"
    "running_on H fs2 (coord_options cfg) l'" "log_ok recs log_init" "meaning recs log_init = meaning H log_init"
    by (rule wal_ReadAll_ok [OF o(2-5)])
  obtain ct dl where rp: "replay recs (NewCatalog, NewDelivery) = Inr (ct, dl)" "(ct, pending dl) = meaning recs log_init"
    using replay_init [OF rd(3)] by blast
  let ?c2 = "?c\<lparr>clog := l', cat := ct, deli := None\<rparr>"
  have rl: "ReplayLog no_faults ord fs1 ?c = Some ((fs2, ?c2), Inr (ord (fmdom (cat ?c2)), dl))"
    by (simp add: ReplayLog_def rd(1) rp(1) ReturnQueueNames_def YieldDeliveryData_def)
  have inv: "coord_inv U (coord_options cfg) H fs2 ?c2"
  proof -
    have "log_inv U (coord_options cfg) H fs2 ?c2"
      using rd(2) nm unfolding running_on_def log_inv_def names_in_def by (auto simp: ckpt_inv_def)
    moreover have "ct = fst (meaning H log_init)" using rp(2) rd(4) by (metis fst_conv)
    ultimately show ?thesis by (simp add: coord_inv_def)
  qed
  show ?thesis by (rule that [OF new rl inv]) (simp_all add: rp(2) rd(4))
qed

section \<open>Runs\<close>

text \<open>There is room in the log for a record.\<close>

definition room :: "Config \<Rightarrow> Coordinator \<Rightarrow> Record \<Rightarrow> bool" where
  "room cfg c r \<longleftrightarrow> (case wal_files (clog c) of None \<Rightarrow> False | Some (sm, w, rd) \<Rightarrow> fits (coord_options cfg) (nextLSN w) r)"

definition ckpt_room :: "Config \<Rightarrow> Coordinator \<Rightarrow> bool" where
  "ckpt_room cfg c \<longleftrightarrow>
     (case Option.bind (ckpt c) ckpt_record of None \<Rightarrow> True | Some r \<Rightarrow> room cfg c r)"

definition new_uid :: "string set \<Rightarrow> string option \<Rightarrow> bool" where
  "new_uid U uid \<longleftrightarrow> (case uid of None \<Rightarrow> True | Some u \<Rightarrow> u \<notin> U \<and> valid_utf8 (checkpointFileName u))"

text \<open>
  A run of the coordinator, with the abstract state \<open>A\<close> it stands for: it starts on a directory
  without a log, serves operations, takes steps of checkpoints in between, and may crash and be
  restarted any number of times. \<open>U\<close> are the identifiers that checkpoints have used; they do
  not repeat.
\<close>

inductive durable_run :: "Config \<Rightarrow> string set \<Rightarrow> log_state \<Rightarrow> fs \<Rightarrow> Coordinator \<Rightarrow> bool" for cfg where
  first: "with_suffix ''.wal'' fs = [] \<Longrightarrow> NewCoordinatorWithConfig no_faults cfg fs = Done (fs1, c1) \<Longrightarrow>
    ReplayLog no_faults ord fs1 c1 = Some ((fs2, c2), Inr x) \<Longrightarrow> durable_run cfg {} log_init fs2 c2"
| operation: "durable_run cfg U A fs c \<Longrightarrow> legal op A \<Longrightarrow> room cfg c (record_of op (cat c)) \<Longrightarrow>
    exec no_faults op fs c = Some ((fs', c'), e) \<Longrightarrow> durable_run cfg U (if e = None then spec op A else A) fs' c'"
| checkpoint: "durable_run cfg U A fs c \<Longrightarrow> \<forall>t. visits_all (ord t) \<Longrightarrow> new_uid U uid \<Longrightarrow> ckpt_room cfg c \<Longrightarrow>
    runCheckpoint no_faults ord uid fs c = Some (fs', c') \<Longrightarrow> durable_run cfg (U \<union> set_option uid) A fs' c'"
| restart: "durable_run cfg U A fs c \<Longrightarrow> crash cfg c fs fs1 \<Longrightarrow> NewCoordinatorWithConfig no_faults cfg fs1 = Done (fs2, c2) \<Longrightarrow>
    ReplayLog no_faults ord fs2 c2 = Some ((fs3, c3), Inr x) \<Longrightarrow> durable_run cfg U A fs3 c3"

lemma room_fits:
  assumes "log_inv U (coord_options cfg) H fs c" "room cfg c r"
  shows "fits (coord_options cfg) (Suc (length H)) r"
proof -
  obtain s cs d where run: "running s cs d fs (coord_options cfg) (clog c)" "history H s fs" "concat cs @ d = drop (s - 1) H"
    using assms(1) unfolding log_inv_def by blast
  obtain sm w rd where f: "wal_files (clog c) = Some (sm, w, rd)" using run(1) by (auto simp: running_def)
  then show ?thesis using assms(2) running_next [OF run f] by (simp add: room_def)
qed

lemma exec_step:
  assumes inv: "coord_inv U (coord_options cfg) H fs c" and ok: "legal op (meaning H log_init)" "room cfg c (record_of op (cat c))"
  shows "\<exists>fs' c' e H'. exec no_faults op fs c = Some ((fs', c'), e) \<and> coord_inv U (coord_options cfg) H' fs' c' \<and>
    meaning H' log_init = (if e = None then spec op (meaning H log_init) else meaning H log_init) \<and>
    (e = None \<longleftrightarrow> (\<forall>q. needs op = Some q \<longrightarrow> q |\<in>| fmdom (cat c)))"
proof (cases "\<exists>q. needs op = Some q \<and> q |\<notin>| fmdom (cat c)")
  case True
  then obtain q where "needs op = Some q" "q |\<notin>| fmdom (cat c)" by blast
  then show ?thesis using exec_missing [of op q c no_faults fs] inv by auto
next
  case False
  have "fits (coord_options cfg) (Suc (length H)) (record_of op (cat c))"
    using room_fits ok(2) inv by (auto simp: coord_inv_def)
  from exec_refines [OF inv ok(1) _ this] False
  obtain fs' c' H' where "exec no_faults op fs c = Some ((fs', c'), None)" "coord_inv U (coord_options cfg) H' fs' c'"
    "meaning H' log_init = spec op (meaning H log_init)" by metis
  then show ?thesis using False by (intro exI [of _ fs'] exI [of _ c'] exI [of _ None] exI [of _ H']) auto
qed

lemma checkpoint_step:
  assumes inv: "coord_inv U (coord_options cfg) H fs c" and ok: "\<forall>t. visits_all (ord t)" "new_uid U uid" "ckpt_room cfg c"
  shows "\<exists>fs' c' H'. runCheckpoint no_faults ord uid fs c = Some (fs', c') \<and>
    coord_inv (U \<union> set_option uid) (coord_options cfg) H' fs' c' \<and> meaning H' log_init = meaning H log_init"
proof -
  have ft: "fits (coord_options cfg) (Suc (length H)) r" if "ckpt c = Some pc" "ckpt_record pc = Some r" for pc r
    using room_fits [of U cfg H fs c r] ok(3) inv that by (simp add: ckpt_room_def coord_inv_def)
  have u: "u \<notin> U \<and> valid_utf8 (checkpointFileName u)" if "uid = Some u" for u
    using ok(2) that by (simp add: new_uid_def)
  obtain fs' c' H' where "runCheckpoint no_faults ord uid fs c = Some (fs', c')"
    "coord_inv (U \<union> set_option uid) (coord_options cfg) H' fs' c'" "meaning H' log_init = meaning H log_init"
    by (rule runCheckpoint_refines [OF inv, of ord uid]) (use ok(1) u ft in \<open>blast+\<close>)
  then show ?thesis by blast
qed

lemma coord_inv_names: "coord_inv U opts H fs c \<Longrightarrow> names_in U H"
  by (simp add: coord_inv_def log_inv_def names_in_def)

lemma restart_inv:
  assumes "disk H fs" "cfgMode cfg \<noteq> ModeOff" "names_in U H"
    "NewCoordinatorWithConfig no_faults cfg fs = Done (fs1, c1)" "ReplayLog no_faults ord fs1 c1 = Some ((fs2, c2), Inr x)"
  shows "coord_inv U (coord_options cfg) H fs2 c2"
proof -
  obtain fs1' c1' fs2' c2' d where "NewCoordinatorWithConfig no_faults cfg fs = Done (fs1', c1')"
    "ReplayLog no_faults ord fs1' c1' = Some ((fs2', c2'), Inr (ord (fmdom (cat c2')), d))"
    "coord_inv U (coord_options cfg) H fs2' c2'" "(cat c2', pending d) = meaning H log_init" "ckpt c2' = None"
    by (rule restart_ok [OF assms(1-3)])
  then show ?thesis using assms(4,5) by simp
qed

lemma durable_run_inv:
  assumes "durable_run cfg U A fs c" "cfgMode cfg \<noteq> ModeOff"
  shows "\<exists>H. coord_inv U (coord_options cfg) H fs c \<and> meaning H log_init = A"
  using assms
proof (induction rule: durable_run.induct)
  case (first fs fs1 c1 ord fs2 c2 x)
  have "disk [] fs" "names_in {} []" using first(1) by (simp_all add: disk_def names_in_def)
  from restart_inv [OF this(1) first(4) this(2) first(2,3)] show ?case by (intro exI [of _ "[]"]) simp
next
  case (operation U A fs c op fs' c' e)
  then obtain H where H: "coord_inv U (coord_options cfg) H fs c" "meaning H log_init = A" by blast
  obtain fs2 c2 e2 H' where "exec no_faults op fs c = Some ((fs2, c2), e2)" "coord_inv U (coord_options cfg) H' fs2 c2"
    "meaning H' log_init = (if e2 = None then spec op (meaning H log_init) else meaning H log_init)"
    using exec_step [OF H(1), of op] operation.hyps(2,3) unfolding H(2) by blast
  then show ?case using operation.hyps(4) H(2) by (intro exI [of _ H']) simp
next
  case (checkpoint U A fs c ord uid fs' c')
  then obtain H where H: "coord_inv U (coord_options cfg) H fs c" "meaning H log_init = A" by blast
  obtain fs2 c2 H' where "runCheckpoint no_faults ord uid fs c = Some (fs2, c2)"
    "coord_inv (U \<union> set_option uid) (coord_options cfg) H' fs2 c2" "meaning H' log_init = meaning H log_init"
    using checkpoint_step [OF H(1) checkpoint.hyps(2-4)] by blast
  then show ?case using checkpoint.hyps(5) H(2) by (intro exI [of _ H']) simp
next
  case (restart U A fs c fs1 fs2 c2 ord fs3 c3 x)
  then obtain H where H: "coord_inv U (coord_options cfg) H fs c" "meaning H log_init = A" by blast
  have "log_inv U (coord_options cfg) H fs c" using H(1) by (simp add: coord_inv_def)
  then have "disk H fs1" by (rule crash_disk [OF _ restart.hyps(2) restart.prems])
  then have "coord_inv U (coord_options cfg) H fs3 c3"
    by (rule restart_inv [OF _ restart.prems coord_inv_names [OF H(1)] restart.hyps(3,4)])
  then show ?case using H(2) by blast
qed

section \<open>An example run\<close>

definition sample_cfg :: Config where
  "sample_cfg = \<lparr>cfgDir = [], cfgMaxSegSize = 0, cfgMode = ModeSync, cfgCheckpointThreshold = 1\<rparr>"

definition sample_state :: "nat \<Rightarrow> log_state \<Rightarrow> bool" where
  "sample_state k A \<longleftrightarrow> (\<exists>fs c H. durable_run sample_cfg {} A fs c \<and> coord_inv {} (coord_options sample_cfg) H fs c \<and>
     meaning H log_init = A \<and> length H = k)"

lemma sample_fits:
  assumes "n < 1000" "length (QueueName r) \<le> 1000" "length (RPayload r) \<le> 1000"
    "Op r \<in> {OpCreateQueue, OpUpdateSubPolicy, OpEnqueue, OpAck, OpBeginCheckpoint}"
  shows "fits (coord_options sample_cfg) n r"
  using assms
  by (auto simp: fits_def storable_def record_ok_def body_len_def length_Encode coord_options_def sample_cfg_def
      withDefaults_def maxLogSize_def maxLogLength_def byte_op_def)

lemma sample_mode: "cfgMode sample_cfg \<noteq> ModeOff"
  by (simp add: sample_cfg_def)

lemma sample_start:
  obtains fs c where "durable_run sample_cfg {} log_init fs c" "coord_inv {} (coord_options sample_cfg) [] fs c" "ckpt c = None"
proof -
  have e: "with_suffix ''.wal'' (fmempty :: fs) = []" by (simp add: with_suffix_eq_iff)
  then have "disk [] fmempty" "names_in {} []" by (simp_all add: disk_def names_in_def)
  then obtain fs1 c1 fs2 c2 d where r: "NewCoordinatorWithConfig no_faults sample_cfg fmempty = Done (fs1, c1)"
    "ReplayLog no_faults sorted_list_of_fset fs1 c1 = Some ((fs2, c2), Inr (sorted_list_of_fset (fmdom (cat c2)), d))"
    "coord_inv {} (coord_options sample_cfg) [] fs2 c2" "ckpt c2 = None"
    using restart_ok [OF _ sample_mode] by metis
  show ?thesis by (rule that [OF durable_run.first [OF e r(1,2)] r(3,4)])
qed

lemma sample_first: "sample_state 0 log_init"
  unfolding sample_state_def using sample_start by (metis list.size(3) meaning_simps(1))

lemma sample_room:
  assumes "coord_inv {} (coord_options sample_cfg) H fs c" "fits (coord_options sample_cfg) (Suc (length H)) r"
  shows "room sample_cfg c r"
proof -
  obtain s cs d where rn: "running s cs d fs (coord_options sample_cfg) (clog c)" "history H s fs" "concat cs @ d = drop (s - 1) H"
    using assms(1) unfolding coord_inv_def log_inv_def by blast
  obtain sm w rd where f: "wal_files (clog c) = Some (sm, w, rd)" using rn(1) by (auto simp: running_def)
  then show ?thesis using assms(2) running_next [OF rn f] by (simp add: room_def)
qed

lemma sample_step:
  assumes st: "sample_state k A" and ok: "legal op A" "\<And>q. needs op = Some q \<Longrightarrow> q |\<in>| fmdom (fst A)"
    and small: "k < 900" "length (QueueName (record_of op (fst A))) \<le> 1000" "length (RPayload (record_of op (fst A))) \<le> 1000"
      "Op (record_of op (fst A)) \<in> {OpCreateQueue, OpUpdateSubPolicy, OpEnqueue, OpAck, OpBeginCheckpoint}"
  shows "sample_state (Suc k) (spec op A)"
proof -
  obtain fs c H where run: "durable_run sample_cfg {} A fs c" and inv: "coord_inv {} (coord_options sample_cfg) H fs c"
    and H: "meaning H log_init = A" "length H = k" using st unfolding sample_state_def by blast
  have cat: "cat c = fst A" using inv H(1) by (simp add: coord_inv_def)
  have ft: "fits (coord_options sample_cfg) (Suc (length H)) (record_of op (cat c))"
    unfolding cat H(2) by (rule sample_fits) (use small in auto)
  have "room sample_cfg c (record_of op (cat c))" by (rule sample_room [OF inv ft])
  moreover obtain fs' c' where ex: "exec no_faults op fs c = Some ((fs', c'), None)"
    "coord_inv {} (coord_options sample_cfg) (H @ [(record_of op (cat c))\<lparr>LSN := Suc (length H)\<rparr>]) fs' c'"
    "meaning (H @ [(record_of op (cat c))\<lparr>LSN := Suc (length H)\<rparr>]) log_init = spec op (meaning H log_init)"
    by (rule exec_refines [OF inv _ _ ft]) (use ok cat H(1) in auto)
  ultimately have "durable_run sample_cfg {} (spec op A) fs' c'"
    using durable_run.operation [OF run ok(1) _ ex(1)] by simp
  then show ?thesis unfolding sample_state_def using ex(2,3) H
    by (intro exI [of _ fs'] exI [of _ c'] exI [of _ "H @ [(record_of op (cat c))\<lparr>LSN := Suc (length H)\<rparr>]"]) simp
qed

definition sample_abstract :: log_state where
  "sample_abstract = spec (EnqueueOp ''orders'' ''orders-1'' ''hello'')
     (spec (UpdateOp ''orders'' sample_policy) (spec (CreateOp ''orders'') log_init))"

lemma sample_spec:
  "spec (CreateOp ''orders'') log_init = (fmupd ''orders'' \<lparr>qiName = ''orders'', qiSubs = fmempty\<rparr> fmempty, \<lambda>_ _. None)"
  "spec (UpdateOp ''orders'' sample_policy) (fmupd ''orders'' \<lparr>qiName = ''orders'', qiSubs = fmempty\<rparr> fmempty, \<lambda>_ _. None) =
     (fmupd ''orders'' \<lparr>qiName = ''orders'', qiSubs = fmupd ''audit'' sample_policy fmempty\<rparr> fmempty, \<lambda>_ _. None)"
  by (simp_all add: spec_def log_init_def set_policies_def sample_policy_def)

lemma sample_payloads:
  "length (EncodeSubPolicy sample_policy) \<le> 1000"
  "length (EncodeEnqueue \<lparr>enqMsgId = ''orders-1'', MsgContent = ''hello'', SubList = fmupd ''audit'' sample_policy fmempty\<rparr>) \<le> 1000"
  unfolding sample_policy_def by code_simp+

lemma sample_run: "sample_state 3 sample_abstract"
proof -
  have 1: "sample_state 1 (spec (CreateOp ''orders'') log_init)"
    using sample_step [OF sample_first, of "CreateOp ''orders''"]
    by (simp add: legal_def log_init_def needs_def record_of_def mk_record_def)
  have 2: "sample_state 2 (spec (UpdateOp ''orders'' sample_policy) (spec (CreateOp ''orders'') log_init))"
    using sample_step [OF 1, of "UpdateOp ''orders'' sample_policy"] sample_payloads(1) sample_policy_text(1)
    by (simp add: legal_def needs_def record_of_def mk_record_def sample_spec eval_nat_numeral)
  show ?thesis unfolding sample_abstract_def
    using sample_step [OF 2, of "EnqueueOp ''orders'' ''orders-1'' ''hello''"] sample_payloads(2)
    by (simp add: legal_def needs_def record_of_def mk_record_def sample_spec subs_of_def eval_nat_numeral
        valid_utf8.simps code_def)
qed

lemma crash_restart:
  assumes "durable_run cfg U A fs c" "cfgMode cfg \<noteq> ModeOff" "crash cfg c fs fs'"
  shows "\<exists>fs1 c1 fs2 c2 d. NewCoordinatorWithConfig no_faults cfg fs' = Done (fs1, c1) \<and>
    ReplayLog no_faults ord fs1 c1 = Some ((fs2, c2), Inr (ord (fmdom (fst A)), d)) \<and>
    cat c2 = fst A \<and> pending d = snd A"
proof -
  obtain H where H: "coord_inv U (coord_options cfg) H fs c" "meaning H log_init = A"
    using durable_run_inv [OF assms(1,2)] by blast
  have "log_inv U (coord_options cfg) H fs c" using H(1) by (simp add: coord_inv_def)
  then have "disk H fs'" by (rule crash_disk [OF _ assms(3,2)])
  then obtain fs1 c1 fs2 c2 d where "NewCoordinatorWithConfig no_faults cfg fs' = Done (fs1, c1)"
    "ReplayLog no_faults ord fs1 c1 = Some ((fs2, c2), Inr (ord (fmdom (cat c2)), d))" "(cat c2, pending d) = meaning H log_init"
    using restart_ok [OF _ assms(2) coord_inv_names [OF H(1)], of fs' ord] by metis
  then show ?thesis using H(2) by (metis fst_conv snd_conv)
qed

lemma operation_refines:
  assumes "durable_run cfg U A fs c" "cfgMode cfg \<noteq> ModeOff" "legal op A" "room cfg c (record_of op (cat c))"
  shows "\<exists>fs' c' e. exec no_faults op fs c = Some ((fs', c'), e) \<and>
    (e = None \<longleftrightarrow> (case needs op of None \<Rightarrow> True | Some q \<Rightarrow> q |\<in>| fmdom (fst A))) \<and>
    durable_run cfg U (if e = None then spec op A else A) fs' c' \<and>
    cat c' = fst (if e = None then spec op A else A)"
proof -
  obtain H where H: "coord_inv U (coord_options cfg) H fs c" "meaning H log_init = A"
    using durable_run_inv [OF assms(1,2)] by blast
  obtain fs' c' e H' where ex: "exec no_faults op fs c = Some ((fs', c'), e)" "coord_inv U (coord_options cfg) H' fs' c'"
    "meaning H' log_init = (if e = None then spec op A else A)"
    "e = None \<longleftrightarrow> (\<forall>q. needs op = Some q \<longrightarrow> q |\<in>| fmdom (cat c))"
    using exec_step [OF H(1), of op] assms(3,4) unfolding H(2) by blast
  have "cat c = fst A" "cat c' = fst (if e = None then spec op A else A)" using H ex(2,3) by (simp_all add: coord_inv_def)
  then show ?thesis using durable_run.operation [OF assms(1,3,4) ex(1)] ex(1,4) by (auto split: option.split)
qed

section \<open>Properties\<close>

text \<open>
  What a kill leaves of a process that stands for \<open>A\<close>. Between operations, or in an operation whose
  record is not wholly written, the directory is one of \<open>crash\<close>. In an operation that has written
  its record and not answered yet, it is one of \<open>crash\<close> after that operation.
\<close>

definition killed :: "Config \<Rightarrow> log_state \<Rightarrow> fs \<Rightarrow> Coordinator \<Rightarrow> log_state \<Rightarrow> fs \<Rightarrow> bool" where
  "killed cfg A fs c A' fs' \<longleftrightarrow> A' = A \<and> crash cfg c fs fs' \<or>
     (\<exists>op fs1 c1. legal op A \<and> room cfg c (record_of op (cat c)) \<and> exec no_faults op fs c = Some ((fs1, c1), None) \<and>
        A' = spec op A \<and> crash cfg c1 fs1 fs')"

lemma killed_run:
  assumes "durable_run cfg U A fs c" "killed cfg A fs c A' fs'"
  obtains fs1 c1 where "durable_run cfg U A' fs1 c1" "crash cfg c1 fs1 fs'"
proof (cases "A' = A \<and> crash cfg c fs fs'")
  case True
  then show ?thesis using that assms(1) by blast
next
  case False
  then obtain op fs1 c1 where op: "legal op A" "room cfg c (record_of op (cat c))" "exec no_faults op fs c = Some ((fs1, c1), None)"
    "A' = spec op A" "crash cfg c1 fs1 fs'" using assms(2) unfolding killed_def by blast
  have "durable_run cfg U (spec op A) fs1 c1" using durable_run.operation [OF assms(1) op(1-3)] by simp
  then show ?thesis using that op(4,5) by blast
qed

text \<open>
  C1. Crash safety. Take any run, with the log on, of operations, steps of checkpoints, kills and
  restarts, in which files do not fail and every operation is \<open>legal\<close> (its texts are UTF-8, a
  message's identifier is new, an acknowledgement is for an outstanding message and a subscriber
  that owes it one) and finds \<open>room\<close> (its record fits a segment, sequence numbers do not run out).
  Wherever in an operation or in a checkpoint step the process is then killed, and however often
  start-ups after that are killed too, a restart on what is left succeeds, and comes back with the
  catalog and exactly the undelivered messages of the operations acknowledged before, and besides
  only the effect of the operation it was killed in, if that one's record was written.
\<close>

theorem durable_crash_safe:
  assumes "durable_run cfg U A fs c" "cfgMode cfg \<noteq> ModeOff" "killed cfg A fs c A' fs'"
  shows "(A' = A \<or> (\<exists>op. legal op A \<and> A' = spec op A)) \<and>
    (\<exists>fs1 c1 fs2 c2 d. NewCoordinatorWithConfig no_faults cfg fs' = Done (fs1, c1) \<and>
      ReplayLog no_faults ord fs1 c1 = Some ((fs2, c2), Inr (ord (fmdom (fst A')), d)) \<and>
      cat c2 = fst A' \<and> pending d = snd A' \<and> durable_run cfg U A' fs2 c2)"
proof -
  obtain fs1 c1 where r: "durable_run cfg U A' fs1 c1" "crash cfg c1 fs1 fs'" by (rule killed_run [OF assms(1,3)])
  obtain fs2 c2 fs3 c3 d where s: "NewCoordinatorWithConfig no_faults cfg fs' = Done (fs2, c2)"
    "ReplayLog no_faults ord fs2 c2 = Some ((fs3, c3), Inr (ord (fmdom (fst A')), d))" "cat c3 = fst A'" "pending d = snd A'"
    using crash_restart [OF r(1) assms(2) r(2), of ord] by blast
  have "A' = A \<or> (\<exists>op. legal op A \<and> A' = spec op A)" using assms(3) by (auto simp: killed_def)
  then show ?thesis using s durable_run.restart [OF r s(1,2)] by blast
qed

definition sample_tail_byte :: bytes where
  "sample_tail_byte = [hd (Encode sample_record)]"

lemma sample_torn: "torn sample_tail_byte"
proof -
  have "1 < length (Encode sample_record)" by (simp add: length_Encode)
  then have "strict_prefix sample_tail_byte (Encode sample_record)"
    unfolding sample_tail_byte_def
    by (cases "Encode sample_record") (auto simp: strict_prefix_def)
  then show ?thesis unfolding torn_def using sample_record_ok by blast
qed

theorem durable_crash_safe_witness:
  "\<exists>fs c fs' fs1 c1 fs2 c2 d. durable_run sample_cfg {} sample_abstract fs c \<and>
     killed sample_cfg sample_abstract fs c sample_abstract fs' \<and> fs' \<noteq> fs \<and>
     NewCoordinatorWithConfig no_faults sample_cfg fs' = Done (fs1, c1) \<and>
     ReplayLog no_faults sorted_list_of_fset fs1 c1 = Some ((fs2, c2), Inr (sorted_list_of_fset (fmdom (fst sample_abstract)), d)) \<and>
     cat c2 = fst sample_abstract \<and> pending d = snd sample_abstract"
proof -
  obtain fs c H where run: "durable_run sample_cfg {} sample_abstract fs c" "coord_inv {} (coord_options sample_cfg) H fs c"
    using sample_run unfolding sample_state_def by blast
  obtain sm w r where f: "wal_files (clog c) = Some (sm, w, r)"
    using run(2) unfolding coord_inv_def log_inv_def running_def by blast
  let ?fs = "append_file (wfile w) sample_tail_byte fs"
  have cr: "crash sample_cfg c fs ?fs"
    unfolding crash_def cut_off_def using no_checkpoint torn_append.appending [OF f sample_torn] by blast
  then have kl: "killed sample_cfg sample_abstract fs c sample_abstract ?fs" by (simp add: killed_def)
  have "fmlookup ?fs (wfile w) \<noteq> fmlookup fs (wfile w)" by (auto simp: append_file_def sample_tail_byte_def split: option.splits)
  then have "?fs \<noteq> fs" by metis
  then show ?thesis using durable_crash_safe [OF run(1) sample_mode kl, of sorted_list_of_fset] run(1) kl by blast
qed



text \<open>How many steps a checkpoint has before it.\<close>

definition ckpt_rank :: "ckpt_pc option \<Rightarrow> nat" where
  "ckpt_rank pc = (case pc of None \<Rightarrow> 0 | Some p \<Rightarrow> (case p of
     CkptBegin \<Rightarrow> 6 | CkptRead _ \<Rightarrow> 5 | CkptWrite _ _ \<Rightarrow> 4 | CkptEnd _ _ _ \<Rightarrow> 3
   | CkptDeleteSegments _ _ \<Rightarrow> 2 | CkptDeleteFiles _ \<Rightarrow> 1))"

lemma runCheckpoint_rank:
  assumes "runCheckpoint flt ord uid fs c = Some (fs', c')" "ckpt c = Some pc"
  shows "ckpt_rank (ckpt c') < ckpt_rank (ckpt c)"
  using assms
  by (cases pc) (auto simp: runCheckpoint_def ckpt_rank_def ckpt_stop_def ckpt_goto_def split: option.splits sum.splits prod.splits outcome.splits bind_splits)

text \<open>
  C4. A checkpoint terminates. In every state of a run as above (the log on, no file failures,
  \<open>legal\<close> operations with \<open>room\<close>), provided a new name for the checkpoint's file and \<open>room\<close> for the
  record its next step writes, that step returns, without a panic or an endless read, and brings
  the checkpoint nearer to its end, at which the flag that keeps further checkpoints from starting
  is cleared. None of its steps changes the abstract state.
\<close>

theorem checkpoint_terminates:
  assumes "durable_run cfg U A fs c" "cfgMode cfg \<noteq> ModeOff" "\<And>t. visits_all (ord t)" "new_uid U uid" "ckpt_room cfg c"
    "ckpt c = Some pc"
  shows "\<exists>fs' c'. runCheckpoint no_faults ord uid fs c = Some (fs', c') \<and> durable_run cfg (U \<union> set_option uid) A fs' c' \<and>
    ckpt_rank (ckpt c') < ckpt_rank (ckpt c) \<and> (checkpointing c' \<longleftrightarrow> ckpt c' \<noteq> None) \<and> cat c' = fst A"
proof -
  obtain H where H: "coord_inv U (coord_options cfg) H fs c" "meaning H log_init = A"
    using durable_run_inv [OF assms(1,2)] by blast
  have ord: "\<forall>t. visits_all (ord t)" using assms(3) by blast
  obtain fs' c' H' where c': "runCheckpoint no_faults ord uid fs c = Some (fs', c')"
    "coord_inv (U \<union> set_option uid) (coord_options cfg) H' fs' c'" "meaning H' log_init = A"
    using checkpoint_step [OF H(1) ord assms(4,5)] unfolding H(2) by blast
  have "checkpointing c' \<longleftrightarrow> ckpt c' \<noteq> None" "cat c' = fst A" using c'(2,3) by (simp_all add: coord_inv_def log_inv_def)
  then show ?thesis
    using durable_run.checkpoint [OF assms(1) ord assms(4,5) c'(1)] c'(1) runCheckpoint_rank [OF c'(1) assms(6)] by blast
qed

text \<open>With one segment a checkpoint is due at the first append.\<close>

lemma drop_value_ok: "drop_value x = Some (st, None) \<Longrightarrow> \<exists>v. x = Some (st, Inr v)"
  by (cases x; cases "snd (the x)") (auto simp: drop_value_def)

lemma create_starts_checkpoint:
  assumes li: "log_inv U opts H fs c" "ckpt c = None" and thr: "threshold (optCheckpointThreshold opts) = 1"
    and ex: "exec no_faults (CreateOp q) fs c = Some ((fs', c'), None)" and li': "log_inv U opts H' fs' c'"
  shows "ckpt c' = Some CkptBegin"
proof -
  have c: "\<not> checkpointing c" using li by (simp add: log_inv_def)
  obtain fs1 c1 c2 r ct where a: "appendLocked no_faults (mk_record OpCreateQueue q []) fs c = Some ((fs1, c1), Inr r)"
    "maybeCheckpoint c1 = Some c2" "c' = c2\<lparr>cat := ct\<rparr>"
    using drop_value_ok [of "coord_CreateQueue no_faults q fs c"] ex unfolding exec_def coord_CreateQueue_def log_catalog_def coord_append_def
    by (auto split: bind_splits sum.splits prod.splits)
  have c1: "checkpointing c1 = checkpointing c" "ckpt c1 = ckpt c"
    using a(1) unfolding appendLocked_def by (auto split: bind_splits prod.splits)
  have "clog c2 = clog c1" using a(2) unfolding maybeCheckpoint_def by (auto split: bind_splits)
  moreover have "wal_ShouldCheckpoint (clog c') = Some True"
  proof -
    obtain s cs d where run: "running s cs d fs' opts (clog c')" using li' unfolding log_inv_def by blast
    then obtain sm w rd where "wal_files (clog c') = Some (sm, w, rd)" "segments sm = all_names s cs" "ckptThreshold sm = 1"
      "wal_mode (clog c') \<noteq> ModeOff"
      using thr by (auto simp: running_def live_def)
    then show ?thesis by (simp add: wal_ShouldCheckpoint_def sm_ShouldCheckpoint_def all_names_def)
  qed
  ultimately have "wal_ShouldCheckpoint (clog c1) = Some True" using a(3) by simp
  then show ?thesis using a(2,3) c c1 unfolding maybeCheckpoint_def by auto
qed

lemma sample_checkpoint:
  obtains fs c H where "durable_run sample_cfg {} (spec (CreateOp ''orders'') log_init) fs c"
    "coord_inv {} (coord_options sample_cfg) H fs c" "length H = 1" "ckpt c = Some CkptBegin"
proof -
  obtain fs c where run: "durable_run sample_cfg {} log_init fs c" "coord_inv {} (coord_options sample_cfg) [] fs c" "ckpt c = None"
    by (rule sample_start)
  let ?op = "CreateOp ''orders''" and ?r = "(record_of (CreateOp ''orders'') (cat c))\<lparr>LSN := Suc (length ([] :: Record list))\<rparr>"
  have ft: "fits (coord_options sample_cfg) (Suc (length ([] :: Record list))) (record_of ?op (cat c))"
    by (rule sample_fits) (simp_all add: record_of_def mk_record_def)
  have lg: "legal ?op (meaning [] log_init)" by (simp add: legal_def log_init_def)
  obtain fs' c' where ex: "exec no_faults ?op fs c = Some ((fs', c'), None)"
    "coord_inv {} (coord_options sample_cfg) ([] @ [?r]) fs' c'"
    "meaning ([] @ [?r]) log_init = spec ?op (meaning [] log_init)"
    by (rule exec_refines [OF run(2) lg _ ft]) (auto simp: needs_def)
  have thr: "threshold (optCheckpointThreshold (coord_options sample_cfg)) = 1"
    by (simp add: threshold_def coord_options_def sample_cfg_def withDefaults_def)
  have li: "log_inv {} (coord_options sample_cfg) [] fs c" "log_inv {} (coord_options sample_cfg) ([] @ [?r]) fs' c'"
    using run(2) ex(2) by (simp_all add: coord_inv_def)
  have "ckpt c' = Some CkptBegin" by (rule create_starts_checkpoint [OF li(1) run(3) thr ex(1) li(2)])
  moreover have "durable_run sample_cfg {} (spec ?op log_init) fs' c'"
    using durable_run.operation [OF run(1) _ sample_room [OF run(2) ft] ex(1)] lg by simp
  ultimately show ?thesis using that [OF _ ex(2)] by simp
qed

theorem checkpoint_terminates_witness:
  "\<exists>fs c fs' c'. durable_run sample_cfg {} (spec (CreateOp ''orders'') log_init) fs c \<and> ckpt c = Some CkptBegin \<and>
     runCheckpoint no_faults (\<lambda>_. sorted_list_of_fset) None fs c = Some (fs', c') \<and> ckpt_rank (ckpt c') < 6"
proof -
  obtain fs c H where run: "durable_run sample_cfg {} (spec (CreateOp ''orders'') log_init) fs c"
    "coord_inv {} (coord_options sample_cfg) H fs c" "length H = 1" "ckpt c = Some CkptBegin"
    by (rule sample_checkpoint)
  have "fits (coord_options sample_cfg) (Suc (length H)) (mk_record OpBeginCheckpoint [] [])"
    by (rule sample_fits) (simp_all add: mk_record_def run(3))
  then have "ckpt_room sample_cfg c" using sample_room [OF run(2)] run(4) by (simp add: ckpt_room_def ckpt_record_def)
  moreover have "new_uid {} None" by (simp add: new_uid_def)
  ultimately obtain fs' c' where "runCheckpoint no_faults (\<lambda>_. sorted_list_of_fset) None fs c = Some (fs', c')"
    "ckpt_rank (ckpt c') < ckpt_rank (ckpt c)"
    using checkpoint_terminates [OF run(1) sample_mode visits_all_sorted _ _ run(4), of None] by blast
  moreover have "ckpt_rank (ckpt c) = 6" by (simp add: run(4) ckpt_rank_def)
  ultimately show ?thesis using run(1,4) by (intro exI [of _ fs] exI [of _ c] exI [of _ fs'] exI [of _ c']) simp
qed

end
