(* ===== verification/Durable_Restore.thy ===== *)
theory Durable_Restore
  imports Durability Durable_MQ
begin

text \<open>
  The start-up of the broker of \<open>durable-mq\<close>: after \<open>RestoreWAL\<close> the queues are those of the
  catalog, if they are at most 128, and each holds exactly the undelivered messages of its name,
  once. \<open>RestoreWAL\<close> is one step here; in the code a worker may already take messages of its
  queue while others are still being restored.
\<close>

section \<open>The queues of a broker that is being restored\<close>

definition contents :: "dur_state \<Rightarrow> string \<Rightarrow> DurMsg list" where
  "contents s n = (case Option.bind (fmlookup (dqueues s) n) (fmlookup (dheap s)) of None \<Rightarrow> [] | Some q \<Rightarrow> ring_contents q)"

definition restore_inv :: "dur_state \<Rightarrow> bool" where
  "restore_inv s \<longleftrightarrow>
     (\<forall>n a. fmlookup (dqueues s) n = Some a \<longrightarrow>
        (\<exists>q. fmlookup (dheap s) a = Some q \<and> ring_inv q \<and> dname q = n \<and> (ring_contents q \<noteq> [] \<longrightarrow> hasWork q))) \<and>
     (\<forall>a. a |\<in>| fmdom (dheap s) \<longrightarrow> a < dnextAddr s) \<and> dnumQueues s = maplen (dqueues s) \<and>
     denqs s = fmempty \<and> (\<forall>a w. fmlookup (dworkers s) a = Some w \<longrightarrow> w = DPopping)"

lemma restore_inv_queue:
  assumes "restore_inv s" "fmlookup (dqueues s) n = Some a"
  obtains q where "fmlookup (dheap s) a = Some q" "ring_inv q" "dname q = n" "contents s n = ring_contents q"
    "ring_contents q \<noteq> [] \<longrightarrow> hasWork q"
  using assms unfolding restore_inv_def contents_def by fastforce

lemma new_queue: "ring_inv (dur_NewQueue n)" "ring_contents (dur_NewQueue n) = []" "dname (dur_NewQueue n) = n"
  by (simp_all add: dur_NewQueue_def ring_inv_def ring_contents_def ring_slots_def initialCapacity_def)

lemma install_queue_ok:
  assumes inv: "restore_inv s" and new: "n |\<notin>| fmdom (dqueues s)"
  shows "restore_inv (install_queue n s)" "fmdom (dqueues (install_queue n s)) = finsert n (fmdom (dqueues s))"
    "contents (install_queue n s) m = contents s m"
proof -
  have fresh: "fmlookup (dheap s) (dnextAddr s) = None"
    using inv unfolding restore_inv_def by (metis fmdom_notD less_irrefl)
  have old: "a \<noteq> dnextAddr s" if "fmlookup (dqueues s) m = Some a" for m a
    using inv that fresh unfolding restore_inv_def by force
  have c: "fcard (finsert n (fmdom (dqueues s))) = Suc (fcard (fmdom (dqueues s)))" using new by (simp add: fcard_finsert_disjoint)
  show "restore_inv (install_queue n s)"
    using inv old new_queue [of n] c unfolding restore_inv_def install_queue_def
    by (auto simp: Let_def maplen_def less_Suc_eq)
  show "fmdom (dqueues (install_queue n s)) = finsert n (fmdom (dqueues s))" by (simp add: install_queue_def Let_def)
  show "contents (install_queue n s) m = contents s m"
    using new old new_queue(2) [of n] by (auto simp: contents_def install_queue_def Let_def fmdom_notD split: option.splits bind_splits)
qed

lemma install_queue_cord [simp]: "dcord (install_queue n s) = dcord s" "dfs (install_queue n s) = dfs s"
  by (simp_all add: install_queue_def Let_def)

text \<open>Up to 128 queues, every name of the catalog becomes an empty queue.\<close>

lemma restore_queues_ok:
  assumes "restore_inv s" "distinct qs" "set qs \<inter> fset (fmdom (dqueues s)) = {}" "dnumQueues s + length qs \<le> 128"
  shows "\<exists>s'. restore_queues flt qs s = Some s' \<and> restore_inv s' \<and>
    fmdom (dqueues s') = fset_of_list qs |\<union>| fmdom (dqueues s) \<and> (\<forall>n. contents s' n = contents s n) \<and>
    dcord s' = dcord s \<and> dfs s' = dfs s"
  using assms
proof (induction qs arbitrary: s)
  case (Cons n qs)
  have new: "n |\<notin>| fmdom (dqueues s)" using Cons.prems(3) by auto
  let ?s = "install_queue n s"
  note i = install_queue_ok [OF Cons.prems(1) new]
  have num: "dnumQueues ?s = dnumQueues s + 1" by (simp add: install_queue_def Let_def)
  have d: "set qs \<inter> fset (fmdom (dqueues ?s)) = {}" unfolding i(2) using Cons.prems(2,3) by auto
  obtain s' where s': "restore_queues flt qs ?s = Some s'" "restore_inv s'"
    "fmdom (dqueues s') = fset_of_list qs |\<union>| fmdom (dqueues ?s)" "\<forall>n. contents s' n = contents ?s n"
    "dcord s' = dcord ?s" "dfs s' = dfs ?s"
    using Cons.IH [OF i(1) _ d] Cons.prems(2,4) num by auto
  have "dur_CreateQueue flt n True s = Some (?s, None)" using new Cons.prems(4) by (simp add: dur_CreateQueue_def)
  then show ?case using s' i(2,3) by simp
qed simp

text \<open>A message added to the queue at an address in the table.\<close>

lemma add_to_heap_restore:
  assumes inv: "restore_inv s" and a: "fmlookup (dqueues s) n = Some a"
  shows "\<exists>s'. add_to_heap a m s = Some s' \<and> restore_inv s' \<and> dqueues s' = dqueues s \<and>
    contents s' n = contents s n @ [m] \<and> (\<forall>k. k \<noteq> n \<longrightarrow> contents s' k = contents s k) \<and> dcord s' = dcord s \<and> dfs s' = dfs s"
proof -
  obtain q where q: "fmlookup (dheap s) a = Some q" "ring_inv q" "dname q = n" "contents s n = ring_contents q"
    by (rule restore_inv_queue [OF inv a])
  obtain q' where q': "AddWake m q = Some q'" "ring_inv q'" "ring_contents q' = ring_contents q @ [m]" "hasWork q'"
    "wqueue.more q' = wqueue.more q"
    using AddWake_ok [OF q(2)] by blast
  have nm: "dname q' = n" using q'(5) q(3) by (cases q; cases q') simp
  have other: "b \<noteq> a" if "fmlookup (dqueues s) k = Some b" "k \<noteq> n" for k b
    using inv that q(1,3) unfolding restore_inv_def by force
  let ?s = "s\<lparr>dheap := fmupd a q' (dheap s)\<rparr>"
  have add: "add_to_heap a m s = Some ?s" using q(1) q'(1) by (simp add: add_to_heap_def)
  have mem: "a |\<in>| fmdom (dheap s)" using q(1) by (rule fmdomI)
  have ri: "restore_inv ?s"
    unfolding restore_inv_def
  proof (intro conjI allI impI)
    fix k b assume kb: "fmlookup (dqueues ?s) k = Some b"
    show "\<exists>x. fmlookup (dheap ?s) b = Some x \<and> ring_inv x \<and> dname x = k \<and> (ring_contents x \<noteq> [] \<longrightarrow> hasWork x)"
    proof (cases "k = n")
      case True
      then show ?thesis using kb a q' nm by simp
    next
      case False
      then show ?thesis using other [of k b] kb inv unfolding restore_inv_def by simp
    qed
  next
    fix b assume "b |\<in>| fmdom (dheap ?s)"
    then show "b < dnextAddr ?s" using inv mem unfolding restore_inv_def by auto
  next
    show "dnumQueues ?s = maplen (dqueues ?s)" "denqs ?s = fmempty" using inv unfolding restore_inv_def by simp_all
    fix b w assume "fmlookup (dworkers ?s) b = Some w"
    then show "w = DPopping" using inv unfolding restore_inv_def by simp
  qed
  have "contents ?s n = contents s n @ [m]" using a q'(3) q(4) by (simp add: contents_def)
  moreover have "contents ?s k = contents s k" if "k \<noteq> n" for k
    using other [OF _ that] by (cases "fmlookup (dqueues s) k") (auto simp: contents_def)
  ultimately show ?thesis using add ri by simp
qed

text \<open>The queue entry of a message that was not delivered to every subscriber.\<close>

definition restored :: "string \<times> DeliveryMessageInfo \<Rightarrow> DurMsg" where
  "restored p = dur_NewQueueMsg (fst p) (Content (snd p)) (dSubList (snd p)) (Some (dAckedSubs (snd p)))"

definition to_restore :: "(string \<times> DeliveryMessageInfo) list \<Rightarrow> DurMsg list" where
  "to_restore ms = map restored (filter (\<lambda>p. hasUnackedSubs (snd p)) ms)"

lemma to_restore_simps [simp]:
  "to_restore [] = []"
  "to_restore (p # ms) = (if hasUnackedSubs (snd p) then restored p # to_restore ms else to_restore ms)"
  by (simp_all add: to_restore_def)

lemma restore_messages_ok:
  assumes "restore_inv s" "n |\<in>| fmdom (dqueues s)"
  shows "\<exists>s'. restore_messages n ms s = Some s' \<and> restore_inv s' \<and> dqueues s' = dqueues s \<and>
    contents s' n = contents s n @ to_restore ms \<and> (\<forall>k. k \<noteq> n \<longrightarrow> contents s' k = contents s k) \<and>
    dcord s' = dcord s \<and> dfs s' = dfs s"
  using assms
proof (induction ms arbitrary: s)
  case (Cons p ms)
  obtain m mi where p: "p = (m, mi)" by (cases p)
  show ?case
  proof (cases "hasUnackedSubs mi")
    case True
    obtain a where a: "fmlookup (dqueues s) n = Some a" using Cons.prems(2) by (rule fmdomE)
    obtain s1 where s1: "add_to_heap a (restored p) s = Some s1" "restore_inv s1" "dqueues s1 = dqueues s"
      "contents s1 n = contents s n @ [restored p]" "\<forall>k. k \<noteq> n \<longrightarrow> contents s1 k = contents s k"
      "dcord s1 = dcord s" "dfs s1 = dfs s"
      using add_to_heap_restore [OF Cons.prems(1) a] by blast
    have e: "EnqueueFromWAL n m (Content mi) (dSubList mi) (dAckedSubs mi) s = Some s1"
      using a s1(1) p by (simp add: EnqueueFromWAL_def restored_def)
    obtain s' where "restore_messages n ms s1 = Some s'" "restore_inv s'" "dqueues s' = dqueues s1"
      "contents s' n = contents s1 n @ to_restore ms" "\<forall>k. k \<noteq> n \<longrightarrow> contents s' k = contents s1 k"
      "dcord s' = dcord s1" "dfs s' = dfs s1"
      using Cons.IH [OF s1(2)] Cons.prems(2) s1(3) by auto
    then show ?thesis using True p e s1 by simp
  next
    case False
    then show ?thesis using Cons.IH [OF Cons.prems] p by simp
  qed
qed simp

text \<open>What the delivery loop adds to the queue of a name.\<close>

definition restored_of :: "orders \<Rightarrow> (string \<times> DeliveryQueueInfo) list \<Rightarrow> string \<Rightarrow> DurMsg list" where
  "restored_of ord ds n =
     (case map_of ds n of None \<Rightarrow> [] | Some di \<Rightarrow> to_restore (ranged (ord (''messages/'' @ n)) di))"

lemma restore_delivery_ok:
  assumes "restore_inv s" "distinct (map fst ds)"
  shows "\<exists>s'. restore_delivery ord ds s = Some s' \<and> restore_inv s' \<and> dqueues s' = dqueues s \<and>
    (\<forall>n. n |\<in>| fmdom (dqueues s) \<longrightarrow> contents s' n = contents s n @ restored_of ord ds n) \<and>
    dcord s' = dcord s \<and> dfs s' = dfs s"
  using assms
proof (induction ds arbitrary: s)
  case (Cons p ds)
  obtain k di where p: "p = (k, di)" by (cases p)
  have nk: "map_of ds k = None" using Cons.prems(2) p by (simp add: map_of_eq_None_iff)
  have ds: "distinct (map fst ds)" using Cons.prems(2) by simp
  show ?case
  proof (cases "k |\<in>| fmdom (dqueues s)")
    case True
    let ?ms = "ranged (ord (''messages/'' @ k)) di"
    obtain s1 where s1: "restore_messages k ?ms s = Some s1" "restore_inv s1" "dqueues s1 = dqueues s"
      "contents s1 k = contents s k @ to_restore ?ms" "\<forall>n. n \<noteq> k \<longrightarrow> contents s1 n = contents s n"
      "dcord s1 = dcord s" "dfs s1 = dfs s"
      using restore_messages_ok [OF Cons.prems(1) True] by blast
    obtain s' where s': "restore_delivery ord ds s1 = Some s'" "restore_inv s'" "dqueues s' = dqueues s1"
      "\<forall>n. n |\<in>| fmdom (dqueues s1) \<longrightarrow> contents s' n = contents s1 n @ restored_of ord ds n"
      "dcord s' = dcord s1" "dfs s' = dfs s1"
      using Cons.IH [OF s1(2) ds] by blast
    have "contents s' n = contents s n @ restored_of ord (p # ds) n" if "n |\<in>| fmdom (dqueues s)" for n
      using that s1(3-5) s'(4) p nk by (cases "n = k") (simp_all add: restored_of_def)
    then show ?thesis using True p s1 s' by simp
  next
    case False
    obtain s' where s': "restore_delivery ord ds s = Some s'" "restore_inv s'" "dqueues s' = dqueues s"
      "\<forall>n. n |\<in>| fmdom (dqueues s) \<longrightarrow> contents s' n = contents s n @ restored_of ord ds n"
      "dcord s' = dcord s" "dfs s' = dfs s"
      using Cons.IH [OF Cons.prems(1) ds] by blast
    have "restored_of ord (p # ds) n = restored_of ord ds n" if "n |\<in>| fmdom (dqueues s)" for n
      using that False p by (auto simp: restored_of_def)
    then show ?thesis using False p s' by simp
  qed
qed (simp add: restored_of_def)

lemma hasUnackedSubs_unacked: "hasUnackedSubs mi \<longleftrightarrow> unacked mi \<noteq> {||}"
  by (auto simp: hasUnackedSubs_def unacked_def)

lemma map_of_ranged: "visits_all ord \<Longrightarrow> map_of (ranged ord m) = fmlookup m"
  unfolding ranged_def by (rule ext) (auto simp: map_of_map_restrict visits_allD restrict_map_def fmlookup_dom_iff)

lemma distinct_ranged: "visits_all ord \<Longrightarrow> distinct (map fst (ranged ord m))"
  by (simp add: ranged_def comp_def visits_allD)

lemma set_ranged: "visits_all ord \<Longrightarrow> set (ranged ord m) = {(k, v). fmlookup m k = Some v}"
  by (auto simp: ranged_def visits_allD fmlookup_dom_iff)

lemma pending_Some:
  "pending d n m = Some mi \<longleftrightarrow> (\<exists>di. fmlookup d n = Some di \<and> fmlookup di m = Some mi) \<and> unacked mi \<noteq> {||}"
  by (auto simp: pending_def find_msg_def split: option.splits bind_splits)

text \<open>The messages restored into a queue are the pending ones, once each.\<close>

lemma restored_of_pending:
  assumes "\<And>t. visits_all (ord t)"
  shows "distinct (map dmsgId (restored_of ord (ranged (ord t) d) n))"
    "set (restored_of ord (ranged (ord t) d) n) = {restored (m, mi) |m mi. pending d n m = Some mi}"
proof -
  have e: "restored_of ord (ranged (ord t) d) n =
      (case fmlookup d n of None \<Rightarrow> [] | Some di \<Rightarrow> to_restore (ranged (ord (''messages/'' @ n)) di))"
    by (simp add: restored_of_def map_of_ranged [OF assms])
  have i: "dmsgId \<circ> restored = fst" by (auto simp: restored_def dur_NewQueueMsg_def)
  have dist: "distinct (map dmsgId (to_restore (ranged (ord u) di)))" for u di
    using distinct_ranged [OF assms] unfolding to_restore_def map_map i by (rule distinct_map_filter)
  show "distinct (map dmsgId (restored_of ord (ranged (ord t) d) n))" unfolding e using dist by (simp split: option.split)
  show "set (restored_of ord (ranged (ord t) d) n) = {restored (m, mi) |m mi. pending d n m = Some mi}"
    unfolding e pending_Some to_restore_def
    by (cases "fmlookup d n") (auto simp: set_ranged [OF assms] hasUnackedSubs_unacked image_iff)
qed

lemma new_broker:
  assumes "NewCoordinatorWithConfig flt cfg fs = Done (fs1, c1)"
  shows "\<exists>s. NewBrokerWithConfig flt cfg fs = Some s \<and> dfs s = fs1 \<and> dcord s = c1 \<and> restore_inv s \<and>
    dqueues s = fmempty \<and> dnumQueues s = 0"
  using assms by (simp add: NewBrokerWithConfig_def restore_inv_def maplen_def)

lemma contents_empty: "dqueues s = fmempty \<Longrightarrow> contents s n = []"
  by (simp add: contents_def)

text \<open>The restored broker, once the log has been replayed.\<close>

lemma RestoreWAL_ok:
  assumes r: "ReplayLog flt (ord ''catalog'') (dfs s) (dcord s) = Some ((fs', c'), Inr (ord ''catalog'' (fmdom ct), d))"
    and inv: "restore_inv s" "dqueues s = fmempty" "dnumQueues s = 0" and few: "maplen ct \<le> 128"
    and ord: "\<And>t. visits_all (ord t)"
  shows "\<exists>s'. RestoreWAL flt ord s = Some (s', Inr ()) \<and> restore_inv s' \<and> dfs s' = fs' \<and> dcord s' = c' \<and>
    fmdom (dqueues s') = fmdom ct \<and>
    (\<forall>n. n |\<in>| fmdom ct \<longrightarrow> contents s' n = restored_of ord (ranged (ord ''delivery'') d) n)"
proof -
  let ?s1 = "s\<lparr>dfs := fs', dcord := c'\<rparr>"
  let ?qs = "ord ''catalog'' (fmdom ct)"
  have w: "with_cord (ReplayLog flt (ord ''catalog'')) s = Some (?s1, Inr (?qs, d))" using r by (simp add: with_cord_def)
  have i1: "restore_inv ?s1" using inv(1) by (simp add: restore_inv_def)
  have len: "length ?qs = maplen ct" using visits_allD [OF ord, of _ "fmdom ct"]
    by (metis distinct_card fcard.rep_eq maplen_def)
  obtain s2 where s2: "restore_queues flt ?qs ?s1 = Some s2" "restore_inv s2"
    "fmdom (dqueues s2) = fset_of_list ?qs |\<union>| fmdom (dqueues ?s1)" "\<forall>n. contents s2 n = contents ?s1 n"
    "dcord s2 = dcord ?s1" "dfs s2 = dfs ?s1"
    using restore_queues_ok [OF i1, of ?qs flt] visits_allD [OF ord] inv(2,3) few len by auto
  have dom: "fmdom (dqueues s2) = fmdom ct"
    unfolding s2(3) by (rule fset_eqI) (simp add: inv(2) fset_of_list.rep_eq visits_allD [OF ord])
  obtain s3 where s3: "restore_delivery ord (ranged (ord ''delivery'') d) s2 = Some s3" "restore_inv s3" "dqueues s3 = dqueues s2"
    "\<forall>n. n |\<in>| fmdom (dqueues s2) \<longrightarrow> contents s3 n = contents s2 n @ restored_of ord (ranged (ord ''delivery'') d) n"
    "dcord s3 = dcord s2" "dfs s3 = dfs s2"
    using restore_delivery_ok [OF s2(2) distinct_ranged [OF ord]] by blast
  show ?thesis using w s2 s3 dom contents_empty [of ?s1] inv(2) by (simp add: RestoreWAL_def)
qed

lemma broker_from_log:
  assumes new: "NewCoordinatorWithConfig no_faults cfg fs' = Done (fs1, c1)"
    and log: "ReplayLog no_faults (ord ''catalog'') fs1 c1 = Some ((fs2, c2), Inr (ord ''catalog'' (fmdom (fst A)), d))" "pending d = snd A"
    and few: "maplen (fst A) \<le> 128" and ord: "\<And>t. visits_all (ord t)"
  shows "\<exists>s0 s. NewBrokerWithConfig no_faults cfg fs' = Some s0 \<and> RestoreWAL no_faults ord s0 = Some (s, Inr ()) \<and>
    restore_inv s \<and> dfs s = fs2 \<and> dcord s = c2 \<and> fmdom (dqueues s) = fmdom (fst A) \<and>
    (\<forall>n a. fmlookup (dqueues s) n = Some a \<longrightarrow>
       (\<exists>q. fmlookup (dheap s) a = Some q \<and> dname q = n \<and> (ring_contents q \<noteq> [] \<longrightarrow> hasWork q) \<and>
          distinct (map dmsgId (ring_contents q)) \<and>
          set (ring_contents q) =
            {dur_NewQueueMsg m (Content mi) (dSubList mi) (Some (dAckedSubs mi)) |m mi. snd A n m = Some mi}))"
proof -
  obtain s0 where s0: "NewBrokerWithConfig no_faults cfg fs' = Some s0" "dfs s0 = fs1" "dcord s0 = c1" "restore_inv s0"
    "dqueues s0 = fmempty" "dnumQueues s0 = 0"
    using new_broker [OF new] by blast
  obtain s where s: "RestoreWAL no_faults ord s0 = Some (s, Inr ())" "restore_inv s" "dfs s = fs2" "dcord s = c2"
    "fmdom (dqueues s) = fmdom (fst A)"
    "\<forall>n. n |\<in>| fmdom (fst A) \<longrightarrow> contents s n = restored_of ord (ranged (ord ''delivery'') d) n"
    using RestoreWAL_ok [where ord = ord, OF log(1) [folded s0(2,3)] s0(4-6) few ord] by blast
  have "\<exists>q. fmlookup (dheap s) a = Some q \<and> dname q = n \<and> (ring_contents q \<noteq> [] \<longrightarrow> hasWork q) \<and>
      distinct (map dmsgId (ring_contents q)) \<and>
      set (ring_contents q) = {dur_NewQueueMsg m (Content mi) (dSubList mi) (Some (dAckedSubs mi)) |m mi. snd A n m = Some mi}"
    if a: "fmlookup (dqueues s) n = Some a" for n a
  proof -
    have n: "n |\<in>| fmdom (fst A)" using fmdomI [OF a] s(5) by simp
    obtain q where q: "fmlookup (dheap s) a = Some q" "dname q = n" "contents s n = ring_contents q"
      "ring_contents q \<noteq> [] \<longrightarrow> hasWork q"
      by (rule restore_inv_queue [OF s(2) a])
    have e: "ring_contents q = restored_of ord (ranged (ord ''delivery'') d) n" using s(6) n q(3) by simp
    show ?thesis
      using q restored_of_pending [where ord = ord and t = "''delivery''", OF ord, of d n] e log(2) by (simp add: restored_def)
  qed
  then show ?thesis using s0(1) s(1-5) by blast
qed

lemma broker_restarts:
  assumes "durable_run cfg U A fs c" "cfgMode cfg \<noteq> ModeOff" "crash cfg c fs fs'" "maplen (fst A) \<le> 128"
    "\<And>t. visits_all (ord t)"
  shows "\<exists>s0 s. NewBrokerWithConfig no_faults cfg fs' = Some s0 \<and> RestoreWAL no_faults ord s0 = Some (s, Inr ()) \<and>
    durable_run cfg U A (dfs s) (dcord s) \<and> fmdom (dqueues s) = fmdom (fst A) \<and>
    (\<forall>n a. fmlookup (dqueues s) n = Some a \<longrightarrow>
       (\<exists>q. fmlookup (dheap s) a = Some q \<and> dname q = n \<and> (ring_contents q \<noteq> [] \<longrightarrow> hasWork q) \<and>
          distinct (map dmsgId (ring_contents q)) \<and>
          set (ring_contents q) =
            {dur_NewQueueMsg m (Content mi) (dSubList mi) (Some (dAckedSubs mi)) |m mi. snd A n m = Some mi}))"
proof -
  obtain fs1 c1 fs2 c2 d where r: "NewCoordinatorWithConfig no_faults cfg fs' = Done (fs1, c1)"
    "ReplayLog no_faults (ord ''catalog'') fs1 c1 = Some ((fs2, c2), Inr (ord ''catalog'' (fmdom (fst A)), d))" "pending d = snd A"
    using crash_restart [OF assms(1-3), of "ord ''catalog''"] by blast
  have "durable_run cfg U A fs2 c2" by (rule durable_run.restart [OF assms(1,3) r(1,2)])
  then show ?thesis using broker_from_log [where ord = ord, OF r assms(4) assms(5)] by blast
qed

lemma sample_orders:
  "fmdom (fst sample_abstract) = {|''orders''|}"
  "snd sample_abstract ''orders'' = (\<lambda>m. if m = ''orders-1''
     then Some \<lparr>Content = ''hello'', dSubList = fmupd ''audit'' sample_policy fmempty, dAckedSubs = {||}\<rparr> else None)"
  "maplen (fst sample_abstract) \<le> 128"
proof -
  show d: "fmdom (fst sample_abstract) = {|''orders''|}"
    by (auto simp: sample_abstract_def sample_spec spec_def log_init_def set_policies_def)
  show "snd sample_abstract ''orders'' = (\<lambda>m. if m = ''orders-1''
     then Some \<lparr>Content = ''hello'', dSubList = fmupd ''audit'' sample_policy fmempty, dAckedSubs = {||}\<rparr> else None)"
    by (auto simp: sample_abstract_def sample_spec spec_def log_init_def set_policies_def subs_of_def put_def keep_def
        unacked_def sample_policy_def)
  show "maplen (fst sample_abstract) \<le> 128" by (simp add: maplen_def d fcard.rep_eq)
qed

end
