(* ===== verification/Durable_Broker.thy ===== *)
theory Durable_Broker
  imports Durable_Restore
begin

text \<open>
  The broker of \<open>durable-mq\<close> in operation, under arbitrary failures of the file system: handlers,
  workers and the checkpoint goroutine interleaved in any way. Nothing panics, the table of queues
  and its counter agree with the catalog, and no wake-up of a worker is lost.
\<close>

section \<open>The coordinator under failures\<close>

text \<open>The log has its files unless it is switched off.\<close>

definition cord_ok :: "Coordinator \<Rightarrow> bool" where
  "cord_ok c \<longleftrightarrow> wal_mode (clog c) = ModeOff \<or> wal_files (clog c) \<noteq> None"

lemma appendLocked_total:
  assumes "cord_ok c"
  obtains fs' c' out where "appendLocked flt rec fs c = Some ((fs', c'), out)" "cord_ok c'" "cat c' = cat c"
    "\<forall>r. out = Inr r \<longrightarrow> (\<exists>l. r = rec\<lparr>LSN := l\<rparr>)"
proof (cases "wal_mode (clog c) = ModeOff")
  case True
  then show ?thesis using that by (auto simp: appendLocked_def wal_Append_def Let_def cord_ok_def)
next
  case False
  then obtain sm w r where f: "wal_files (clog c) = Some (sm, w, r)" using assms by (auto simp: cord_ok_def)
  obtain fs' sm' w' out where a: "writer_Append flt rec fs sm w = ((fs', sm', w'), out)" by (metis prod_cases3 surj_pair)
  have "\<exists>l. x = rec\<lparr>LSN := l\<rparr>" if "out = Inr x" for x
    using a that by (auto simp: writer_Append_def Let_def split: if_splits option.splits prod.splits)
  then have "\<exists>l. x = rec\<lparr>LSN := l\<rparr>" if "map_sum LogError id out = Inr x" for x
    using that by (cases out) auto
  then show ?thesis
    using that [of fs' "c\<lparr>clog := clog c\<lparr>wal_files := Some (sm', w', r)\<rparr>\<rparr>" "map_sum LogError id out"] False f a
    by (simp add: appendLocked_def wal_Append_def cord_ok_def)
qed

lemma maybeCheckpoint_ok:
  assumes "cord_ok c"
  obtains c' where "maybeCheckpoint c = Some c'" "cord_ok c'" "cat c' = cat c"
proof (cases "wal_ShouldCheckpoint (clog c)")
  case None
  then show ?thesis using assms by (simp add: wal_ShouldCheckpoint_def cord_ok_def split: if_splits)
next
  case (Some b)
  then show ?thesis
    using assms that [of c] that [of "c\<lparr>checkpointing := True, ckpt := Some CkptBegin\<rparr>"]
    by (cases "b \<and> \<not> checkpointing c") (auto simp: maybeCheckpoint_def cord_ok_def)
qed

lemma coord_append_total:
  assumes "cord_ok c"
  obtains fs' c' out where "coord_append flt rec fs c = Some ((fs', c'), out)" "cord_ok c'" "cat c' = cat c"
    "\<forall>r. out = Inr r \<longrightarrow> (\<exists>l. r = rec\<lparr>LSN := l\<rparr>)"
proof -
  obtain fs1 c1 out where 1: "appendLocked flt rec fs c = Some ((fs1, c1), out)" "cord_ok c1" "cat c1 = cat c"
    "\<forall>r. out = Inr r \<longrightarrow> (\<exists>l. r = rec\<lparr>LSN := l\<rparr>)"
    by (rule appendLocked_total [OF assms])
  obtain c2 where 2: "maybeCheckpoint c1 = Some c2" "cord_ok c2" "cat c2 = cat c1" by (rule maybeCheckpoint_ok [OF 1(2)])
  show ?thesis
  proof (cases out)
    case (Inl e)
    then show ?thesis using that [of fs1 c1 out] 1 by (simp add: coord_append_def)
  next
    case (Inr r)
    then show ?thesis using that [of fs1 c2 out] 1 2 by (simp add: coord_append_def)
  qed
qed

lemma ProcessRecord_LSN: "ProcessRecord (rec\<lparr>LSN := l\<rparr>) ct = ProcessRecord rec ct"
  by (cases "Op rec") (simp_all add: ProcessRecord_def)

lemma log_catalog_total:
  assumes "cord_ok c"
  obtains fs' c' out where "log_catalog flt rec fs c = Some ((fs', c'), out)" "cord_ok c'"
    "case out of Inl _ \<Rightarrow> cat c' = cat c | Inr _ \<Rightarrow> ProcessRecord rec (cat c) = Inr (cat c')"
proof -
  obtain fs1 c1 out where 1: "coord_append flt rec fs c = Some ((fs1, c1), out)" "cord_ok c1" "cat c1 = cat c"
    "\<forall>r. out = Inr r \<longrightarrow> (\<exists>l. r = rec\<lparr>LSN := l\<rparr>)"
    by (rule coord_append_total [OF assms])
  show ?thesis
  proof (cases out)
    case (Inl e)
    then show ?thesis using that [of fs1 c1 "Inl e"] 1 by (simp add: log_catalog_def)
  next
    case (Inr r)
    then obtain l where l: "r = rec\<lparr>LSN := l\<rparr>" using 1(4) by blast
    have ok: "cord_ok (c1\<lparr>cat := x\<rparr>)" for x using 1(2) by (simp add: cord_ok_def)
    show ?thesis
    proof (cases "ProcessRecord rec (cat c)")
      case (Inl e)
      then show ?thesis using that [of fs1 c1 "Inl (ReplayError e)"] 1 Inr l
        by (simp add: log_catalog_def ProcessRecord_LSN)
    next
      case (Inr ct)
      then show ?thesis using that [of fs1 "c1\<lparr>cat := ct\<rparr>" "Inr ()"] 1 ok \<open>out = Inr r\<close> l
        by (simp add: log_catalog_def ProcessRecord_LSN)
    qed
  qed
qed

section \<open>Operations of the coordinator, run by the broker\<close>

lemma with_cord_eq: "f (dfs s) (dcord s) = Some ((fs', c'), out) \<Longrightarrow> with_cord f s = Some (s\<lparr>dfs := fs', dcord := c'\<rparr>, out)"
  by (simp add: with_cord_def)

text \<open>
  An operation \<open>f\<close> of the coordinator that is total, keeps the log open, and on success takes
  the names of the catalog to \<open>g\<close> of them; it leaves the catalog alone if it fails.
\<close>

definition cord_op :: "(fs \<Rightarrow> Coordinator \<Rightarrow> 'a coord_result) \<Rightarrow> (string fset \<Rightarrow> string fset) \<Rightarrow> bool" where
  "cord_op f g \<longleftrightarrow> (\<forall>fs c. cord_ok c \<longrightarrow> (\<exists>fs' c' out. f fs c = Some ((fs', c'), out) \<and> cord_ok c' \<and>
     fmdom (cat c') = (case out of Inl _ \<Rightarrow> fmdom (cat c) | Inr _ \<Rightarrow> g (fmdom (cat c)))))"

lemma cord_opI:
  assumes "\<And>fs c. cord_ok c \<Longrightarrow> \<exists>fs' c' out. f fs c = Some ((fs', c'), out) \<and> cord_ok c' \<and>
     fmdom (cat c') = (case out of Inl _ \<Rightarrow> fmdom (cat c) | Inr _ \<Rightarrow> g (fmdom (cat c)))"
  shows "cord_op f g"
  using assms by (simp add: cord_op_def)

lemma with_cord_op:
  assumes "cord_op f g" "cord_ok (dcord s)"
  obtains fs' c' out where "with_cord f s = Some (s\<lparr>dfs := fs', dcord := c'\<rparr>, out)" "cord_ok c'"
    "fmdom (cat c') = (case out of Inl _ \<Rightarrow> fmdom (cat (dcord s)) | Inr _ \<Rightarrow> g (fmdom (cat (dcord s))))"
  using assms with_cord_eq unfolding cord_op_def by blast

lemma cord_op_log_catalog:
  assumes "\<And>ct ct'. ProcessRecord rec ct = Inr ct' \<Longrightarrow> fmdom ct' = g (fmdom ct)"
  shows "cord_op (log_catalog flt rec) g"
proof (rule cord_opI)
  fix fs c assume "cord_ok c"
  then obtain fs' c' out where l: "log_catalog flt rec fs c = Some ((fs', c'), out)" "cord_ok c'"
    "case out of Inl _ \<Rightarrow> cat c' = cat c | Inr _ \<Rightarrow> ProcessRecord rec (cat c) = Inr (cat c')"
    by (rule log_catalog_total)
  show "\<exists>fs' c' out. log_catalog flt rec fs c = Some ((fs', c'), out) \<and> cord_ok c' \<and>
     fmdom (cat c') = (case out of Inl _ \<Rightarrow> fmdom (cat c) | Inr _ \<Rightarrow> g (fmdom (cat c)))"
  proof (cases out)
    case (Inl e)
    then show ?thesis using l by simp
  next
    case (Inr u)
    then show ?thesis using l(1,2) l(3) assms by simp
  qed
qed

lemma cord_op_append: "cord_op (\<lambda>fs c. Option.bind (coord_append flt rec fs c) (\<lambda>((fs', c'), out). Some ((fs', c'), map_sum id h out))) id"
proof (rule cord_opI)
  fix fs c assume "cord_ok c"
  then obtain fs' c' out where "coord_append flt rec fs c = Some ((fs', c'), out)" "cord_ok c'" "cat c' = cat c"
    by (rule coord_append_total)
  then show "\<exists>fs' c' out. Option.bind (coord_append flt rec fs c) (\<lambda>((fs', c'), out). Some ((fs', c'), map_sum id h out)) = Some ((fs', c'), out) \<and>
     cord_ok c' \<and> fmdom (cat c') = (case out of Inl _ \<Rightarrow> fmdom (cat c) | Inr _ \<Rightarrow> id (fmdom (cat c)))"
    by (simp split: sum.split)
qed

lemma cord_op_guard:
  assumes "cord_op f g"
  shows "cord_op (\<lambda>fs c. if P c then Some ((fs, c), Inl (E c)) else f fs c) g"
  using assms unfolding cord_op_def by simp

lemma process_dom:
  "ProcessRecord (mk_record OpCreateQueue n b) ct = Inr ct' \<Longrightarrow> fmdom ct' = finsert n (fmdom ct)"
  "ProcessRecord (mk_record OpDeleteQueue n b) ct = Inr ct' \<Longrightarrow> fmdom ct' = fmdom ct |-| {|n|}"
  "ProcessRecord (mk_record OpUpdateSubPolicy n b) ct = Inr ct' \<Longrightarrow> fmdom ct' = id (fmdom ct)"
  "ProcessRecord (mk_record OpDeleteSubPolicy n b) ct = Inr ct' \<Longrightarrow> fmdom ct' = id (fmdom ct)"
  by (auto simp: ProcessRecord_def mk_record_def createQueue_def removeQueue_def updateSubPolicy_def removeSubPolicy_def
      fmlookup_dom_iff split: option.splits)

lemma cord_ops:
  "cord_op (coord_CreateQueue flt n) (finsert n)"
  "cord_op (coord_DeleteQueue flt n) (\<lambda>d. d |-| {|n|})"
  "cord_op (coord_UpdateSubPolicy flt n pol) id"
  "cord_op (coord_DeleteSubPolicy flt n sub) id"
  "cord_op (coord_Enqueue flt n m content) id"
  "cord_op (coord_Ack flt n m sub) id"
proof -
  show "cord_op (coord_CreateQueue flt n) (finsert n)"
    unfolding coord_CreateQueue_def by (rule cord_op_log_catalog) (rule process_dom)
  show "cord_op (coord_DeleteQueue flt n) (\<lambda>d. d |-| {|n|})"
    unfolding coord_DeleteQueue_def by (rule cord_op_guard [OF cord_op_log_catalog]) (rule process_dom)
  show "cord_op (coord_UpdateSubPolicy flt n pol) id"
    unfolding coord_UpdateSubPolicy_def by (rule cord_op_guard [OF cord_op_log_catalog]) (rule process_dom)
  show "cord_op (coord_DeleteSubPolicy flt n sub) id"
    unfolding coord_DeleteSubPolicy_def by (rule cord_op_guard [OF cord_op_log_catalog]) (rule process_dom)
  show "cord_op (coord_Ack flt n m sub) id"
    unfolding coord_Ack_def by (rule cord_op_append)
  show "cord_op (coord_Enqueue flt n m content) id"
  proof (rule cord_opI)
    fix fs c assume ok: "cord_ok c"
    show "\<exists>fs' c' out. coord_Enqueue flt n m content fs c = Some ((fs', c'), out) \<and> cord_ok c' \<and>
      fmdom (cat c') = (case out of Inl _ \<Rightarrow> fmdom (cat c) | Inr _ \<Rightarrow> id (fmdom (cat c)))"
    proof (cases "FetchQueueSubList n (cat c)")
      case None
      then show ?thesis using ok by (simp add: coord_Enqueue_def)
    next
      case (Some subs)
      obtain fs' c' out where "coord_append flt (mk_record OpEnqueue n
          (EncodeEnqueue \<lparr>enqMsgId = m, MsgContent = content, SubList = subs\<rparr>)) fs c = Some ((fs', c'), out)"
        "cord_ok c'" "cat c' = cat c"
        by (rule coord_append_total [OF ok])
      then show ?thesis using Some ok by (simp add: coord_Enqueue_def split: sum.split)
    qed
  qed
qed

section \<open>The invariant\<close>

definition dcell_ok :: "DurQueue \<Rightarrow> dur_pc \<Rightarrow> bool" where
  "dcell_ok q w \<longleftrightarrow> ring_inv q \<and> (w = DSelecting \<longrightarrow> ring_contents q \<noteq> [] \<longrightarrow> hasWork q) \<and> (w = DExited \<longrightarrow> isClosed q)"

definition dheap_ok :: "dur_state \<Rightarrow> nat \<Rightarrow> bool" where
  "dheap_ok s a \<longleftrightarrow>
     (case (fmlookup (dheap s) a, fmlookup (dworkers s) a) of
        (None, None) \<Rightarrow> True
      | (Some q, Some w) \<Rightarrow> a < dnextAddr s \<and> dcell_ok q w \<and>
          (\<not> isClosed q \<longrightarrow> fmlookup (dqueues s) (dname q) = Some a)
      | _ \<Rightarrow> False)"

text \<open>A request holds the queue it looked up.\<close>

fun enq_ok :: "dur_state \<Rightarrow> enq_pc \<Rightarrow> bool" where
  "enq_ok s (EnqLookup _ _) = True"
| "enq_ok s (EnqLog a _ _) = (a |\<in>| fmdom (dheap s))"
| "enq_ok s (EnqAdd a _) = (a |\<in>| fmdom (dheap s))"

definition tab_inv :: "dur_state \<Rightarrow> bool" where
  "tab_inv s \<longleftrightarrow> dnumQueues s = maplen (dqueues s) \<and> dnumQueues s \<le> 128 \<and>
     (\<forall>n a. fmlookup (dqueues s) n = Some a \<longrightarrow>
        (\<exists>q. fmlookup (dheap s) a = Some q \<and> dname q = n \<and> \<not> isClosed q)) \<and>
     (\<forall>a. dheap_ok s a) \<and> (\<forall>h pc. fmlookup (denqs s) h = Some pc \<longrightarrow> enq_ok s pc)"

definition dur_inv :: "dur_state \<Rightarrow> bool" where
  "dur_inv s \<longleftrightarrow> tab_inv s \<and> cord_ok (dcord s) \<and> fmdom (dqueues s) |\<subseteq>| fmdom (cat (dcord s))"

lemma enq_ok_cong: "fmdom (dheap s) |\<subseteq>| fmdom (dheap s') \<Longrightarrow> enq_ok s pc \<Longrightarrow> enq_ok s' pc"
  by (cases pc) auto

lemma tab_frame:
  assumes "dheap s' = dheap s" "dworkers s' = dworkers s" "dqueues s' = dqueues s" "dnextAddr s' = dnextAddr s"
  shows "dheap_ok s' = dheap_ok s" "enq_ok s' pc = enq_ok s pc"
  unfolding dheap_ok_def [abs_def] assms by (rule refl) (cases pc; simp add: assms(1))

lemma tab_inv_cord [simp]: "tab_inv (s\<lparr>dfs := fs', dcord := c'\<rparr>) = tab_inv s"
  unfolding tab_inv_def using tab_frame [of "s\<lparr>dfs := fs', dcord := c'\<rparr>" s] by simp

lemma tab_invI:
  assumes "dnumQueues s = maplen (dqueues s)" "dnumQueues s \<le> 128"
    "\<And>n a. fmlookup (dqueues s) n = Some a \<Longrightarrow> \<exists>q. fmlookup (dheap s) a = Some q \<and> dname q = n \<and> \<not> isClosed q"
    "\<And>a. dheap_ok s a" "\<And>h pc. fmlookup (denqs s) h = Some pc \<Longrightarrow> enq_ok s pc"
  shows "tab_inv s"
  using assms unfolding tab_inv_def by blast

lemma tab_inv_cell:
  assumes "tab_inv s" "fmlookup (dheap s) a = Some q"
  obtains w where "fmlookup (dworkers s) a = Some w" "dcell_ok q w" "a < dnextAddr s"
proof -
  have "dheap_ok s a" using assms(1) by (simp add: tab_inv_def)
  with assms(2) show ?thesis
    by (auto simp: dheap_ok_def split: option.splits intro: that)
qed

lemma tab_inv_queue:
  assumes "tab_inv s" "fmlookup (dqueues s) n = Some a"
  obtains q w where "fmlookup (dheap s) a = Some q" "fmlookup (dworkers s) a = Some w" "dcell_ok q w"
    "dname q = n" "\<not> isClosed q"
  using assms tab_inv_cell [OF assms(1)] unfolding tab_inv_def by metis

text \<open>An operation on one queue and its worker.\<close>

lemma tab_inv_upd:
  assumes "tab_inv s" "fmlookup (dheap s) a = Some q" "dcell_ok q' w'" "dname q' = dname q" "isClosed q' = isClosed q"
  shows "tab_inv (s\<lparr>dheap := fmupd a q' (dheap s), dworkers := fmupd a w' (dworkers s)\<rparr>)"
proof -
  let ?s = "s\<lparr>dheap := fmupd a q' (dheap s), dworkers := fmupd a w' (dworkers s)\<rparr>"
  have old: "dheap_ok s b" for b using assms(1) by (simp add: tab_inv_def)
  have "dheap_ok ?s b" for b
    using old [of b] assms by (auto simp: dheap_ok_def split: option.splits)
  moreover have "\<exists>r. fmlookup (fmupd a q' (dheap s)) b = Some r \<and> dname r = n \<and> \<not> isClosed r"
    if "fmlookup (dqueues s) n = Some b" for n b
    using that assms unfolding tab_inv_def by (metis fmupd_lookup option.inject)
  moreover have "enq_ok ?s pc" if "fmlookup (denqs s) h = Some pc" for h pc
  proof (rule enq_ok_cong)
    show "enq_ok s pc" using that assms(1) unfolding tab_inv_def by blast
  qed auto
  ultimately show ?thesis
    using assms(1) unfolding tab_inv_def by (auto simp del: fmupd_lookup)
qed

lemma tab_inv_upd_heap:
  assumes "tab_inv s" "fmlookup (dheap s) a = Some q" "fmlookup (dworkers s) a = Some w" "dcell_ok q' w"
    "dname q' = dname q" "isClosed q' = isClosed q"
  shows "tab_inv (s\<lparr>dheap := fmupd a q' (dheap s)\<rparr>)"
  using tab_inv_upd [OF assms(1,2,4,5,6)] assms(3) by (simp add: fmupd_same)

lemma tab_inv_upd_worker:
  assumes "tab_inv s" "fmlookup (dheap s) a = Some q" "dcell_ok q w'"
  shows "tab_inv (set_pc a w' s)"
  using tab_inv_upd [OF assms(1,2,3) refl refl] assms(2) by (simp add: fmupd_same set_pc_def)

lemma dname_more: "wqueue.more q' = wqueue.more q \<Longrightarrow> dname q' = dname q"
  by (cases q; cases q') simp

lemma dcell_ok_AddWake:
  assumes "dcell_ok q w"
  obtains q' where "AddWake m q = Some q'" "dcell_ok q' w" "dname q' = dname q" "isClosed q' = isClosed q"
    "ring_contents q' = ring_contents q @ [m]"
proof -
  have "ring_inv q" using assms by (simp add: dcell_ok_def)
  from AddWake_ok [OF this, of m] obtain q' where q': "AddWake m q = Some q'" "ring_inv q'" "ring_contents q' = ring_contents q @ [m]"
    "hasWork q'" "isClosed q' = isClosed q" "wqueue.more q' = wqueue.more q"
    by (elim exE conjE)
  then have "dcell_ok q' w" using assms by (simp add: dcell_ok_def)
  then show ?thesis by (rule that [OF q'(1) _ dname_more [OF q'(6)] q'(5,3)])
qed

lemma add_to_heap_ok:
  assumes "tab_inv s" "a |\<in>| fmdom (dheap s)"
  obtains h' where "add_to_heap a m s = Some (s\<lparr>dheap := h'\<rparr>)" "tab_inv (s\<lparr>dheap := h'\<rparr>)" "fmdom h' = fmdom (dheap s)"
proof -
  obtain q where q: "fmlookup (dheap s) a = Some q" using assms(2) by (rule fmdomE)
  obtain w where w: "fmlookup (dworkers s) a = Some w" "dcell_ok q w" by (rule tab_inv_cell [OF assms(1) q])
  obtain q' where q': "AddWake m q = Some q'" "dcell_ok q' w" "dname q' = dname q" "isClosed q' = isClosed q"
    by (rule dcell_ok_AddWake [OF w(2)])
  have "tab_inv (s\<lparr>dheap := fmupd a q' (dheap s)\<rparr>)" by (rule tab_inv_upd_heap [OF assms(1) q w(1) q'(2-4)])
  moreover have "fmdom (fmupd a q' (dheap s)) = fmdom (dheap s)" using assms(2) by auto
  ultimately show ?thesis using that [of "fmupd a q' (dheap s)"] q q'(1) by (simp add: add_to_heap_def)
qed

lemma tab_inv_enqs:
  assumes "tab_inv s" "\<And>h pc. fmlookup e h = Some pc \<Longrightarrow> enq_ok s pc"
  shows "tab_inv (s\<lparr>denqs := e\<rparr>)"
  using assms tab_frame [of "s\<lparr>denqs := e\<rparr>" s] unfolding tab_inv_def by (simp; blast)

lemma tab_inv_enqs_drop: "tab_inv s \<Longrightarrow> tab_inv (s\<lparr>denqs := fmdrop h (denqs s)\<rparr>)"
  by (rule tab_inv_enqs) (auto simp: tab_inv_def split: if_splits)

lemma tab_inv_enqs_upd: "tab_inv s \<Longrightarrow> enq_ok s pc \<Longrightarrow> tab_inv (s\<lparr>denqs := fmupd h pc (denqs s)\<rparr>)"
  by (rule tab_inv_enqs) (auto simp: tab_inv_def split: if_splits)

section \<open>Every operation keeps the invariant and none panics\<close>

text \<open>The table holds every queue of the catalog: no restart met more than 128.\<close>

definition dur_sync :: "dur_state \<Rightarrow> bool" where
  "dur_sync s \<longleftrightarrow> fmdom (dqueues s) = fmdom (cat (dcord s))"

definition keeps_inv :: "dur_state \<Rightarrow> dur_state \<Rightarrow> bool" where
  "keeps_inv s s' \<longleftrightarrow> dur_inv s' \<and> (dur_sync s \<longrightarrow> dur_sync s')"

lemma keeps_inv_refl: "dur_inv s \<Longrightarrow> keeps_inv s s"
  by (simp add: keeps_inv_def)

text \<open>A step that leaves the table and the names of the catalog as they are.\<close>

lemma keeps_inv_local:
  assumes "dur_inv s" "tab_inv s'" "cord_ok (dcord s')" "dqueues s' = dqueues s" "fmdom (cat (dcord s')) = fmdom (cat (dcord s))"
  shows "keeps_inv s s'"
  using assms by (simp add: keeps_inv_def dur_inv_def dur_sync_def)

lemma install_queue_tab:
  assumes "tab_inv s" "n |\<notin>| fmdom (dqueues s)" "dnumQueues s < 128"
  shows "tab_inv (install_queue n s)"
proof -
  let ?a = "dnextAddr s" and ?s = "install_queue n s"
  have old: "dheap_ok s b" for b using assms(1) by (simp add: tab_inv_def)
  have fresh: "fmlookup (dheap s) ?a = None"
    using old [of ?a] by (auto simp: dheap_ok_def split: option.splits)
  have f: "dqueues ?s = fmupd n ?a (dqueues s)" "dheap ?s = fmupd ?a (dur_NewQueue n) (dheap s)"
    "dworkers ?s = fmupd ?a DPopping (dworkers s)" "dnextAddr ?s = Suc ?a" "denqs ?s = denqs s" "dnumQueues ?s = Suc (dnumQueues s)"
    by (simp_all add: install_queue_def Let_def)
  have new: "dcell_ok (dur_NewQueue n) DPopping" "\<not> isClosed (dur_NewQueue n)"
    using new_queue(1) by (simp_all add: dcell_ok_def dur_NewQueue_def)
  have "dheap_ok ?s b" for b
  proof (cases "b = ?a")
    case True
    then show ?thesis using new new_queue(3) [of n] by (simp add: dheap_ok_def f)
  next
    case False
    then show ?thesis using old [of b] assms(2) by (auto simp: dheap_ok_def f fmlookup_dom_iff split: option.splits)
  qed
  moreover have "\<exists>r. fmlookup (dheap ?s) b = Some r \<and> dname r = m \<and> \<not> isClosed r"
    if "fmlookup (dqueues ?s) m = Some b" for m b
  proof (cases "m = n")
    case True
    then show ?thesis using that new(2) new_queue(3) [of n] by (simp add: f)
  next
    case False
    then have "fmlookup (dqueues s) m = Some b" using that by (simp add: f)
    then obtain r where "fmlookup (dheap s) b = Some r" "dname r = m" "\<not> isClosed r"
      using assms(1) unfolding tab_inv_def by blast
    then show ?thesis using fresh by (auto simp: f)
  qed
  moreover have "enq_ok ?s pc" if "fmlookup (denqs s) h = Some pc" for h pc
  proof (rule enq_ok_cong)
    show "enq_ok s pc" using that assms(1) unfolding tab_inv_def by blast
  qed (simp add: f fsubset_finsertI)
  moreover have "dnumQueues ?s = maplen (dqueues ?s)"
    using assms(1,2) by (simp add: maplen_def f fcard_finsert_disjoint tab_inv_def)
  ultimately show ?thesis using assms(3) by (intro tab_invI) (simp_all add: f(5,6))
qed

lemma install_queue_queues [simp]: "dqueues (install_queue n s) = fmupd n (dnextAddr s) (dqueues s)"
  by (simp add: install_queue_def Let_def)

lemma dur_CreateQueue_inv:
  assumes inv: "dur_inv s" and known: "fromWAL \<longrightarrow> n |\<in>| fmdom (cat (dcord s))"
  shows "\<exists>s' e. dur_CreateQueue flt n fromWAL s = Some (s', e) \<and> dur_inv s' \<and> (\<not> fromWAL \<longrightarrow> dur_sync s \<longrightarrow> dur_sync s') \<and>
    (fromWAL \<longrightarrow> dcord s' = dcord s)"
proof (cases "n |\<in>| fmdom (dqueues s) \<or> dnumQueues s \<ge> 128")
  case True
  then show ?thesis using inv by (auto simp: dur_CreateQueue_def)
next
  case False
  have tab: "tab_inv s" "cord_ok (dcord s)" "fmdom (dqueues s) |\<subseteq>| fmdom (cat (dcord s))" using inv by (simp_all add: dur_inv_def)
  have new: "tab_inv (install_queue n s')" if "tab_inv s'" "dqueues s' = dqueues s" "dnumQueues s' = dnumQueues s" for s'
    using install_queue_tab [OF that(1)] that(2,3) False by simp
  show ?thesis
  proof (cases fromWAL)
    case True
    then show ?thesis using False new [of s] tab known by (auto simp: dur_CreateQueue_def dur_inv_def)
  next
    case nw: False
    obtain fs' c' out where w: "with_cord (coord_CreateQueue flt n) s = Some (s\<lparr>dfs := fs', dcord := c'\<rparr>, out)" "cord_ok c'"
      "fmdom (cat c') = (case out of Inl _ \<Rightarrow> fmdom (cat (dcord s)) | Inr _ \<Rightarrow> finsert n (fmdom (cat (dcord s))))"
      by (rule with_cord_op [OF cord_ops(1) tab(2)])
    show ?thesis
    proof (cases out)
      case (Inl e)
      then show ?thesis using False nw w tab by (simp add: dur_CreateQueue_def dur_inv_def dur_sync_def)
    next
      case (Inr u)
      then show ?thesis using False nw w tab new [of "s\<lparr>dfs := fs', dcord := c'\<rparr>"]
        by (auto simp: dur_CreateQueue_def dur_inv_def dur_sync_def)
    qed
  qed
qed

lemma close_queue_tab:
  assumes "tab_inv s" and a: "fmlookup (dqueues s) n = Some a" and q: "fmlookup (dheap s) a = Some q"
  shows "tab_inv (s\<lparr>dqueues := fmdrop n (dqueues s), dnumQueues := dnumQueues s - 1, dheap := fmupd a (q\<lparr>isClosed := True\<rparr>) (dheap s)\<rparr>)"
    (is "tab_inv ?s")
proof -
  obtain w where w: "fmlookup (dworkers s) a = Some w" "dcell_ok q w" by (rule tab_inv_cell [OF assms(1) q])
  have nm: "dname q = n" using tab_inv_queue [OF assms(1) a] q by force
  have old: "dheap_ok s b" for b using assms(1) by (simp add: tab_inv_def)
  have cell: "dcell_ok (q\<lparr>isClosed := True\<rparr>) w" using w(2) by (simp add: dcell_ok_def)
  have "dheap_ok ?s b" for b
    using old [of b] a q w cell by (auto simp: dheap_ok_def split: option.splits)
  moreover have "\<exists>r. fmlookup (dheap ?s) b = Some r \<and> dname r = m \<and> \<not> isClosed r"
    if "fmlookup (dqueues ?s) m = Some b" for m b
  proof -
    have m: "m \<noteq> n" "fmlookup (dqueues s) m = Some b" using that by (auto split: if_splits)
    then obtain r where r: "fmlookup (dheap s) b = Some r" "dname r = m" "\<not> isClosed r"
      using assms(1) unfolding tab_inv_def by blast
    then have "b \<noteq> a" using q nm m(1) by auto
    then show ?thesis using r by simp
  qed
  moreover have "enq_ok ?s pc" if "fmlookup (denqs s) h = Some pc" for h pc
  proof (rule enq_ok_cong)
    show "enq_ok s pc" using that assms(1) unfolding tab_inv_def by blast
  qed auto
  moreover have "dnumQueues ?s = maplen (dqueues ?s)" "dnumQueues ?s \<le> 128"
    using fmdomI [OF a] assms(1) by (simp_all add: maplen_def fcard_fminus_finsert tab_inv_def le_diff_conv)
  ultimately show ?thesis by (intro tab_invI) simp_all
qed

lemma dur_DeleteQueue_inv:
  assumes inv: "dur_inv s"
  shows "\<exists>s' e. dur_DeleteQueue flt n s = Some (s', e) \<and> keeps_inv s s'"
proof (cases "fmlookup (dqueues s) n")
  case None
  then show ?thesis using keeps_inv_refl [OF inv] by (simp add: dur_DeleteQueue_def)
next
  case (Some a)
  have tab: "tab_inv s" "cord_ok (dcord s)" "fmdom (dqueues s) |\<subseteq>| fmdom (cat (dcord s))" using inv by (simp_all add: dur_inv_def)
  obtain q where q: "fmlookup (dheap s) a = Some q" "\<not> isClosed q" by (rule tab_inv_queue [OF tab(1) Some])
  obtain fs' c' out where w: "with_cord (coord_DeleteQueue flt n) s = Some (s\<lparr>dfs := fs', dcord := c'\<rparr>, out)" "cord_ok c'"
    "fmdom (cat c') = (case out of Inl _ \<Rightarrow> fmdom (cat (dcord s)) | Inr _ \<Rightarrow> fmdom (cat (dcord s)) |-| {|n|})"
    by (rule with_cord_op [OF cord_ops(2) tab(2)])
  show ?thesis
  proof (cases out)
    case (Inl e)
    then show ?thesis using Some w tab keeps_inv_local [OF inv, of "s\<lparr>dfs := fs', dcord := c'\<rparr>"] by (simp add: dur_DeleteQueue_def)
  next
    case (Inr u)
    let ?s = "s\<lparr>dfs := fs', dcord := c'\<rparr>"
    let ?t = "?s\<lparr>dqueues := fmdrop n (dqueues ?s), dnumQueues := dnumQueues ?s - 1, dheap := fmupd a (q\<lparr>isClosed := True\<rparr>) (dheap ?s)\<rparr>"
    have "tab_inv ?t" by (rule close_queue_tab) (use tab(1) Some q(1) in simp_all)
    then have "keeps_inv s ?t" using w(2,3) tab(3) Inr by (auto simp: keeps_inv_def dur_inv_def dur_sync_def)
    moreover have "dur_DeleteQueue flt n s = Some (?t, None)"
      using Some w(1) Inr q by (simp add: dur_DeleteQueue_def close_chan_def)
    ultimately show ?thesis by blast
  qed
qed

lemma dur_Enqueue_inv:
  assumes inv: "dur_inv s"
  shows "\<exists>s' e. dur_Enqueue flt uuid h s = Some (s', e) \<and> keeps_inv s s'"
proof (cases "fmlookup (denqs s) h")
  case None
  then show ?thesis using keeps_inv_refl [OF inv] by (simp add: dur_Enqueue_def)
next
  case (Some pc)
  have tab: "tab_inv s" "cord_ok (dcord s)" using inv by (simp_all add: dur_inv_def)
  have pc: "enq_ok s pc" using tab(1) Some unfolding tab_inv_def by blast
  note loc = keeps_inv_local [OF inv]
  show ?thesis
  proof (cases pc)
    case (EnqLookup n p)
    show ?thesis
    proof (cases "fmlookup (dqueues s) n")
      case None
      then show ?thesis using Some EnqLookup tab loc [OF tab_inv_enqs_drop [OF tab(1)]] by (simp add: dur_Enqueue_def)
    next
      case a: (Some a)
      obtain q where "fmlookup (dheap s) a = Some q" by (rule tab_inv_queue [OF tab(1) a])
      then have "enq_ok s (EnqLog a n p)" by (simp add: fmdomI)
      then show ?thesis using Some EnqLookup a tab loc [OF tab_inv_enqs_upd [OF tab(1)]] by (simp add: dur_Enqueue_def)
    qed
  next
    case (EnqLog a n p)
    let ?m = "n @ ''-'' @ uuid"
    obtain fs' c' out where w: "with_cord (coord_Enqueue flt n ?m p) s = Some (s\<lparr>dfs := fs', dcord := c'\<rparr>, out)" "cord_ok c'"
      "fmdom (cat c') = (case out of Inl _ \<Rightarrow> fmdom (cat (dcord s)) | Inr _ \<Rightarrow> id (fmdom (cat (dcord s))))"
      by (rule with_cord_op [OF cord_ops(5) tab(2)])
    let ?s = "s\<lparr>dfs := fs', dcord := c'\<rparr>"
    have t: "tab_inv ?s" using tab(1) by simp
    have d: "fmdom (cat c') = fmdom (cat (dcord s))" using w(3) by (simp split: sum.splits)
    have e: "enq_ok ?s (EnqAdd a m)" for m using pc EnqLog by simp
    show ?thesis
    proof (cases out)
      case (Inl x)
      have "keeps_inv s (?s\<lparr>denqs := fmdrop h (denqs ?s)\<rparr>)" by (rule loc [OF tab_inv_enqs_drop [OF t]]) (use w(2) d in simp_all)
      then show ?thesis using Some EnqLog w(1) Inl by (simp add: dur_Enqueue_def Let_def)
    next
      case (Inr subs)
      let ?pc = "EnqAdd a (dur_NewQueueMsg ?m p subs None)"
      have "keeps_inv s (?s\<lparr>denqs := fmupd h ?pc (denqs ?s)\<rparr>)" by (rule loc [OF tab_inv_enqs_upd [OF t e]]) (use w(2) d in simp_all)
      then show ?thesis using Some EnqLog w(1) Inr by (simp add: dur_Enqueue_def Let_def)
    qed
  next
    case (EnqAdd a m)
    then have "a |\<in>| fmdom (dheap s)" using pc by simp
    then obtain h' where h': "add_to_heap a m s = Some (s\<lparr>dheap := h'\<rparr>)" "tab_inv (s\<lparr>dheap := h'\<rparr>)"
      by (rule add_to_heap_ok [OF tab(1)])
    have "keeps_inv s (s\<lparr>dheap := h', denqs := fmdrop h (denqs s)\<rparr>)"
      using loc [OF tab_inv_enqs_drop [OF h'(2)]] tab(2) by simp
    then show ?thesis using Some EnqAdd h'(1) by (simp add: dur_Enqueue_def)
  qed
qed

lemma dur_subscriber_inv:
  assumes inv: "dur_inv s"
  shows "\<exists>s' e. dur_AddSubscriber flt pol n s = Some (s', e) \<and> keeps_inv s s'"
    "\<exists>s' e. dur_UpdateSubscriber flt pol n s = Some (s', e) \<and> keeps_inv s s'"
    "\<exists>s' e. dur_RemoveSubscriber flt sub n s = Some (s', e) \<and> keeps_inv s s'"
proof -
  have tab: "tab_inv s" "cord_ok (dcord s)" using inv by (simp_all add: dur_inv_def)
  have op: "\<exists>s' e. lift_cord (with_cord f s) = Some (s', e) \<and> keeps_inv s s'" if f: "cord_op f id" for f :: "fs \<Rightarrow> Coordinator \<Rightarrow> 'b coord_result"
  proof -
    obtain fs' c' out where w: "with_cord f s = Some (s\<lparr>dfs := fs', dcord := c'\<rparr>, out)" "cord_ok c'"
      "fmdom (cat c') = (case out of Inl _ \<Rightarrow> fmdom (cat (dcord s)) | Inr _ \<Rightarrow> id (fmdom (cat (dcord s))))"
      by (rule with_cord_op [OF f tab(2)])
    have "keeps_inv s (s\<lparr>dfs := fs', dcord := c'\<rparr>)"
      by (rule keeps_inv_local [OF inv]) (use tab w(2,3) in \<open>simp_all split: sum.splits\<close>)
    then show ?thesis using w(1) by (simp add: lift_cord_def)
  qed
  show "\<exists>s' e. dur_AddSubscriber flt pol n s = Some (s', e) \<and> keeps_inv s s'"
    "\<exists>s' e. dur_UpdateSubscriber flt pol n s = Some (s', e) \<and> keeps_inv s s'"
    "\<exists>s' e. dur_RemoveSubscriber flt sub n s = Some (s', e) \<and> keeps_inv s s'"
    unfolding dur_AddSubscriber_def dur_UpdateSubscriber_def dur_RemoveSubscriber_def using op cord_ops(3,4) by blast+
qed

lemma dur_settle_one_inv:
  assumes inv: "dur_inv s"
  obtains s' m' rem' where "dur_settle_one flt n pol r m rem s = Some (s', m', rem')" "keeps_inv s s'"
    "dheap s' = dheap s" "dworkers s' = dworkers s"
proof (cases "dur_judge pol r m")
  case (Pair m' acked)
  have tab: "tab_inv s" "cord_ok (dcord s)" using inv by (simp_all add: dur_inv_def)
  obtain fs' c' out where w: "with_cord (coord_Ack flt n (dmsgId m') (fst r)) s = Some (s\<lparr>dfs := fs', dcord := c'\<rparr>, out)" "cord_ok c'"
    "fmdom (cat c') = (case out of Inl _ \<Rightarrow> fmdom (cat (dcord s)) | Inr _ \<Rightarrow> id (fmdom (cat (dcord s))))"
    by (rule with_cord_op [OF cord_ops(6) tab(2)])
  have k: "keeps_inv s (s\<lparr>dfs := fs', dcord := c'\<rparr>)"
    by (rule keeps_inv_local [OF inv]) (use tab w(2,3) in \<open>simp_all split: sum.splits\<close>)
  show ?thesis
  proof (cases acked)
    case False
    then show ?thesis using that [OF _ keeps_inv_refl [OF inv]] Pair by (simp add: dur_settle_one_def)
  next
    case True
    then show ?thesis using that [OF _ k] Pair w(1) by (cases out) (simp_all add: dur_settle_one_def)
  qed
qed

lemma dur_worker_inv:
  assumes inv: "dur_inv s"
  shows "\<exists>s'. dur_worker flt http ord pick a s = Some s' \<and> keeps_inv s s'"
proof (cases "fmlookup (dheap s) a")
  case None
  then show ?thesis using keeps_inv_refl [OF inv] by (simp add: dur_worker_def)
next
  case (Some q)
  have tab: "tab_inv s" "cord_ok (dcord s)" using inv by (simp_all add: dur_inv_def)
  obtain w where w: "fmlookup (dworkers s) a = Some w" "dcell_ok q w" by (rule tab_inv_cell [OF tab(1) Some])
  have loc: "keeps_inv s s'" if "tab_inv s'" "dcord s' = dcord s" "dqueues s' = dqueues s" for s'
    using keeps_inv_local [OF inv that(1)] that(2,3) tab(2) by simp
  have upd: "keeps_inv s (set_pc a w' (s\<lparr>dheap := fmupd a q' (dheap s)\<rparr>))"
    if "dcell_ok q' w'" "dname q' = dname q" "isClosed q' = isClosed q" for q' w'
    using loc tab_inv_upd [OF tab(1) Some that] by (simp add: set_pc_def)
  have updw: "keeps_inv s (set_pc a w' s)" if "dcell_ok q w'" for w'
    using loc tab_inv_upd_worker [OF tab(1) Some that] by (simp add: set_pc_def)
  show ?thesis
  proof (cases w)
    case DPopping
    have "ring_inv q" using w(2) by (simp add: dcell_ok_def)
    then obtain r q' where q': "Pop q = Some (r, q')" "ring_inv q'" "ring_contents q' = tl (ring_contents q)"
      "r = (case ring_contents q of [] \<Rightarrow> None | m # _ \<Rightarrow> Some m)"
      "hasWork q' = hasWork q" "isClosed q' = isClosed q" "wqueue.more q' = wqueue.more q"
      by (rule Pop_wqueue)
    let ?w = "case r of None \<Rightarrow> DSelecting | Some m \<Rightarrow>
      let policyByName = dur_pending m in if maplen policyByName = 0 then DPopping else DSending m policyByName"
    have "dcell_ok q' ?w"
      using q'(2-4) by (cases "ring_contents q") (simp_all add: dcell_ok_def Let_def)
    then show ?thesis using upd [OF _ dname_more [OF q'(7)] q'(6)] Some w(1) DPopping by (simp add: dur_worker_def q'(1))
  next
    case (DSending m pol)
    then show ?thesis using updw [of "DSettling m pol (dur_results http ord pol m) False"] w Some
      by (simp add: dur_worker_def dcell_ok_def)
  next
    case (DSettling m pol rs rem)
    show ?thesis
    proof (cases rs)
      case Nil
      have cell: "dcell_ok q DPopping" using w(2) by (simp add: dcell_ok_def)
      show ?thesis
      proof (cases rem)
        case True
        obtain q' where "AddWake m q = Some q'" "dcell_ok q' DPopping" "dname q' = dname q" "isClosed q' = isClosed q"
          by (rule dcell_ok_AddWake [OF cell])
        then show ?thesis using upd Some w(1) DSettling Nil True by (simp add: dur_worker_def add_to_heap_def)
      next
        case False
        then show ?thesis using updw [OF cell] Some w(1) DSettling Nil by (simp add: dur_worker_def)
      qed
    next
      case (Cons r rs')
      obtain s' m' rem' where s': "dur_settle_one flt (dname q) pol r m rem s = Some (s', m', rem')" "keeps_inv s s'"
        "dheap s' = dheap s" "dworkers s' = dworkers s"
        by (rule dur_settle_one_inv [OF inv])
      have inv': "dur_inv s'" "tab_inv s'" using s'(2) by (simp_all add: keeps_inv_def dur_inv_def)
      have "tab_inv (set_pc a (DSettling m' pol rs' rem') s')"
        by (rule tab_inv_upd_worker [where q = q, OF inv'(2)]) (use s'(3) Some w(2) in \<open>auto simp: dcell_ok_def\<close>)
      then have "keeps_inv s' (set_pc a (DSettling m' pol rs' rem') s')"
        using keeps_inv_local [OF inv'(1)] inv'(1) by (simp add: set_pc_def dur_inv_def)
      then show ?thesis using s'(1,2) Some w(1) DSettling Cons by (simp add: dur_worker_def keeps_inv_def)
    qed
  next
    case DSelecting
    then have "dcell_ok (q\<lparr>hasWork := False\<rparr>) DPopping" "isClosed q \<Longrightarrow> dcell_ok q DExited"
      using w(2) by (simp_all add: dcell_ok_def)
    then show ?thesis
      using upd [of "q\<lparr>hasWork := False\<rparr>" DPopping] updw Some w(1) DSelecting keeps_inv_refl [OF inv]
      by (simp add: dur_worker_def)
  next
    case DExited
    then show ?thesis using keeps_inv_refl [OF inv] Some w(1) by (simp add: dur_worker_def)
  qed
qed

lemma runCheckpoint_cord:
  assumes "runCheckpoint flt ord uid fs c = Some (fs', c')" "cord_ok c"
  shows "cord_ok c'" "cat c' = cat c"
proof -
  have a: "cord_ok c1 \<and> cat c1 = cat c" if "appendLocked flt rec fs c = Some ((fs1, c1), out)" for rec fs1 c1 out
    using appendLocked_total [OF assms(2), of flt rec fs] that by force
  have d: "cord_ok (c\<lparr>clog := l\<rparr>)" if "wal_DeleteSegmentsBefore flt lsn fs (clog c) = Done (fs1, l)" for lsn fs1 l
    using that by (auto simp: wal_DeleteSegmentsBefore_def cord_ok_def split: option.splits outcome.splits)
  have g: "cord_ok (ckpt_goto pc x) = cord_ok x" "cord_ok (ckpt_stop x) = cord_ok x" "cat (ckpt_goto pc x) = cat x"
    "cat (ckpt_stop x) = cat x" for pc x
    by (simp_all add: cord_ok_def ckpt_goto_def ckpt_stop_def)
  have "cord_ok c' \<and> cat c' = cat c"
  proof (cases "ckpt c")
    case None
    then show ?thesis using assms by (simp add: runCheckpoint_def)
  next
    case (Some pc)
    then show ?thesis using assms
      by (cases pc) (auto simp: runCheckpoint_def g dest: a d split: option.splits sum.splits outcome.splits prod.splits bind_splits)
  qed
  then show "cord_ok c'" "cat c' = cat c" by simp_all
qed

section \<open>Starting\<close>

lemma new_broker_inv:
  assumes "NewBrokerWithConfig flt cfg fs = Some s"
  shows "dur_inv s"
proof -
  obtain fs' c where c: "NewCoordinatorWithConfig flt cfg fs = Done (fs', c)"
    "s = \<lparr>dfs = fs', dcord = c, dqueues = fmempty, dnumQueues = 0, dheap = fmempty,
            dworkers = fmempty, dnextAddr = 0, denqs = fmempty\<rparr>"
    using assms by (auto simp: NewBrokerWithConfig_def split: outcome.splits)
  have "cord_ok c"
    using c(1) by (auto simp: NewCoordinatorWithConfig_def OpenWithOptions_def cord_ok_def Let_def
        split: outcome.splits if_splits sum.splits)
  then show ?thesis unfolding c(2) by (simp add: dur_inv_def tab_inv_def dheap_ok_def maplen_def)
qed

lemma ReplayLog_cord:
  assumes "ReplayLog flt ord fs c = Some ((fs', c'), out)" "cord_ok c"
  shows "cord_ok c'" "out = Inr (qs, d) \<Longrightarrow> visits_all ord \<Longrightarrow> set qs = fset (fmdom (cat c'))"
proof -
  have r: "cord_ok (c\<lparr>clog := l\<rparr>)" if "wal_ReadAll flt fs (clog c) = Some ((fs1, l), x)" for fs1 l x
    using that assms(2)
    by (auto simp: wal_ReadAll_def wal_DeleteSegmentsBefore_def cord_ok_def Let_def
        split: if_splits option.splits outcome.splits prod.splits bind_splits)
  show "cord_ok c'" using assms(1) r
    by (auto simp: ReplayLog_def Let_def cord_ok_def split: bind_splits outcome.splits option.splits sum.splits prod.splits)
  show "set qs = fset (fmdom (cat c'))" if "out = Inr (qs, d)" "visits_all ord"
    using assms(1) that
    by (auto simp: ReplayLog_def Let_def ReturnQueueNames_def visits_allD split: bind_splits outcome.splits option.splits sum.splits prod.splits)
qed

lemma restore_queues_inv:
  assumes "dur_inv s" "set qs \<subseteq> fset (fmdom (cat (dcord s)))"
  shows "\<exists>s'. restore_queues flt qs s = Some s' \<and> dur_inv s' \<and> dcord s' = dcord s"
  using assms
proof (induction qs arbitrary: s)
  case (Cons n qs)
  obtain s1 e where s1: "dur_CreateQueue flt n True s = Some (s1, e)" "dur_inv s1" "dcord s1 = dcord s"
    using dur_CreateQueue_inv [OF Cons.prems(1), of True n flt] Cons.prems(2) by auto
  obtain s' where "restore_queues flt qs s1 = Some s'" "dur_inv s'" "dcord s' = dcord s1"
    using Cons.IH [OF s1(2)] Cons.prems(2) s1(3) by auto
  then show ?case using s1 by simp
qed simp

lemma EnqueueFromWAL_inv:
  assumes "dur_inv s"
  shows "\<exists>s'. EnqueueFromWAL n m p pol acked s = Some s' \<and> dur_inv s' \<and> dcord s' = dcord s"
proof (cases "fmlookup (dqueues s) n")
  case None
  then show ?thesis using assms by (simp add: EnqueueFromWAL_def)
next
  case (Some a)
  have tab: "tab_inv s" using assms by (simp add: dur_inv_def)
  obtain q where "fmlookup (dheap s) a = Some q" by (rule tab_inv_queue [OF tab Some])
  then obtain h' where "add_to_heap a (dur_NewQueueMsg m p pol (Some acked)) s = Some (s\<lparr>dheap := h'\<rparr>)" "tab_inv (s\<lparr>dheap := h'\<rparr>)"
    using add_to_heap_ok [OF tab] fmdomI by metis
  then show ?thesis using Some assms by (simp add: EnqueueFromWAL_def dur_inv_def)
qed

lemma restore_messages_inv: "dur_inv s \<Longrightarrow> \<exists>s'. restore_messages n ms s = Some s' \<and> dur_inv s' \<and> dcord s' = dcord s"
proof (induction n ms s rule: restore_messages.induct)
  case (2 n m mi ms s)
  then show ?case using EnqueueFromWAL_inv [OF 2(3), of n m "Content mi" "dSubList mi" "dAckedSubs mi"] by (cases "hasUnackedSubs mi") auto
qed simp

lemma restore_delivery_inv: "dur_inv s \<Longrightarrow> \<exists>s'. restore_delivery ord ds s = Some s' \<and> dur_inv s' \<and> dcord s' = dcord s"
proof (induction ord ds s rule: restore_delivery.induct)
  case (2 ord n di ds s)
  then show ?case using restore_messages_inv [OF 2(3), of n "ranged (ord (''messages/'' @ n)) di"] by (cases "n |\<in>| fmdom (dqueues s)") auto
qed simp

lemma RestoreWAL_inv:
  assumes "dur_inv s" "RestoreWAL flt ord s = Some (s', out)" "visits_all (ord ''catalog'')" "dqueues s = fmempty"
  shows "dur_inv s'"
proof -
  have tab: "tab_inv s" "cord_ok (dcord s)" using assms(1) by (simp_all add: dur_inv_def)
  obtain fs1 c1 o1 where r: "ReplayLog flt (ord ''catalog'') (dfs s) (dcord s) = Some ((fs1, c1), o1)"
    using assms(2) by (auto simp: RestoreWAL_def with_cord_def split: bind_splits prod.splits)
  let ?s = "s\<lparr>dfs := fs1, dcord := c1\<rparr>"
  have i: "dur_inv ?s" using ReplayLog_cord(1) [OF r tab(2)] tab(1) assms(4) by (simp add: dur_inv_def)
  show ?thesis
  proof (cases o1)
    case (Inl e)
    then show ?thesis using assms(2) r i by (simp add: RestoreWAL_def with_cord_def)
  next
    case (Inr x)
    obtain qs d where x: "x = (qs, d)" by (cases x)
    have qs: "set qs \<subseteq> fset (fmdom (cat (dcord ?s)))" using ReplayLog_cord(2) [OF r tab(2) _ assms(3)] Inr x by simp
    obtain s2 where s2: "restore_queues flt qs ?s = Some s2" "dur_inv s2" using restore_queues_inv [OF i qs] by blast
    obtain s3 where "restore_delivery ord (ranged (ord ''delivery'') d) s2 = Some s3" "dur_inv s3"
      using restore_delivery_inv [OF s2(2)] by blast
    then show ?thesis using assms(2) r s2 Inr x by (simp add: RestoreWAL_def with_cord_def)
  qed
qed

section \<open>Runs\<close>

text \<open>
  What may happen next: a request, a step of a request in progress, a step of a worker, or a
  step of the checkpoint goroutine. Every event has failures of its own. A checkpoint whose
  read never ends changes nothing.
\<close>

datatype dur_event =
    DurCreate faults string
  | DurDelete faults string
  | DurPost nat string "string option"
  | DurEnqueue faults string nat
  | DurSubscribe faults string "string option"
  | DurResubscribe faults string string "string option"
  | DurUnsubscribe faults string string
  | DurWork faults http order bool nat
  | DurCheckpoint faults orders "string option"

definition dur_step :: "dur_event \<Rightarrow> dur_state \<Rightarrow> dur_state option" where
  "dur_step e s = (case e of
       DurCreate flt n \<Rightarrow> map_option fst (HandleQueueCreation flt n s)
     | DurDelete flt n \<Rightarrow> map_option fst (HandleQueueDeletion flt n s)
     | DurPost h n body \<Rightarrow> Some (fst (HandleEnqueue h n body s))
     | DurEnqueue flt uuid h \<Rightarrow> map_option fst (HandleEnqueue_step flt uuid h s)
     | DurSubscribe flt n body \<Rightarrow> map_option fst (HandleSubPolicyCreation flt n body s)
     | DurResubscribe flt n sub body \<Rightarrow> map_option fst (HandleSubPolicyUpdate flt n sub body s)
     | DurUnsubscribe flt n sub \<Rightarrow> map_option fst (HandleSubPolicyDeletion flt n sub s)
     | DurWork flt http ord pick a \<Rightarrow> dur_worker flt http ord pick a s
     | DurCheckpoint flt ord uid \<Rightarrow>
         Some (case runCheckpoint flt ord uid (dfs s) (dcord s) of
             None \<Rightarrow> s
           | Some (fs', c') \<Rightarrow> s\<lparr>dfs := fs', dcord := c'\<rparr>))"

fun dur_steps :: "dur_event list \<Rightarrow> dur_state \<Rightarrow> dur_state option" where
  "dur_steps [] s = Some s"
| "dur_steps (e # es) s = Option.bind (dur_step e s) (dur_steps es)"

definition dur_start :: "Config \<Rightarrow> dur_state \<Rightarrow> bool" where
  "dur_start cfg s \<longleftrightarrow> (\<exists>flt flt' fs s0 ord. NewBrokerWithConfig flt cfg fs = Some s0 \<and> (\<forall>t. visits_all (ord t)) \<and>
     RestoreWAL flt' ord s0 = Some (s, Inr ()))"

lemma dur_startI:
  "NewBrokerWithConfig flt cfg fs = Some s0 \<Longrightarrow> \<forall>t. visits_all (ord t) \<Longrightarrow> RestoreWAL flt' ord s0 = Some (s, Inr ()) \<Longrightarrow> dur_start cfg s"
  unfolding dur_start_def by blast

lemma dur_step_inv:
  assumes inv: "dur_inv s"
  shows "\<exists>s'. dur_step e s = Some s' \<and> keeps_inv s s'"
proof -
  have tab: "tab_inv s" "cord_ok (dcord s)" using inv by (simp_all add: dur_inv_def)
  have ans: "\<exists>s'. map_option fst (answer n r) = Some s' \<and> keeps_inv s s'"
    if "\<exists>s' e. r = Some (s', e) \<and> keeps_inv s s'" for n and r :: "dur_result"
    using that by (auto simp: answer_def)
  have create: "\<exists>s' e. dur_CreateQueue flt n False s = Some (s', e) \<and> keeps_inv s s'" for flt n
    using dur_CreateQueue_inv [OF inv, of False n flt] by (auto simp: keeps_inv_def)
  note refl = keeps_inv_refl [OF inv]
  show ?thesis
  proof (cases e)
    case (DurPost h n body)
    have "tab_inv (s\<lparr>denqs := fmupd h (EnqLookup n b) (denqs s)\<rparr>)" for b by (rule tab_inv_enqs_upd [OF tab(1)]) simp
    then have "keeps_inv s (s\<lparr>denqs := fmupd h (EnqLookup n b) (denqs s)\<rparr>)" for b
      using keeps_inv_local [OF inv] tab(2) by simp
    then show ?thesis using DurPost refl by (simp add: dur_step_def HandleEnqueue_def split: option.split)
  next
    case (DurEnqueue flt uuid h)
    then show ?thesis using dur_Enqueue_inv [OF inv, of flt uuid h] by (auto simp: dur_step_def HandleEnqueue_step_def)
  next
    case (DurCheckpoint flt ord uid)
    show ?thesis
    proof (cases "runCheckpoint flt ord uid (dfs s) (dcord s)")
      case None
      then show ?thesis using DurCheckpoint refl by (simp add: dur_step_def)
    next
      case (Some st)
      obtain fs' c' where st: "st = (fs', c')" by (cases st)
      have "keeps_inv s (s\<lparr>dfs := fs', dcord := c'\<rparr>)"
        by (rule keeps_inv_local [OF inv]) (use tab runCheckpoint_cord [OF Some [unfolded st] tab(2)] in simp_all)
      then show ?thesis using DurCheckpoint Some st by (simp add: dur_step_def)
    qed
  next
    case (DurCreate flt n)
    then show ?thesis using ans [OF create] by (simp add: dur_step_def HandleQueueCreation_def)
  next
    case (DurDelete flt n)
    then show ?thesis using ans [OF dur_DeleteQueue_inv [OF inv]] by (simp add: dur_step_def HandleQueueDeletion_def)
  next
    case (DurSubscribe flt n body)
    then show ?thesis using ans [OF dur_subscriber_inv(1) [OF inv]] refl
      by (simp add: dur_step_def HandleSubPolicyCreation_def split: option.split)
  next
    case (DurResubscribe flt n sub body)
    then show ?thesis using ans [OF dur_subscriber_inv(2) [OF inv]] refl
      by (simp add: dur_step_def HandleSubPolicyUpdate_def split: option.split)
  next
    case (DurUnsubscribe flt n sub)
    then show ?thesis using ans [OF dur_subscriber_inv(3) [OF inv]] by (simp add: dur_step_def HandleSubPolicyDeletion_def)
  next
    case (DurWork flt http ord pick a)
    then show ?thesis using dur_worker_inv [OF inv] by (simp add: dur_step_def)
  qed
qed

lemma dur_steps_inv:
  assumes "dur_inv s"
  shows "\<exists>s'. dur_steps es s = Some s' \<and> keeps_inv s s'"
  using assms
proof (induction es arbitrary: s)
  case (Cons e es)
  obtain s1 where s1: "dur_step e s = Some s1" "keeps_inv s s1" using dur_step_inv [OF Cons.prems] by blast
  then obtain s' where "dur_steps es s1 = Some s'" "keeps_inv s1 s'" using Cons.IH [of s1] by (auto simp: keeps_inv_def)
  then show ?case using s1 by (auto simp: keeps_inv_def)
qed (simp add: keeps_inv_refl)

lemma dur_start_inv:
  assumes "dur_start cfg s"
  shows "dur_inv s" "maplen (cat (dcord s)) \<le> 128 \<Longrightarrow> dur_sync s"
proof -
  obtain flt flt' fs s0 ord where st: "NewBrokerWithConfig flt cfg fs = Some s0" "\<And>t. visits_all (ord t)"
    "RestoreWAL flt' ord s0 = Some (s, Inr ())"
    using assms unfolding dur_start_def by blast
  have e: "dqueues s0 = fmempty" "dheap s0 = fmempty" "dnumQueues s0 = 0" "denqs s0 = fmempty" "dworkers s0 = fmempty"
    using st(1) by (auto simp: NewBrokerWithConfig_def split: outcome.splits)
  show "dur_inv s" by (rule RestoreWAL_inv [OF new_broker_inv [OF st(1)] st(3,2) e(1)])
  assume few: "maplen (cat (dcord s)) \<le> 128"
  obtain fs1 c1 qs d s2 where r: "ReplayLog flt' (ord ''catalog'') (dfs s0) (dcord s0) = Some ((fs1, c1), Inr (qs, d))"
    "restore_queues flt' qs (s0\<lparr>dfs := fs1, dcord := c1\<rparr>) = Some s2"
    "restore_delivery ord (ranged (ord ''delivery'') d) s2 = Some s"
    using st(3) by (auto simp: RestoreWAL_def with_cord_def split: bind_splits prod.splits sum.splits)
  have qs: "qs = ord ''catalog'' (fmdom (cat c1))"
    using r(1) by (auto simp: ReplayLog_def Let_def ReturnQueueNames_def split: bind_splits outcome.splits option.splits sum.splits prod.splits)
  let ?s = "s0\<lparr>dfs := fs1, dcord := c1\<rparr>"
  have "set qs \<subseteq> fset (fmdom (cat (dcord ?s)))" unfolding qs by (simp add: visits_allD [OF st(2)])
  moreover have i: "dur_inv s0" by (rule new_broker_inv [OF st(1)])
  then have "dur_inv ?s" using ReplayLog_cord(1) [OF r(1)] e(1) by (simp add: dur_inv_def)
  ultimately have "dcord s2 = c1" "dur_inv s2" using restore_queues_inv [of ?s qs flt'] r(2) by auto
  then have c: "dcord s = c1" using restore_delivery_inv [of s2 ord "ranged (ord ''delivery'') d"] r(3) by auto
  have "restore_inv s0" using e by (simp add: restore_inv_def maplen_def)
  from RestoreWAL_ok [where ord = ord, OF r(1) [unfolded qs] this e(1,3) few [unfolded c] st(2)]
  show "dur_sync s" using st(3) c by (auto simp: dur_sync_def)
qed

section \<open>Shutting down\<close>

lemma close_all_ok:
  assumes "distinct as" "\<forall>a \<in> set as. \<exists>q. fmlookup h a = Some q \<and> \<not> isClosed q"
  shows "\<exists>h'. close_all as h = Some h'"
  using assms
proof (induction as arbitrary: h)
  case (Cons a as)
  then obtain q where q: "fmlookup h a = Some q" "\<not> isClosed q" by auto
  have "\<forall>b \<in> set as. \<exists>r. fmlookup (fmupd a (q\<lparr>isClosed := True\<rparr>) h) b = Some r \<and> \<not> isClosed r" using Cons.prems by auto
  then show ?case using Cons.IH Cons.prems(1) q by (simp add: close_chan_def)
qed simp

lemma dur_Close_ok:
  assumes inv: "dur_inv s" and ord: "visits_all ord"
  shows "dur_Close flt ord s \<noteq> None"
proof -
  have tab: "tab_inv s" "cord_ok (dcord s)" using inv by (simp_all add: dur_inv_def)
  let ?as = "map (\<lambda>n. the (fmlookup (dqueues s) n)) (ord (fmdom (dqueues s)))"
  have q: "\<exists>a q. fmlookup (dqueues s) n = Some a \<and> fmlookup (dheap s) a = Some q \<and> dname q = n \<and> \<not> isClosed q"
    if "n \<in> set (ord (fmdom (dqueues s)))" for n
    using that tab(1) visits_allD [OF ord] unfolding tab_inv_def by (metis fmdomE)
  have "inj_on (\<lambda>n. the (fmlookup (dqueues s) n)) (set (ord (fmdom (dqueues s))))"
    by (rule inj_onI) (use q in \<open>metis option.sel\<close>)
  then have "distinct ?as" using visits_allD(1) [OF ord] by (simp add: distinct_map)
  moreover have "\<forall>a \<in> set ?as. \<exists>q. fmlookup (dheap s) a = Some q \<and> \<not> isClosed q" using q by fastforce
  ultimately obtain h' where "close_all ?as (dheap s) = Some h'" using close_all_ok by blast
  moreover have "coord_Close flt (dcord s) \<noteq> None"
    using tab(2) by (auto simp: coord_Close_def wal_Close_def cord_ok_def split: option.split)
  ultimately show ?thesis by (auto simp: dur_Close_def)
qed

section \<open>An example without a log\<close>

definition off_cfg :: Config where
  "off_cfg = \<lparr>cfgDir = [], cfgMaxSegSize = 0, cfgMode = ModeOff, cfgCheckpointThreshold = 0\<rparr>"

definition off_start :: dur_state where
  "off_start = \<lparr>dfs = fmempty,
     dcord = \<lparr>clog = \<lparr>wal_files = None, wal_mode = ModeOff, offLSN = 0\<rparr>, cat = fmempty, deli = None, checkpointing = False, ckpt = None\<rparr>,
     dqueues = fmempty, dnumQueues = 0, dheap = fmempty, dworkers = fmempty, dnextAddr = 0, denqs = fmempty\<rparr>"

lemma off_start_ok: "dur_start off_cfg off_start"
proof -
  let ?s0 = "off_start\<lparr>dcord := (dcord off_start)\<lparr>deli := Some fmempty\<rparr>\<rparr>"
  let ?ord = "\<lambda>_ :: string. sorted_list_of_fset :: string fset \<Rightarrow> string list"
  have "NewBrokerWithConfig no_faults off_cfg fmempty = Some ?s0"
    by (simp add: NewBrokerWithConfig_def NewCoordinatorWithConfig_def OpenWithOptions_def off_cfg_def off_start_def
        withDefaults_def NewCatalog_def NewDelivery_def Let_def)
  moreover have "\<forall>t. visits_all (?ord t)" by (simp add: visits_all_sorted)
  moreover have "RestoreWAL no_faults ?ord ?s0 = Some (off_start, Inr ())"
    by (simp add: RestoreWAL_def with_cord_def ReplayLog_def wal_ReadAll_def off_start_def ReturnQueueNames_def
        YieldDeliveryData_def ranged_def sorted_list_of_fset.rep_eq Let_def)
  ultimately show ?thesis by (rule dur_startI)
qed

section \<open>Properties\<close>

text \<open>
  C6. Nothing in the durable broker panics: from any directory, whatever fails in the file system
  and however handlers, workers and checkpoints interleave, every request and every step of a
  worker returns, and so does shutting down.
\<close>

theorem durable_never_panics:
  assumes "dur_start cfg s0" "visits_all ord"
  shows "\<exists>s. dur_steps es s0 = Some s \<and> dur_step e s \<noteq> None \<and> dur_Close flt ord s \<noteq> None"
proof -
  obtain s where s: "dur_steps es s0 = Some s" "dur_inv s"
    using dur_steps_inv [OF dur_start_inv(1) [OF assms(1)]] by (auto simp: keeps_inv_def)
  then show ?thesis using dur_step_inv [OF s(2), of e] dur_Close_ok [OF s(2) assms(2)] by auto
qed

theorem durable_never_panics_witness:
  "dur_start off_cfg off_start \<and> visits_all (sorted_list_of_fset :: string fset \<Rightarrow> string list) \<and>
   (\<exists>s. dur_steps [DurCreate no_faults ''orders'', DurDelete no_faults ''orders''] off_start = Some s \<and>
      dur_step (DurDelete no_faults ''orders'') s \<noteq> None \<and> dur_Close no_faults sorted_list_of_fset s \<noteq> None)"
  using durable_never_panics [OF off_start_ok visits_all_sorted] off_start_ok visits_all_sorted by blast

text \<open>
  C7. Whatever requests, deliveries, checkpoints and file failures it has been through, the durable
  broker's counter is the number of its queues and at most 128, every name of its table leads to
  an open queue of that name, and, if the catalog it started from had at most 128 queues, its
  table holds exactly the queues of the catalog.
\<close>

theorem durable_table_is_catalog:
  assumes "dur_start cfg s0" "dur_steps es s0 = Some s"
  shows "dnumQueues s = maplen (dqueues s) \<and> dnumQueues s \<le> 128 \<and>
    (\<forall>n a. fmlookup (dqueues s) n = Some a \<longrightarrow> (\<exists>q. fmlookup (dheap s) a = Some q \<and> dname q = n \<and> \<not> isClosed q)) \<and>
    (maplen (cat (dcord s0)) \<le> 128 \<longrightarrow> fmdom (dqueues s) = fmdom (cat (dcord s)))"
proof -
  have "keeps_inv s0 s" using dur_steps_inv [OF dur_start_inv(1) [OF assms(1)], of es] assms(2) by simp
  then have "dur_inv s" "maplen (cat (dcord s0)) \<le> 128 \<Longrightarrow> dur_sync s"
    using dur_start_inv(2) [OF assms(1)] by (simp_all add: keeps_inv_def)
  then show ?thesis by (simp add: dur_inv_def tab_inv_def dur_sync_def)
qed

definition off_created :: dur_state where
  "off_created = (case dur_steps [DurCreate no_faults ''orders''] off_start of Some s \<Rightarrow> s | None \<Rightarrow> off_start)"

lemma off_created: "dur_steps [DurCreate no_faults ''orders''] off_start = Some off_created" "dnumQueues off_created = 1"
proof -
  have "dur_steps [DurCreate no_faults ''orders''] off_start \<noteq> None"
    using dur_steps_inv [OF dur_start_inv(1) [OF off_start_ok], of "[DurCreate no_faults ''orders'']"] by auto
  then show "dur_steps [DurCreate no_faults ''orders''] off_start = Some off_created" by (auto simp: off_created_def)
  show "dnumQueues off_created = 1" unfolding off_created_def off_start_def
    by (simp add: dur_step_def HandleQueueCreation_def answer_def dur_CreateQueue_def with_cord_def coord_CreateQueue_def
      log_catalog_def coord_append_def appendLocked_def wal_Append_def maybeCheckpoint_def wal_ShouldCheckpoint_def
      ProcessRecord_def mk_record_def install_queue_def Let_def)
qed

theorem durable_table_is_catalog_witness:
  "dur_start off_cfg off_start \<and> dur_steps [DurCreate no_faults ''orders''] off_start = Some off_created \<and>
   maplen (cat (dcord off_start)) \<le> 128 \<and> maplen (dqueues off_created) = 1 \<and>
   fmdom (dqueues off_created) = fmdom (cat (dcord off_created))"
proof -
  have "maplen (cat (dcord off_start)) \<le> 128" by (simp add: off_start_def maplen_def fcard.rep_eq)
  then show ?thesis using durable_table_is_catalog [OF off_start_ok off_created(1)] off_start_ok off_created by metis
qed

text \<open>
  C8. In the durable broker an open queue that holds a message has a worker that has not exited,
  and if that worker is blocked in \<open>select\<close>, its next step takes a pending wake-up and goes back to
  popping.
\<close>

theorem durable_no_lost_wakeup:
  assumes "dur_start cfg s0" "dur_steps es s0 = Some s" "fmlookup (dheap s) a = Some q" "ring_contents q \<noteq> []"
    "\<not> isClosed q"
  shows "\<exists>w. fmlookup (dworkers s) a = Some w \<and> w \<noteq> DExited \<and>
    (w = DSelecting \<longrightarrow> dur_worker flt http ord pick a s =
       Some (set_pc a DPopping (s\<lparr>dheap := fmupd a (q\<lparr>hasWork := False\<rparr>) (dheap s)\<rparr>)))"
proof -
  have "keeps_inv s0 s" using dur_steps_inv [OF dur_start_inv(1) [OF assms(1)], of es] assms(2) by simp
  then have "tab_inv s" by (simp add: keeps_inv_def dur_inv_def)
  then obtain w where "fmlookup (dworkers s) a = Some w" "dcell_ok q w" by (rule tab_inv_cell [OF _ assms(3)])
  then show ?thesis using assms(3-5) by (auto simp: dcell_ok_def dur_worker_def)
qed

lemmas off_simps = dur_step_def HandleQueueCreation_def HandleQueueDeletion_def HandleEnqueue_def HandleEnqueue_step_def
  answer_def dur_CreateQueue_def dur_DeleteQueue_def dur_Enqueue_def with_cord_def coord_CreateQueue_def coord_DeleteQueue_def
  coord_Enqueue_def log_catalog_def coord_append_def appendLocked_def wal_Append_def maybeCheckpoint_def
  wal_ShouldCheckpoint_def ProcessRecord_def mk_record_def install_queue_def createQueue_def removeQueue_def NewQueueInfo_def
  QueueExists_def FetchQueueSubList_def close_chan_def add_to_heap_def Let_def

definition off_events :: "dur_event list" where
  "off_events = [DurCreate no_faults ''orders'', DurPost 0 ''orders'' (Some ''hello''), DurEnqueue no_faults ''1'' 0,
     DurEnqueue no_faults ''1'' 0, DurEnqueue no_faults ''1'' 0]"

lemma off_posted:
  obtains s q where "dur_steps off_events off_start = Some s" "fmlookup (dheap s) 0 = Some q" "ring_contents q \<noteq> []" "\<not> isClosed q"
proof -
  obtain q' where q': "AddWake (dur_NewQueueMsg ''orders-1'' ''hello'' fmempty None) (dur_NewQueue ''orders'') = Some q'"
    "ring_contents q' = ring_contents (dur_NewQueue ''orders'') @ [dur_NewQueueMsg ''orders-1'' ''hello'' fmempty None]"
    "isClosed q' = isClosed (dur_NewQueue ''orders'')"
    using AddWake_ok [OF new_queue(1)] by blast
  have "\<exists>s. dur_steps off_events off_start = Some s \<and> fmlookup (dheap s) 0 = Some q'"
    unfolding off_events_def off_start_def using q'(1) by (simp add: off_simps)
  moreover have "\<not> isClosed q'" using q'(3) by (simp add: dur_NewQueue_def)
  ultimately show ?thesis using that q'(2) by auto
qed

theorem durable_no_lost_wakeup_witness:
  "\<exists>s q w. dur_start off_cfg off_start \<and> dur_steps off_events off_start = Some s \<and> fmlookup (dheap s) 0 = Some q \<and>
     ring_contents q \<noteq> [] \<and> fmlookup (dworkers s) 0 = Some w \<and> w \<noteq> DExited"
proof -
  obtain s q where s: "dur_steps off_events off_start = Some s" "fmlookup (dheap s) 0 = Some q" "ring_contents q \<noteq> []" "\<not> isClosed q"
    by (rule off_posted)
  then show ?thesis using durable_no_lost_wakeup [OF off_start_ok s] off_start_ok by blast
qed

text \<open>
  C37. \<open>Enqueue\<close> gives up the broker's lock between finding the queue and logging the message. If the
  queue is deleted and created again in between, the message is logged and the client is told
  202, but the queue that now has the name does not get the message.
\<close>

theorem durable_enqueue_overtaken:
  assumes "dur_start cfg s0" "dur_steps es s0 = Some s" "fmlookup (denqs s) h = Some (EnqLog a n p)"
    "fmlookup (dqueues s) n = Some b" "b \<noteq> a" "HandleEnqueue_step flt uuid h s = Some (s1, None)"
  shows "\<exists>s2. HandleEnqueue_step flt' uuid' h s1 = Some (s2, Some 202) \<and> fmlookup (dqueues s2) n = Some b \<and>
    fmlookup (dheap s2) b = fmlookup (dheap s) b"
proof -
  have "keeps_inv s0 s" using dur_steps_inv [OF dur_start_inv(1) [OF assms(1)], of es] assms(2) by simp
  then have inv: "dur_inv s" by (simp add: keeps_inv_def)
  let ?m = "n @ ''-'' @ uuid"
  obtain fs' c' out where w: "with_cord (coord_Enqueue flt n ?m p) s = Some (s\<lparr>dfs := fs', dcord := c'\<rparr>, out)"
    by (rule with_cord_op [OF cord_ops(5)]) (use inv in \<open>auto simp: dur_inv_def\<close>)
  obtain subs where out: "out = Inr subs"
    using assms(3,6) w by (cases out) (auto simp: HandleEnqueue_step_def dur_Enqueue_def Let_def)
  let ?msg = "dur_NewQueueMsg ?m p subs None"
  have s1: "s1 = s\<lparr>dfs := fs', dcord := c', denqs := fmupd h (EnqAdd a ?msg) (denqs s)\<rparr>"
    using assms(3,6) w out by (simp add: HandleEnqueue_step_def dur_Enqueue_def Let_def)
  have "enq_ok s (EnqLog a n p)" using inv assms(3) unfolding dur_inv_def tab_inv_def by blast
  then obtain q where q: "fmlookup (dheap s) a = Some q" by (auto elim: fmdomE)
  have "tab_inv s" using inv by (simp add: dur_inv_def)
  then obtain w where "dcell_ok q w" by (rule tab_inv_cell [OF _ q])
  then obtain q' where "AddWake ?msg q = Some q'" by (rule dcell_ok_AddWake)
  then have "dur_Enqueue flt' uuid' h s1 =
      Some (s1\<lparr>dheap := fmupd a q' (dheap s1), denqs := fmdrop h (denqs s1)\<rparr>, None)"
    using q by (simp add: s1 dur_Enqueue_def add_to_heap_def)
  then show ?thesis using assms(4,5) by (simp add: HandleEnqueue_step_def s1 status_of_def)
qed

definition off_race :: "dur_event list" where
  "off_race = [DurCreate no_faults ''orders'', DurPost 0 ''orders'' (Some ''hello''), DurEnqueue no_faults ''1'' 0,
     DurDelete no_faults ''orders'', DurCreate no_faults ''orders'']"

theorem durable_enqueue_overtaken_witness:
  "\<exists>s s1 s2. dur_start off_cfg off_start \<and> dur_steps off_race off_start = Some s \<and>
     HandleEnqueue_step no_faults ''1'' 0 s = Some (s1, None) \<and> HandleEnqueue_step no_faults ''1'' 0 s1 = Some (s2, Some 202) \<and>
     fmlookup (dqueues s2) ''orders'' = Some 1 \<and> fmlookup (dheap s2) 1 = Some (dur_NewQueue ''orders'')"
proof -
  have n: "\<not> isClosed (dur_NewQueue ''orders'')" by (simp add: dur_NewQueue_def)
  have "\<exists>s. dur_steps off_race off_start = Some s \<and> fmlookup (denqs s) 0 = Some (EnqLog 0 ''orders'' ''hello'') \<and>
      fmlookup (dqueues s) ''orders'' = Some 1 \<and> fmlookup (dheap s) 1 = Some (dur_NewQueue ''orders'') \<and>
      (\<exists>s1. HandleEnqueue_step no_faults ''1'' 0 s = Some (s1, None))"
    unfolding off_race_def off_start_def using n by (simp add: off_simps)
  then obtain s s1 where s: "dur_steps off_race off_start = Some s" "fmlookup (denqs s) 0 = Some (EnqLog 0 ''orders'' ''hello'')"
    "fmlookup (dqueues s) ''orders'' = Some 1" "fmlookup (dheap s) 1 = Some (dur_NewQueue ''orders'')"
    "HandleEnqueue_step no_faults ''1'' 0 s = Some (s1, None)" by blast
  have ne: "(1::nat) \<noteq> 0" by simp
  show ?thesis using durable_enqueue_overtaken [OF off_start_ok s(1-3) ne s(5), of no_faults "''1''"] off_start_ok s(1,4,5) by auto
qed

end
