(* ===== verification/Durable_Live.thy ===== *)
theory Durable_Live
  imports Durable_Broker
begin

text \<open>
  The broker of \<open>durable-mq\<close> and its log agree while it runs: every message that is logged and not
  yet delivered to all its subscribers is held by the process exactly once, in its queue, by the
  queue's worker or by the request that is adding it, with the same acknowledgements.
\<close>

section \<open>What the log promises\<close>

text \<open>Outstanding messages are text, and their policies stand under their own names.\<close>

definition pending_text :: "outstanding \<Rightarrow> bool" where
  "pending_text p \<longleftrightarrow> (\<forall>q m mi. p q m = Some mi \<longrightarrow> valid_utf8 m \<and> keyed (dSubList mi) \<and> policies_text (dSubList mi))"

lemma pending_text_put:
  assumes "pending_text p" "\<And>mi. x = Some mi \<Longrightarrow> valid_utf8 m \<and> keyed (dSubList mi) \<and> policies_text (dSubList mi)"
  shows "pending_text (put q m x p)"
  using assms by (auto simp: pending_text_def put_def)

lemma put_upd: "put q m x p = p(q := (p q)(m := x))"
  by (intro ext) (simp add: put_def)

lemma keep_Some: "keep mi = Some x \<longleftrightarrow> x = mi \<and> unacked mi \<noteq> {||}"
  by (auto simp: keep_def)

lemma subs_of_text: "catalog_text c \<Longrightarrow> keyed (subs_of q c) \<and> policies_text (subs_of q c)"
  by (auto simp: catalog_text_def subs_of_def split: option.split)

lemma spec_pending_text:
  assumes "pending_text (snd A)" "catalog_text (fst A)" "legal op A"
  shows "pending_text (snd (spec op A))"
proof -
  obtain c p where A: "A = (c, p)" by (cases A)
  show ?thesis
  proof (cases op)
    case (DeleteOp q)
    then show ?thesis using assms(1) A by (auto simp: spec_def pending_text_def)
  next
    case (EnqueueOp q m content)
    then show ?thesis using assms A subs_of_text [of c q]
      by (auto simp: spec_def legal_def keep_Some intro!: pending_text_put)
  next
    case (AckOp q m sub)
    then show ?thesis using assms A
      by (auto simp: spec_def legal_def pending_text_def put_def keep_Some ack_msg_def split: bind_splits)
  qed (use assms(1) A in \<open>simp_all add: spec_def\<close>)
qed

lemma durable_run_text:
  assumes "durable_run cfg U A fs c" "cfgMode cfg \<noteq> ModeOff"
  shows "catalog_text (fst A)" "pending_text (snd A)"
proof -
  have cat: "catalog_text (fst B)" if "durable_run cfg V B gs d" for V B gs d
    using durable_run_inv [OF that assms(2)] meaning_text by blast
  show "catalog_text (fst A)" by (rule cat [OF assms(1)])
  show "pending_text (snd A)"
    using assms(1)
  proof (induction rule: durable_run.induct)
    case (first fs fs1 c1 ord fs2 c2 x)
    then show ?case by (simp add: pending_text_def log_init_def)
  next
    case (operation U A fs c op fs' c' e)
    then show ?case using spec_pending_text [OF _ cat] by simp
  qed
qed

lemma drop_value_Some: "drop_value x = Some (st, e) \<Longrightarrow> \<exists>out. x = Some (st, out) \<and> (e = None \<longleftrightarrow> \<not> isl out)"
  by (cases x; cases "snd (the x)") (auto simp: drop_value_def)

text \<open>Only queues of the catalog have outstanding messages.\<close>

lemma durable_run_present:
  assumes "durable_run cfg U A fs c" "cfgMode cfg \<noteq> ModeOff"
  shows "snd A q m \<noteq> None \<Longrightarrow> q |\<in>| fmdom (fst A)"
  using assms(1)
proof (induction arbitrary: q m rule: durable_run.induct)
  case (first fs fs1 c1 ord fs2 c2 x)
  then show ?case by (simp add: log_init_def)
next
  case (operation U A fs c op fs' c' e)
  obtain ct p where A: "A = (ct, p)" by (cases A)
  have e: "e = None \<longleftrightarrow> (case needs op of None \<Rightarrow> True | Some q \<Rightarrow> q |\<in>| fmdom (fst A))"
    using operation_refines [OF operation.hyps(1) assms(2) operation.hyps(2,3)] operation.hyps(4) by auto
  have "q |\<in>| fmdom (fst (spec op A))" if "e = None" "snd (spec op A) q m \<noteq> None"
    using that e operation.IH [of q m] A
    by (cases op) (auto simp: spec_def needs_def put_def set_policies_def split: if_splits option.splits bind_splits)
  then show ?case using operation.IH operation.prems by (cases "e = None") auto
qed

lemma exec_ops:
  "drop_value (coord_CreateQueue flt q fs c) = exec flt (CreateOp q) fs c"
  "drop_value (coord_DeleteQueue flt q fs c) = exec flt (DeleteOp q) fs c"
  "drop_value (coord_UpdateSubPolicy flt q pol fs c) = exec flt (UpdateOp q pol) fs c"
  "drop_value (coord_DeleteSubPolicy flt q name fs c) = exec flt (UnsubOp q name) fs c"
  "drop_value (coord_Enqueue flt q m content fs c) = exec flt (EnqueueOp q m content) fs c"
  "drop_value (coord_Ack flt q m name fs c) = exec flt (AckOp q m name) fs c"
  by (simp_all add: exec_def)

text \<open>An operation of the coordinator, as the broker runs it.\<close>

lemma with_cord_refines:
  assumes "durable_run cfg U A (dfs s) (dcord s)" "cfgMode cfg \<noteq> ModeOff" "legal op A" "room cfg (dcord s) (record_of op (cat (dcord s)))"
    "drop_value (f (dfs s) (dcord s)) = exec no_faults op (dfs s) (dcord s)"
  obtains fs' c' out where "with_cord f s = Some (s\<lparr>dfs := fs', dcord := c'\<rparr>, out)"
    "isl out \<longleftrightarrow> (\<exists>q. needs op = Some q \<and> q |\<notin>| fmdom (fst A))"
    "durable_run cfg U (if isl out then A else spec op A) fs' c'" "cat c' = fst (if isl out then A else spec op A)"
proof -
  obtain fs' c' e where x: "exec no_faults op (dfs s) (dcord s) = Some ((fs', c'), e)"
    "e = None \<longleftrightarrow> (case needs op of None \<Rightarrow> True | Some q \<Rightarrow> q |\<in>| fmdom (fst A))"
    "durable_run cfg U (if e = None then spec op A else A) fs' c'" "cat c' = fst (if e = None then spec op A else A)"
    using operation_refines [OF assms(1-4)] by blast
  obtain out where o: "f (dfs s) (dcord s) = Some ((fs', c'), out)" "e = None \<longleftrightarrow> \<not> isl out"
    using drop_value_Some [OF x(1) [folded assms(5)]] by blast
  show ?thesis
    by (rule that [OF with_cord_eq [of f s, OF o(1)]]) (use o(2) x(2-4) in \<open>auto split: option.splits\<close>)
qed

section \<open>What the process holds\<close>

text \<open>The message a worker has in its hands, and what the log should say of a message.\<close>

fun in_hand :: "dur_pc \<Rightarrow> DurMsg list" where
  "in_hand (DSending m _) = [m]"
| "in_hand (DSettling m _ _ _) = [m]"
| "in_hand _ = []"

definition info :: "DurMsg \<Rightarrow> DeliveryMessageInfo" where
  "info m = \<lparr>Content = dpayload m, dSubList = SubPolicySnapshot m, dAckedSubs = dAcked m\<rparr>"

text \<open>The messages at an address: those in the queue or in hand, and those of requests.\<close>

definition queued :: "dur_state \<Rightarrow> nat \<Rightarrow> DurMsg list" where
  "queued s a = (case fmlookup (dheap s) a of None \<Rightarrow> [] | Some q \<Rightarrow> ring_contents q) @
     (case fmlookup (dworkers s) a of None \<Rightarrow> [] | Some w \<Rightarrow> in_hand w)"

definition arriving :: "dur_state \<Rightarrow> nat \<Rightarrow> nat \<Rightarrow> DurMsg \<Rightarrow> bool" where
  "arriving s a h m \<longleftrightarrow> fmlookup (denqs s) h = Some (EnqAdd a m)"

definition holds :: "dur_state \<Rightarrow> nat \<Rightarrow> DurMsg \<Rightarrow> bool" where
  "holds s a m \<longleftrightarrow> m \<in> set (queued s a) \<or> (\<exists>h. arriving s a h m)"

text \<open>No two messages at an address have the same identifier.\<close>

definition single :: "dur_state \<Rightarrow> nat \<Rightarrow> bool" where
  "single s a \<longleftrightarrow> distinct (map dmsgId (queued s a)) \<and>
     (\<forall>h m. arriving s a h m \<longrightarrow> dmsgId m \<notin> dmsgId ` set (queued s a)) \<and>
     (\<forall>h h' m m'. arriving s a h m \<longrightarrow> arriving s a h' m' \<longrightarrow> dmsgId m = dmsgId m' \<longrightarrow> h = h')"

definition msg_text :: "DurMsg \<Rightarrow> bool" where
  "msg_text m \<longleftrightarrow> valid_utf8 (dmsgId m) \<and> keyed (SubPolicySnapshot m) \<and> policies_text (SubPolicySnapshot m)"

text \<open>The messages at an address are those of the queue \<open>p\<close> of the log.\<close>

definition agrees :: "(string \<Rightarrow> DeliveryMessageInfo option) \<Rightarrow> dur_state \<Rightarrow> nat \<Rightarrow> bool" where
  "agrees p s a \<longleftrightarrow> (\<forall>m. holds s a m \<longrightarrow> msg_text m \<and> p (dmsgId m) = keep (info m)) \<and>
     (\<forall>k. p k \<noteq> None \<longrightarrow> (\<exists>m. holds s a m \<and> dmsgId m = k)) \<and> single s a"

text \<open>
  A delivery in progress: the results still to be handled are of subscribers that owe the
  message, and a message that nobody marked for another attempt owes them nothing else.
\<close>

fun delivery_ok :: "dur_pc \<Rightarrow> bool" where
  "delivery_ok (DSending m pol) = (pol = dur_pending m)"
| "delivery_ok (DSettling m pol rs rem) \<longleftrightarrow> distinct (map fst rs) \<and> fst ` set rs \<subseteq> fset (unacked (info m)) \<and>
     (\<not> rem \<longrightarrow> fset (unacked (info m)) \<subseteq> fst ` set rs)"
| "delivery_ok _ = True"

definition live_inv :: "Config \<Rightarrow> string set \<Rightarrow> log_state \<Rightarrow> dur_state \<Rightarrow> bool" where
  "live_inv cfg U A s \<longleftrightarrow> durable_run cfg U A (dfs s) (dcord s) \<and> dur_inv s \<and> dur_sync s \<and> cat (dcord s) = fst A \<and>
     (\<forall>n a. fmlookup (dqueues s) n = Some a \<longrightarrow> agrees (snd A n) s a) \<and>
     (\<forall>n a w. fmlookup (dqueues s) n = Some a \<longrightarrow> fmlookup (dworkers s) a = Some w \<longrightarrow> delivery_ok w)"

section \<open>Frames\<close>

lemma agrees_cong:
  assumes "queued s' a = queued s a" "\<And>h m. arriving s' a h m = arriving s a h m"
  shows "agrees p s' a = agrees p s a"
  using assms by (simp add: agrees_def holds_def single_def)

lemma agrees_queued:
  assumes "mset (queued s' a) = mset (queued s a)" "\<And>h m. arriving s' a h m = arriving s a h m"
  shows "agrees p s' a = agrees p s a"
proof -
  have "set (queued s' a) = set (queued s a)" using assms(1) by (metis set_mset_mset)
  moreover have "distinct (map dmsgId (queued s' a)) = distinct (map dmsgId (queued s a))"
    by (rule mset_eq_imp_distinct_iff) (simp add: assms(1))
  ultimately show ?thesis using assms(2) by (simp add: agrees_def holds_def single_def)
qed

text \<open>A message that owes nothing may go.\<close>

lemma agrees_drop:
  assumes "agrees p s a" "mset (queued s a) = add_mset m (mset (queued s' a))" "unacked (info m) = {||}"
    "\<And>h x. arriving s' a h x = arriving s a h x"
  shows "agrees p s' a"
proof -
  have set: "set (queued s a) = insert m (set (queued s' a))" using assms(2) by (metis set_mset_add_mset_insert set_mset_mset)
  have "distinct (map dmsgId (queued s a)) \<longleftrightarrow> distinct (map dmsgId (m # queued s' a))"
    by (rule mset_eq_imp_distinct_iff) (simp add: assms(2))
  moreover have "distinct (map dmsgId (queued s a))" using assms(1) by (simp add: agrees_def single_def)
  ultimately have dist: "distinct (map dmsgId (queued s' a))" "dmsgId m \<notin> dmsgId ` set (queued s' a)" by simp_all
  have none: "p (dmsgId m) = None" using assms(1,3) set by (auto simp: agrees_def holds_def keep_def)
  show ?thesis
    unfolding agrees_def
  proof (intro conjI allI impI)
    fix x assume "holds s' a x"
    then have "holds s a x" using set assms(4) by (auto simp: holds_def)
    then show "msg_text x" "p (dmsgId x) = keep (info x)" using assms(1) by (auto simp: agrees_def)
  next
    fix k assume k: "p k \<noteq> None"
    then obtain x where x: "holds s a x" "dmsgId x = k" using assms(1) by (auto simp: agrees_def)
    then have "x \<noteq> m" using none k by auto
    then show "\<exists>x. holds s' a x \<and> dmsgId x = k" using x set assms(4) by (auto simp: holds_def)
  next
    show "single s' a" using assms(1) dist(1) set assms(4) unfolding agrees_def single_def by auto
  qed
qed

lemma agrees_single:
  assumes "agrees p s a"
  shows "distinct (map dmsgId (queued s a))" "\<And>k x. arriving s a k x \<Longrightarrow> dmsgId x \<notin> dmsgId ` set (queued s a)"
    "\<And>k k' x x'. arriving s a k x \<Longrightarrow> arriving s a k' x' \<Longrightarrow> dmsgId x = dmsgId x' \<Longrightarrow> k = k'"
  using assms unfolding agrees_def single_def by blast+

text \<open>A message changes, and the log with it.\<close>

lemma agrees_change:
  assumes "agrees p s a" "mset (queued s a) = add_mset m (mset xs)" "mset (queued s' a) = add_mset m' (mset xs)"
    "\<And>h x. arriving s' a h x = arriving s a h x" "dmsgId m' = dmsgId m" "msg_text m'"
  shows "agrees (p(dmsgId m := keep (info m'))) s' a"
proof -
  have set: "set (queued s a) = insert m (set xs)" "set (queued s' a) = insert m' (set xs)"
    using assms(2,3) by (metis set_mset_add_mset_insert set_mset_mset)+
  have "distinct (map dmsgId (queued s a)) \<longleftrightarrow> distinct (map dmsgId (m # xs))"
    "distinct (map dmsgId (queued s' a)) \<longleftrightarrow> distinct (map dmsgId (m' # xs))"
    by (rule mset_eq_imp_distinct_iff; simp add: assms(2,3))+
  moreover have "distinct (map dmsgId (queued s a))" using assms(1) by (simp add: agrees_def single_def)
  ultimately have dist: "distinct (map dmsgId (queued s' a))" "dmsgId m \<notin> dmsgId ` set xs" using assms(5) by simp_all
  have far: "dmsgId x \<noteq> dmsgId m" if "arriving s a h x" for h x
    using assms(1) that set(1) unfolding agrees_def single_def by auto
  show ?thesis
    unfolding agrees_def
  proof (intro conjI allI impI)
    fix x assume x: "holds s' a x"
    have "dmsgId y \<noteq> dmsgId m" if "y \<in> set xs" for y using that dist(2) by (metis imageI)
    then have "x = m' \<or> holds s a x \<and> dmsgId x \<noteq> dmsgId m" using x set assms(4) far by (auto simp: holds_def)
    then show "msg_text x" "(p(dmsgId m := keep (info m'))) (dmsgId x) = keep (info x)"
      using assms(1,5,6) by (auto simp: agrees_def)
  next
    fix k assume k: "(p(dmsgId m := keep (info m'))) k \<noteq> None"
    show "\<exists>x. holds s' a x \<and> dmsgId x = k"
    proof (cases "k = dmsgId m")
      case True
      then show ?thesis using set(2) assms(5) by (auto simp: holds_def)
    next
      case False
      then obtain x where "holds s a x" "dmsgId x = k" using k assms(1) by (auto simp: agrees_def)
      then show ?thesis using set assms(4) False by (auto simp: holds_def)
    qed
  next
    note old = agrees_single [OF assms(1)]
    show "single s' a" unfolding single_def assms(4) using old(2,3) dist(1) unfolding set image_insert assms(5) by blast
  qed
qed

text \<open>A new message, held by the request that logged it.\<close>

lemma agrees_arrive:
  assumes "agrees p s a" "queued s' a = queued s a" "\<And>k x. arriving s' a k x \<longleftrightarrow> arriving s a k x \<or> k = h \<and> x = m"
    "\<And>x. \<not> arriving s a h x" "\<And>x. holds s a x \<Longrightarrow> dmsgId x \<noteq> dmsgId m" "msg_text m"
  shows "agrees (p(dmsgId m := keep (info m))) s' a"
  unfolding agrees_def
proof (intro conjI allI impI)
  fix x assume x: "holds s' a x"
  then have "x = m \<or> holds s a x \<and> dmsgId x \<noteq> dmsgId m" using assms(2,3,5) by (auto simp: holds_def)
  then show "msg_text x" "(p(dmsgId m := keep (info m))) (dmsgId x) = keep (info x)"
    using assms(1,6) by (auto simp: agrees_def)
next
  fix k assume k: "(p(dmsgId m := keep (info m))) k \<noteq> None"
  show "\<exists>x. holds s' a x \<and> dmsgId x = k"
  proof (cases "k = dmsgId m")
    case True
    then show ?thesis using assms(3) by (auto simp: holds_def)
  next
    case False
    then obtain x where "holds s a x" "dmsgId x = k" using k assms(1) by (auto simp: agrees_def)
    then show ?thesis using assms(2,3) by (auto simp: holds_def)
  qed
next
  note old = agrees_single [OF assms(1)]
  have "dmsgId m \<notin> dmsgId ` set (queued s a)" using assms(5) by (metis holds_def imageE)
  moreover have "dmsgId x \<noteq> dmsgId m" if "arriving s a k x" for k x using that assms(5) by (auto simp: holds_def)
  ultimately show "single s' a" unfolding single_def assms(2,3) using old by metis
qed

text \<open>The request puts it into the queue.\<close>

lemma agrees_added:
  assumes "agrees p s a" "mset (queued s' a) = add_mset m (mset (queued s a))"
    "\<And>k x. arriving s' a k x \<longleftrightarrow> arriving s a k x \<and> k \<noteq> h" "arriving s a h m"
  shows "agrees p s' a"
proof -
  have set: "set (queued s' a) = insert m (set (queued s a))" using assms(2) by (metis set_mset_add_mset_insert set_mset_mset)
  have only: "x = m" if "arriving s a h x" for x using that assms(4) by (simp add: arriving_def)
  have h: "holds s' a x \<longleftrightarrow> holds s a x" for x
    unfolding holds_def set assms(3) using assms(4) only by blast
  have "distinct (map dmsgId (queued s' a)) \<longleftrightarrow> distinct (map dmsgId (m # queued s a))"
    by (rule mset_eq_imp_distinct_iff) (simp add: assms(2))
  moreover note old = agrees_single [OF assms(1)]
  ultimately have "distinct (map dmsgId (queued s' a))" using assms(4) by simp
  then have "single s' a" unfolding single_def assms(3) set image_insert using old assms(4) by blast
  then show ?thesis using assms(1) h by (simp add: agrees_def)
qed

section \<open>Steps without failures\<close>

text \<open>The operation of the coordinator that an event runs.\<close>

definition op_of :: "dur_event \<Rightarrow> dur_state \<Rightarrow> coord_op option" where
  "op_of e s = (case e of
       DurCreate _ n \<Rightarrow> if n |\<in>| fmdom (dqueues s) \<or> dnumQueues s \<ge> 128 then None else Some (CreateOp n)
     | DurDelete _ n \<Rightarrow> if n |\<in>| fmdom (dqueues s) then Some (DeleteOp n) else None
     | DurPost _ _ _ \<Rightarrow> None
     | DurEnqueue _ uuid h \<Rightarrow>
         (case fmlookup (denqs s) h of Some (EnqLog a n p) \<Rightarrow> Some (EnqueueOp n (n @ ''-'' @ uuid) p) | _ \<Rightarrow> None)
     | DurSubscribe _ n body \<Rightarrow> map_option (UpdateOp n) (Option.bind body DecodeSubPolicy)
     | DurResubscribe _ n sub body \<Rightarrow> map_option (\<lambda>pol. UpdateOp n (pol\<lparr>SubName := sub\<rparr>)) (Option.bind body DecodeSubPolicy)
     | DurUnsubscribe _ n sub \<Rightarrow> Some (UnsubOp n sub)
     | DurWork _ _ _ _ a \<Rightarrow>
         (case (fmlookup (dheap s) a, fmlookup (dworkers s) a) of
            (Some q, Some (DSettling m pol (r # rs) rem)) \<Rightarrow>
              if snd (dur_judge pol r m) then Some (AckOp (dname q) (dmsgId m) (fst r)) else None
          | _ \<Rightarrow> None)
     | DurCheckpoint _ _ _ \<Rightarrow> None)"

definition after :: "dur_event \<Rightarrow> dur_state \<Rightarrow> log_state \<Rightarrow> log_state" where
  "after e s A = (case op_of e s of
       None \<Rightarrow> A
     | Some op \<Rightarrow> if (\<exists>q. needs op = Some q \<and> q |\<notin>| fmdom (fst A)) then A else spec op A)"

fun fault_free :: "dur_event \<Rightarrow> bool" where
  "fault_free (DurCreate flt _) = (flt = no_faults)"
| "fault_free (DurDelete flt _) = (flt = no_faults)"
| "fault_free (DurPost _ _ _) = True"
| "fault_free (DurEnqueue flt _ _) = (flt = no_faults)"
| "fault_free (DurSubscribe flt _ _) = (flt = no_faults)"
| "fault_free (DurResubscribe flt _ _ _) = (flt = no_faults)"
| "fault_free (DurUnsubscribe flt _ _) = (flt = no_faults)"
| "fault_free (DurWork flt _ _ _ _) = (flt = no_faults)"
| "fault_free (DurCheckpoint flt _ _) = (flt = no_faults)"

text \<open>
  What a run is asked for: the file system does not fail, records have room in the log and texts
  are UTF-8, and identifiers are new. Queues may be deleted at any time, but a request whose queue
  was deleted after its lookup does not reach its append while another queue has the name, and a
  worker whose queue was deleted logs no acknowledgement. The code does not prevent these two;
  the defects they lead to are shown in \<open>Durable_Broker\<close> and \<open>Compaction_Correct\<close>.
\<close>

definition allowed :: "Config \<Rightarrow> string set \<Rightarrow> log_state \<Rightarrow> dur_event \<Rightarrow> dur_state \<Rightarrow> bool" where
  "allowed cfg U A e s \<longleftrightarrow> fault_free e \<and>
     (\<forall>op. op_of e s = Some op \<longrightarrow> room cfg (dcord s) (record_of op (cat (dcord s))) \<and>
        (case op of AckOp _ _ _ \<Rightarrow> True | _ \<Rightarrow> legal op A)) \<and>
     (case e of
        DurPost h _ _ \<Rightarrow> h |\<notin>| fmdom (denqs s)
      | DurEnqueue _ uuid h \<Rightarrow>
          \<forall>a n p. fmlookup (denqs s) h = Some (EnqLog a n p) \<longrightarrow>
            (n |\<in>| fmdom (dqueues s) \<longrightarrow> fmlookup (dqueues s) n = Some a) \<and> (\<forall>m. holds s a m \<longrightarrow> dmsgId m \<noteq> n @ ''-'' @ uuid)
      | DurWork _ _ ord _ a \<Rightarrow>
          visits_all ord \<and> (\<forall>q. fmlookup (dheap s) a = Some q \<longrightarrow> isClosed q \<longrightarrow> op_of e s = None)
      | DurCheckpoint _ ord uid \<Rightarrow> (\<forall>t. visits_all (ord t)) \<and> new_uid U uid \<and> ckpt_room cfg (dcord s)
      | _ \<Rightarrow> True)"

lemma live_invD:
  assumes "live_inv cfg U A s"
  shows "durable_run cfg U A (dfs s) (dcord s)" "dur_inv s" "dur_sync s" "cat (dcord s) = fst A" "tab_inv s"
    "\<And>n a. fmlookup (dqueues s) n = Some a \<Longrightarrow> agrees (snd A n) s a"
    "\<And>n a w. fmlookup (dqueues s) n = Some a \<Longrightarrow> fmlookup (dworkers s) a = Some w \<Longrightarrow> delivery_ok w"
    "fmdom (dqueues s) = fmdom (fst A)"
  using assms unfolding live_inv_def dur_inv_def dur_sync_def by (blast, blast, blast, blast, blast, blast, blast, simp)

text \<open>A step that changes neither the queues nor the workers nor the requests.\<close>

lemma live_log_step:
  assumes inv: "live_inv cfg U A s" and run: "durable_run cfg U' A' fs' c'" "cat c' = fst A'" "snd A' = snd A"
    and keeps: "keeps_inv s (s\<lparr>dfs := fs', dcord := c'\<rparr>)"
  shows "live_inv cfg U' A' (s\<lparr>dfs := fs', dcord := c'\<rparr>)"
proof -
  let ?s = "s\<lparr>dfs := fs', dcord := c'\<rparr>"
  have "agrees p ?s a = agrees p s a" for p a
    by (rule agrees_cong) (simp_all add: queued_def arriving_def)
  then show ?thesis using inv run keeps by (auto simp: live_inv_def keeps_inv_def)
qed

lemma live_subscriber:
  assumes inv: "live_inv cfg U A s" and mode: "cfgMode cfg \<noteq> ModeOff" and ok: "legal op A" "room cfg (dcord s) (record_of op (cat (dcord s)))"
    and f: "drop_value (f (dfs s) (dcord s)) = exec no_faults op (dfs s) (dcord s)" "cord_op f id"
    and p: "snd (spec op A) = snd A"
  shows "\<exists>s' e. lift_cord (with_cord f s) = Some (s', e) \<and>
    live_inv cfg U (if (\<exists>q. needs op = Some q \<and> q |\<notin>| fmdom (fst A)) then A else spec op A) s'"
proof -
  obtain fs' c' out where w: "with_cord f s = Some (s\<lparr>dfs := fs', dcord := c'\<rparr>, out)"
    "isl out \<longleftrightarrow> (\<exists>q. needs op = Some q \<and> q |\<notin>| fmdom (fst A))"
    "durable_run cfg U (if isl out then A else spec op A) fs' c'" "cat c' = fst (if isl out then A else spec op A)"
    by (rule with_cord_refines [where f = f, OF live_invD(1) [OF inv] mode ok f(1)])
  have di: "dur_inv s" "tab_inv s" "cord_ok (dcord s)" using live_invD(2,5) [OF inv] by (simp_all add: dur_inv_def)
  obtain fs2 c2 out2 where w2: "with_cord f s = Some (s\<lparr>dfs := fs2, dcord := c2\<rparr>, out2)" "cord_ok c2"
    "fmdom (cat c2) = (case out2 of Inl _ \<Rightarrow> fmdom (cat (dcord s)) | Inr _ \<Rightarrow> id (fmdom (cat (dcord s))))"
    by (rule with_cord_op [OF f(2) di(3)])
  have "s\<lparr>dfs := fs2, dcord := c2\<rparr> = s\<lparr>dfs := fs', dcord := c'\<rparr>" using w(1) w2(1) by simp
  then have "c2 = c'" by (metis dur_state.select_convs(2) dur_state.surjective dur_state.update_convs(2))
  then have "cord_ok c' \<and> fmdom (cat c') = fmdom (cat (dcord s))" using w2(2,3) by (simp split: sum.splits)
  then have "keeps_inv s (s\<lparr>dfs := fs', dcord := c'\<rparr>)"
    using keeps_inv_local [OF di(1), of "s\<lparr>dfs := fs', dcord := c'\<rparr>"] di(2) by simp
  from live_log_step [OF inv w(3,4) _ this] show ?thesis using w(1,2) p by (auto simp: lift_cord_def)
qed

lemma live_create:
  assumes inv: "live_inv cfg U A s" and mode: "cfgMode cfg \<noteq> ModeOff" and al: "allowed cfg U A (DurCreate flt n) s"
    and st: "dur_step (DurCreate flt n) s = Some s'"
  shows "live_inv cfg U (after (DurCreate flt n) s A) s'"
proof (cases "n |\<in>| fmdom (dqueues s) \<or> dnumQueues s \<ge> 128")
  case True
  then show ?thesis using st inv
    by (auto simp: after_def op_of_def dur_step_def HandleQueueCreation_def answer_def dur_CreateQueue_def split: if_splits)
next
  case False
  have op: "op_of (DurCreate flt n) s = Some (CreateOp n)" using False by (simp add: op_of_def)
  then have ok: "legal (CreateOp n) A" "room cfg (dcord s) (record_of (CreateOp n) (cat (dcord s)))" and [simp]: "flt = no_faults"
    using al by (simp_all add: allowed_def)
  obtain fs' c' out where w: "with_cord (coord_CreateQueue no_faults n) s = Some (s\<lparr>dfs := fs', dcord := c'\<rparr>, out)"
    "isl out \<longleftrightarrow> (\<exists>q. needs (CreateOp n) = Some q \<and> q |\<notin>| fmdom (fst A))"
    "durable_run cfg U (if isl out then A else spec (CreateOp n) A) fs' c'" "cat c' = fst (if isl out then A else spec (CreateOp n) A)"
    by (rule with_cord_refines [where f = "coord_CreateQueue no_faults n", OF live_invD(1) [OF inv] mode ok]) (rule exec_ops)
  have nl: "\<not> isl out" using w(2) by (simp add: needs_def)
  let ?s = "s\<lparr>dfs := fs', dcord := c'\<rparr>" and ?a = "dnextAddr s"
  have s': "s' = install_queue n ?s"
    using st False w(1) nl by (cases out) (auto simp: dur_step_def HandleQueueCreation_def answer_def dur_CreateQueue_def)
  obtain c p where A: "A = (c, p)" by (cases A)
  have k: "dur_inv s'" "dur_sync s'"
    using dur_step_inv [OF live_invD(2) [OF inv], of "DurCreate flt n"] st live_invD(3) [OF inv] by (simp_all add: keeps_inv_def)
  have fresh: "fmlookup (dheap s) ?a = None" "fmlookup (dworkers s) ?a = None"
  proof -
    have "dheap_ok s ?a" using live_invD(5) [OF inv] by (simp add: tab_inv_def)
    then show "fmlookup (dheap s) ?a = None" "fmlookup (dworkers s) ?a = None"
      by (auto simp: dheap_ok_def split: option.splits)
  qed
  have f: "dqueues s' = fmupd n ?a (dqueues s)" "dheap s' = fmupd ?a (dur_NewQueue n) (dheap s)"
    "dworkers s' = fmupd ?a DPopping (dworkers s)" "denqs s' = denqs s" "dfs s' = fs'" "dcord s' = c'"
    by (simp_all add: s' install_queue_def Let_def)
  have arr: "arriving s' b h m = arriving s b h m" for b h m by (simp add: arriving_def f(4))
  have reqs: "\<not> arriving s ?a h m" for h m
  proof
    assume "arriving s ?a h m"
    then have "enq_ok s (EnqAdd ?a m)" using live_invD(5) [OF inv] unfolding tab_inv_def arriving_def by blast
    then show False using fresh(1) by (auto elim: fmdomE)
  qed
  have other: "b \<noteq> ?a" if "fmlookup (dqueues s) m = Some b" for m b
    using tab_inv_queue [OF live_invD(5) [OF inv] that] fresh(1) by force
  have "n |\<notin>| fmdom (fst A)" using False live_invD(8) [OF inv] by simp
  then have "p n m = None" for m using durable_run_present [OF live_invD(1) [OF inv] mode, of n m] A by (cases "p n m") auto
  then have none: "p n = (\<lambda>_. None)" by (rule ext)
  have "agrees (p m) s' b" if "fmlookup (dqueues s') m = Some b" for m b
  proof (cases "m = n")
    case True
    then have "b = ?a" using that by (simp add: f(1))
    then show ?thesis using True none reqs arr new_queue(2) [of n]
      by (simp add: agrees_def holds_def single_def queued_def f(2,3))
  next
    case False
    then have m: "fmlookup (dqueues s) m = Some b" using that by (simp add: f(1))
    have "agrees (p m) s b" using live_invD(6) [OF inv m] A by simp
    moreover have "agrees (p m) s' b = agrees (p m) s b"
      by (rule agrees_cong) (use other [OF m] arr in \<open>simp_all add: queued_def f(2,3)\<close>)
    ultimately show ?thesis by simp
  qed
  moreover have "delivery_ok w" if "fmlookup (dqueues s') m = Some b" "fmlookup (dworkers s') b = Some w" for m b w
    using that live_invD(7) [OF inv, of m b w] other [of m b] by (auto simp: f(1,3) split: if_splits)
  moreover have "after (DurCreate flt n) s A = spec (CreateOp n) A" using op by (simp add: after_def needs_def)
  ultimately show ?thesis
    using k w(3,4) nl A by (simp add: live_inv_def f(5,6) spec_def)
qed

lemma live_delete:
  assumes inv: "live_inv cfg U A s" and mode: "cfgMode cfg \<noteq> ModeOff" and al: "allowed cfg U A (DurDelete flt n) s"
    and st: "dur_step (DurDelete flt n) s = Some s'"
  shows "live_inv cfg U (after (DurDelete flt n) s A) s'"
proof (cases "fmlookup (dqueues s) n")
  case None
  then have "n |\<notin>| fmdom (dqueues s)" by (rule fmdom_notI)
  then show ?thesis using st inv None
    by (auto simp: after_def op_of_def dur_step_def HandleQueueDeletion_def answer_def dur_DeleteQueue_def)
next
  case (Some a)
  have n: "n |\<in>| fmdom (dqueues s)" using Some by (rule fmdomI)
  then have op: "op_of (DurDelete flt n) s = Some (DeleteOp n)" by (simp add: op_of_def)
  then have ok: "legal (DeleteOp n) A" "room cfg (dcord s) (record_of (DeleteOp n) (cat (dcord s)))" and [simp]: "flt = no_faults"
    using al by (simp_all add: allowed_def)
  obtain fs' c' out where w: "with_cord (coord_DeleteQueue no_faults n) s = Some (s\<lparr>dfs := fs', dcord := c'\<rparr>, out)"
    "isl out \<longleftrightarrow> (\<exists>q. needs (DeleteOp n) = Some q \<and> q |\<notin>| fmdom (fst A))"
    "durable_run cfg U (if isl out then A else spec (DeleteOp n) A) fs' c'" "cat c' = fst (if isl out then A else spec (DeleteOp n) A)"
    by (rule with_cord_refines [where f = "coord_DeleteQueue no_faults n", OF live_invD(1) [OF inv] mode ok]) (rule exec_ops)
  have nl: "\<not> isl out" using w(2) n live_invD(8) [OF inv] by (simp add: needs_def)
  obtain q where q: "fmlookup (dheap s) a = Some q" "\<not> isClosed q" by (rule tab_inv_queue [OF live_invD(5) [OF inv] Some])
  obtain c p where A: "A = (c, p)" by (cases A)
  have f: "dqueues s' = fmdrop n (dqueues s)" "dheap s' = fmupd a (q\<lparr>isClosed := True\<rparr>) (dheap s)"
    "dworkers s' = dworkers s" "denqs s' = denqs s" "dfs s' = fs'" "dcord s' = c'"
    using st Some w(1) nl q by (cases out; auto simp: dur_step_def HandleQueueDeletion_def answer_def dur_DeleteQueue_def close_chan_def)+
  have k: "dur_inv s'" "dur_sync s'"
    using dur_step_inv [OF live_invD(2) [OF inv], of "DurDelete flt n"] st live_invD(3) [OF inv] by (simp_all add: keeps_inv_def)
  have queued: "queued s' b = queued s b" for b using q(1) by (auto simp: queued_def f(2,3) split: option.splits)
  have "agrees ((p(n := \<lambda>_. None)) m) s' b" if "fmlookup (dqueues s') m = Some b" for m b
  proof -
    have m: "m \<noteq> n" "fmlookup (dqueues s) m = Some b" using that by (auto simp: f(1) split: if_splits)
    have "agrees (p m) s' b = agrees (p m) s b"
      by (rule agrees_cong) (simp_all add: queued arriving_def f(4))
    then show ?thesis using live_invD(6) [OF inv m(2)] A m(1) by simp
  qed
  moreover have "delivery_ok w" if "fmlookup (dqueues s') m = Some b" "fmlookup (dworkers s') b = Some w" for m b w
    using that live_invD(7) [OF inv, of m b w] by (auto simp: f(1,3) split: if_splits)
  moreover have "after (DurDelete flt n) s A = spec (DeleteOp n) A" using op n live_invD(8) [OF inv] by (simp add: after_def needs_def)
  ultimately show ?thesis
    using k w(3,4) nl A by (simp add: live_inv_def f(5,6) spec_def)
qed

text \<open>A step of a request that changes no queue.\<close>

lemma live_request:
  assumes inv: "live_inv cfg U A s" and k: "keeps_inv s (s\<lparr>denqs := e\<rparr>)"
    and add: "\<And>h a m. fmlookup e h = Some (EnqAdd a m) \<longleftrightarrow> fmlookup (denqs s) h = Some (EnqAdd a m)"
  shows "live_inv cfg U A (s\<lparr>denqs := e\<rparr>)"
proof -
  have "agrees p (s\<lparr>denqs := e\<rparr>) a = agrees p s a" for p a
    by (rule agrees_cong) (simp_all add: queued_def arriving_def add)
  then show ?thesis using inv k by (simp add: live_inv_def keeps_inv_def)
qed

lemma live_post:
  assumes inv: "live_inv cfg U A s" and al: "allowed cfg U A (DurPost h n body) s" and st: "dur_step (DurPost h n body) s = Some s'"
  shows "live_inv cfg U (after (DurPost h n body) s A) s'"
proof -
  have h: "fmlookup (denqs s) h = None" using al by (auto simp: allowed_def fmdom_notD)
  have k: "keeps_inv s s'" using dur_step_inv [OF live_invD(2) [OF inv], of "DurPost h n body"] st by simp
  have a: "after (DurPost h n body) s A = A" by (simp add: after_def op_of_def)
  show ?thesis
  proof (cases body)
    case None
    then show ?thesis using st inv a by (simp add: dur_step_def HandleEnqueue_def)
  next
    case (Some b)
    have s': "s' = s\<lparr>denqs := fmupd h (EnqLookup n b) (denqs s)\<rparr>" using st Some by (simp add: dur_step_def HandleEnqueue_def)
    show ?thesis unfolding a s'
      by (rule live_request [OF inv k [unfolded s']]) (use h in \<open>auto split: if_splits\<close>)
  qed
qed

text \<open>The message that \<open>Enqueue\<close> logs carries the subscribers of that moment.\<close>

lemma coord_Enqueue_subs:
  assumes "coord_Enqueue flt n m p fs c = Some ((fs', c'), Inr subs)"
  shows "subs = subs_of n (cat c)"
proof -
  obtain i where i: "fmlookup (cat c) n = Some i"
    using assms by (auto simp: coord_Enqueue_def QueueExists_def split: if_splits option.splits)
  then obtain st out where "coord_append flt (mk_record OpEnqueue n
      (EncodeEnqueue \<lparr>enqMsgId = m, MsgContent = p, SubList = qiSubs i\<rparr>)) fs c = Some (st, out)" "map_sum id (\<lambda>_. qiSubs i) out = Inr subs"
    using assms by (auto simp: coord_Enqueue_def QueueExists_def FetchQueueSubList_def split: bind_splits)
  then show ?thesis using i by (cases out) (simp_all add: subs_of_def)
qed

lemma live_enqueue_log:
  assumes inv: "live_inv cfg U A s" and mode: "cfgMode cfg \<noteq> ModeOff" and al: "allowed cfg U A (DurEnqueue flt uuid h) s"
    and st: "dur_step (DurEnqueue flt uuid h) s = Some s'" and pc: "fmlookup (denqs s) h = Some (EnqLog a n x)"
  shows "live_inv cfg U (after (DurEnqueue flt uuid h) s A) s'"
proof -
  let ?id = "n @ ''-'' @ uuid"
  let ?op = "EnqueueOp n ?id x"
  have op: "op_of (DurEnqueue flt uuid h) s = Some ?op" using pc by (simp add: op_of_def)
  then have ok: "legal ?op A" "room cfg (dcord s) (record_of ?op (cat (dcord s)))" and [simp]: "flt = no_faults"
    and new: "\<And>m. holds s a m \<Longrightarrow> dmsgId m \<noteq> ?id" and here: "n |\<in>| fmdom (dqueues s) \<Longrightarrow> fmlookup (dqueues s) n = Some a"
    using al pc by (simp_all add: allowed_def)
  obtain fs' c' out where w: "with_cord (coord_Enqueue no_faults n ?id x) s = Some (s\<lparr>dfs := fs', dcord := c'\<rparr>, out)"
    "isl out \<longleftrightarrow> (\<exists>q. needs ?op = Some q \<and> q |\<notin>| fmdom (fst A))"
    "durable_run cfg U (if isl out then A else spec ?op A) fs' c'" "cat c' = fst (if isl out then A else spec ?op A)"
    by (rule with_cord_refines [where f = "coord_Enqueue no_faults n ?id x", OF live_invD(1) [OF inv] mode ok]) (rule exec_ops)
  have k: "dur_inv s'" "dur_sync s'"
    using dur_step_inv [OF live_invD(2) [OF inv], of "DurEnqueue flt uuid h"] st live_invD(3) [OF inv] by (simp_all add: keeps_inv_def)
  show ?thesis
  proof (cases "n |\<in>| fmdom (fst A)")
    case False
    then have "isl out" using w(2) by (simp add: needs_def)
    then have s': "s' = s\<lparr>dfs := fs', dcord := c', denqs := fmdrop h (denqs s)\<rparr>"
      using st pc w(1) by (cases out) (simp_all add: dur_step_def HandleEnqueue_step_def dur_Enqueue_def Let_def)
    have "agrees p s' b = agrees p s b" for p b
      by (rule agrees_cong) (use pc in \<open>simp_all add: queued_def arriving_def s'\<close>)
    moreover have "after (DurEnqueue flt uuid h) s A = A" using op False by (simp add: after_def needs_def)
    ultimately show ?thesis using k w(3,4) \<open>isl out\<close> live_invD(6,7) [OF inv] by (simp add: live_inv_def s')
  next
    case n: True
    have a: "fmlookup (dqueues s) n = Some a" using here n live_invD(8) [OF inv] by simp
    have nl: "\<not> isl out" using w(2) n by (simp add: needs_def)
    then obtain subs where out: "out = Inr subs" by (cases out) auto
    have subs: "subs = subs_of n (fst A)"
    proof -
      obtain fs2 c2 o2 where e: "coord_Enqueue no_faults n ?id x (dfs s) (dcord s) = Some ((fs2, c2), o2)"
        using w(1) by (auto simp: with_cord_def split: bind_splits)
      then have "o2 = Inr subs" using w(1) out by (simp add: with_cord_def)
      then show ?thesis using coord_Enqueue_subs [OF e [unfolded \<open>o2 = Inr subs\<close>]] live_invD(4) [OF inv] by simp
    qed
    let ?m = "dur_NewQueueMsg ?id x subs None"
    have s': "s' = s\<lparr>dfs := fs', dcord := c', denqs := fmupd h (EnqAdd a ?m) (denqs s)\<rparr>"
      using st pc w(1) out by (simp add: dur_step_def HandleEnqueue_step_def dur_Enqueue_def Let_def)
    obtain c p where A: "A = (c, p)" by (cases A)
    have m: "dmsgId ?m = ?id" "info ?m = \<lparr>Content = x, dSubList = subs_of n c, dAckedSubs = {||}\<rparr>"
      using subs A by (simp_all add: dur_NewQueueMsg_def info_def)
    have mt: "msg_text ?m"
      using ok(1) subs_of_text [OF durable_run_text(1) [OF live_invD(1) [OF inv] mode], of n] subs A
      by (simp add: msg_text_def dur_NewQueueMsg_def legal_def)
    have sp: "spec ?op A = (c, p(n := (p n)(?id := keep (info ?m))))"
      using A m(2) by (simp add: spec_def put_upd)
    have queued: "queued s' b = queued s b" for b by (simp add: queued_def s')
    have "agrees ((p(n := (p n)(?id := keep (info ?m)))) l) s' b" if "fmlookup (dqueues s') l = Some b" for l b
    proof -
      have l: "fmlookup (dqueues s) l = Some b" using that by (simp add: s')
      have ag: "agrees (p l) s b" using live_invD(6) [OF inv l] A by simp
      show ?thesis
      proof (cases "l = n")
        case True
        then have "b = a" using l a by simp
        have "agrees ((p l)(dmsgId ?m := keep (info ?m))) s' b"
          by (rule agrees_arrive [OF ag queued, of h]) (use \<open>b = a\<close> pc new mt m(1) in \<open>auto simp: arriving_def s'\<close>)
        then show ?thesis using True m(1) by simp
      next
        case False
        then have "b \<noteq> a" using l a tab_inv_queue [OF live_invD(5) [OF inv]] by (metis option.inject)
        have "agrees (p l) s' b = agrees (p l) s b"
          by (rule agrees_cong [OF queued]) (use \<open>b \<noteq> a\<close> pc in \<open>auto simp: arriving_def s'\<close>)
        then show ?thesis using ag False by simp
      qed
    qed
    moreover have "after (DurEnqueue flt uuid h) s A = spec ?op A" using op n by (simp add: after_def needs_def)
    ultimately show ?thesis
      using k w(3,4) nl live_invD(7) [OF inv] sp by (simp add: live_inv_def s')
  qed
qed

lemma live_enqueue:
  assumes inv: "live_inv cfg U A s" and mode: "cfgMode cfg \<noteq> ModeOff" and al: "allowed cfg U A (DurEnqueue flt uuid h) s"
    and st: "dur_step (DurEnqueue flt uuid h) s = Some s'"
  shows "live_inv cfg U (after (DurEnqueue flt uuid h) s A) s'"
proof (cases "fmlookup (denqs s) h")
  case None
  then show ?thesis using st inv by (simp add: after_def op_of_def dur_step_def HandleEnqueue_step_def dur_Enqueue_def)
next
  case (Some pc)
  have k: "keeps_inv s s'" using dur_step_inv [OF live_invD(2) [OF inv], of "DurEnqueue flt uuid h"] st by simp
  show ?thesis
  proof (cases pc)
    case (EnqLookup n x)
    have a: "after (DurEnqueue flt uuid h) s A = A" using Some EnqLookup by (simp add: after_def op_of_def)
    let ?e = "case fmlookup (dqueues s) n of None \<Rightarrow> fmdrop h (denqs s) | Some a \<Rightarrow> fmupd h (EnqLog a n x) (denqs s)"
    have s': "s' = s\<lparr>denqs := ?e\<rparr>"
      using st Some EnqLookup by (auto simp: dur_step_def HandleEnqueue_step_def dur_Enqueue_def split: option.splits)
    show ?thesis unfolding a s'
      by (rule live_request [OF inv k [unfolded s']])
        (use Some EnqLookup in \<open>auto split: if_splits option.splits\<close>)
  next
    case (EnqLog a n x)
    then show ?thesis using live_enqueue_log [OF inv mode al st] Some by simp
  next
    case (EnqAdd a m)
    have a: "after (DurEnqueue flt uuid h) s A = A" using Some EnqAdd by (simp add: after_def op_of_def)
    have "enq_ok s (EnqAdd a m)" using live_invD(5) [OF inv] Some EnqAdd unfolding tab_inv_def by blast
    then obtain q where q: "fmlookup (dheap s) a = Some q" by (auto elim: fmdomE)
    obtain w where "dcell_ok q w" by (rule tab_inv_cell [OF live_invD(5) [OF inv] q])
    then obtain q' where q': "AddWake m q = Some q'" "ring_contents q' = ring_contents q @ [m]" by (rule dcell_ok_AddWake)
    have s': "s' = s\<lparr>dheap := fmupd a q' (dheap s), denqs := fmdrop h (denqs s)\<rparr>"
      using st Some EnqAdd q q'(1) by (simp add: dur_step_def HandleEnqueue_step_def dur_Enqueue_def add_to_heap_def)
    have "agrees (snd A l) s' b" if "fmlookup (dqueues s) l = Some b" for l b
    proof (cases "b = a")
      case True
      then show ?thesis
        by (intro agrees_added [OF live_invD(6) [OF inv that], of _ m h])
          (use q q'(2) Some EnqAdd in \<open>auto simp: queued_def arriving_def s' split: option.splits\<close>)
    next
      case False
      have "agrees (snd A l) s' b = agrees (snd A l) s b"
        by (rule agrees_cong) (use False Some EnqAdd in \<open>auto simp: queued_def arriving_def s'\<close>)
      then show ?thesis using live_invD(6) [OF inv that] by simp
    qed
    then show ?thesis using k inv unfolding a by (simp add: live_inv_def keeps_inv_def s')
  qed
qed

section \<open>Deliveries\<close>

lemma fmdom_dur_pending: "fmdom (dur_pending m) = unacked (info m)"
  by (rule fset_eqI) (auto simp: dur_pending_def unacked_def info_def)

text \<open>Results come back under the subscribers' own names, once each.\<close>

lemma dur_results_names:
  assumes "keyed (SubPolicySnapshot m)" "visits_all ord"
  shows "map fst (dur_results http ord (dur_pending m) m) = ord (unacked (info m))"
proof -
  have "SubName (the (fmlookup (dur_pending m) k)) = k" if "k \<in> set (ord (unacked (info m)))" for k
    using that assms fmdom_dur_pending [of m]
    by (auto simp: visits_allD keyed_def dur_pending_def unacked_def info_def fmlookup_dom_iff)
  then show ?thesis by (simp add: dur_results_def Let_def comp_def fmdom_dur_pending map_idI)
qed

lemma dur_judge_keeps:
  "dmsgId (fst (dur_judge pol r m)) = dmsgId m" "info (fst (dur_judge pol r m)) = info m"
  "msg_text (fst (dur_judge pol r m)) = msg_text m"
  by (simp_all add: dur_judge_def Let_def info_def msg_text_def)

lemma live_worker_local:
  assumes inv: "live_inv cfg U A s" and a: "fmlookup (dqueues s) n = Some a" and k: "keeps_inv s s'"
    and f: "dqueues s' = dqueues s" "denqs s' = denqs s" "dfs s' = dfs s" "dcord s' = dcord s"
      "\<And>b. b \<noteq> a \<Longrightarrow> fmlookup (dheap s') b = fmlookup (dheap s) b" "dworkers s' = fmupd a w' (dworkers s)"
    and ag: "agrees (snd A n) s' a" and d: "delivery_ok w'"
  shows "live_inv cfg U A s'"
proof -
  have "agrees (snd A l) s' b" if l: "fmlookup (dqueues s) l = Some b" for l b
  proof (cases "b = a")
    case True
    have "l = n" using l a True tab_inv_queue [OF live_invD(5) [OF inv]] by (metis option.inject)
    then show ?thesis using ag True by simp
  next
    case False
    have "agrees (snd A l) s' b = agrees (snd A l) s b"
      by (rule agrees_cong) (use False f in \<open>auto simp: queued_def arriving_def\<close>)
    then show ?thesis using live_invD(6) [OF inv l] by simp
  qed
  moreover have "delivery_ok w" if "fmlookup (dqueues s) l = Some b" "fmlookup (dworkers s') b = Some w" for l b w
    using that d live_invD(7) [OF inv, of l b w] by (simp add: f(6) split: if_splits)
  ultimately show ?thesis using inv k by (simp add: live_inv_def keeps_inv_def f(1-4))
qed

text \<open>One result handled.\<close>

lemma live_settle:
  assumes inv: "live_inv cfg U A s" and mode: "cfgMode cfg \<noteq> ModeOff" and al: "allowed cfg U A (DurWork flt http ord pick a) s"
    and st: "dur_step (DurWork flt http ord pick a) s = Some s'"
    and q: "fmlookup (dheap s) a = Some q" "fmlookup (dqueues s) (dname q) = Some a"
    and w: "fmlookup (dworkers s) a = Some (DSettling m pol (r # rs) rem)"
  shows "live_inv cfg U (after (DurWork flt http ord pick a) s A) s'"
proof -
  let ?n = "dname q" and ?e = "DurWork flt http ord pick a"
  have [simp]: "flt = no_faults" using al by (simp add: allowed_def)
  have k: "keeps_inv s s'" using dur_step_inv [OF live_invD(2) [OF inv], of ?e] st by simp
  obtain m1 acked where j: "dur_judge pol r m = (m1, acked)" by (cases "dur_judge pol r m")
  have m1: "dmsgId m1 = dmsgId m" "info m1 = info m" "msg_text m1 = msg_text m" using dur_judge_keeps [of pol r m] j by simp_all
  have dl: "distinct (map fst (r # rs))" "fst ` set (r # rs) \<subseteq> fset (unacked (info m))"
    "\<not> rem \<Longrightarrow> fset (unacked (info m)) \<subseteq> fst ` set (r # rs)"
    using live_invD(7) [OF inv q(2) w] by simp_all
  have ag: "agrees (snd A ?n) s a" by (rule live_invD(6) [OF inv q(2)])
  have qd: "queued s a = ring_contents q @ [m]" using q(1) w by (simp add: queued_def)
  have held: "holds s a m" using qd by (simp add: holds_def)
  have mt: "msg_text m" "snd A ?n (dmsgId m) = keep (info m)" using ag held by (simp_all add: agrees_def)
  have owe: "fst r |\<in>| unacked (info m)" using dl(2) by auto
  have change: "agrees ((snd A ?n)(dmsgId m := keep (info m2))) s'' a"
    if "dmsgId m2 = dmsgId m" "msg_text m2" "queued s'' a = ring_contents q @ [m2]" "denqs s'' = denqs s" for m2 s''
    by (rule agrees_change [OF ag, of m "ring_contents q"]) (use that qd in \<open>simp_all add: arriving_def\<close>)
  show ?thesis
  proof (cases acked)
    case False
    have s': "s' = set_pc a (DSettling m1 pol rs True) s"
      using st q(1) w j False by (simp add: dur_step_def dur_worker_def dur_settle_one_def)
    have "agrees ((snd A ?n)(dmsgId m := keep (info m1))) s' a"
      by (rule change) (use m1 mt q(1) in \<open>simp_all add: s' set_pc_def queued_def\<close>)
    then have "agrees (snd A ?n) s' a" using mt(2) m1(2) by (simp add: fun_upd_idem)
    moreover have "delivery_ok (DSettling m1 pol rs True)" using dl m1(2) by auto
    ultimately have "live_inv cfg U A s'"
      by (intro live_worker_local [where w' = "DSettling m1 pol rs True", OF inv q(2) k]) (simp_all add: s' set_pc_def)
    moreover have "after ?e s A = A" using q(1) w j False by (simp add: after_def op_of_def)
    ultimately show ?thesis by simp
  next
    case True
    let ?op = "AckOp ?n (dmsgId m) (fst r)"
    have op: "op_of ?e s = Some ?op" using q(1) w j True by (simp add: op_of_def)
    obtain c p where A: "A = (c, p)" by (cases A)
    have un: "unacked (info m) \<noteq> {||}" using owe by auto
    have pm: "p ?n (dmsgId m) = Some (info m)" using mt(2) A un by (simp add: keep_def)
    have "valid_utf8 (fst r)" using mt(1) owe by (auto simp: msg_text_def unacked_def info_def policies_text_def fmlookup_dom_iff)
    then have legal: "legal ?op A" using mt(1) pm owe A by (auto simp: legal_def msg_text_def)
    have room: "room cfg (dcord s) (record_of ?op (cat (dcord s)))" using al op by (simp add: allowed_def)
    obtain fs' c' out where wc: "with_cord (coord_Ack no_faults ?n (dmsgId m) (fst r)) s = Some (s\<lparr>dfs := fs', dcord := c'\<rparr>, out)"
      "isl out \<longleftrightarrow> (\<exists>q. needs ?op = Some q \<and> q |\<notin>| fmdom (fst A))"
      "durable_run cfg U (if isl out then A else spec ?op A) fs' c'" "cat c' = fst (if isl out then A else spec ?op A)"
      by (rule with_cord_refines [where f = "coord_Ack no_faults ?n (dmsgId m) (fst r)", OF live_invD(1) [OF inv] mode legal room])
        (rule exec_ops)
    have nl: "\<not> isl out" using wc(2) by (simp add: needs_def)
    let ?m = "m1\<lparr>dAcked := finsert (fst r) (dAcked m1)\<rparr>"
    have s': "s' = set_pc a (DSettling ?m pol rs rem) (s\<lparr>dfs := fs', dcord := c'\<rparr>)"
      using st q(1) w j True wc(1) nl m1(1) by (cases out) (simp_all add: dur_step_def dur_worker_def dur_settle_one_def)
    have im: "info ?m = ack_msg (fst r) (info m)" using m1(2) by (simp add: info_def ack_msg_def)
    have sp: "spec ?op A = (c, p(?n := (p ?n)(dmsgId m := keep (info ?m))))"
      using A pm im by (simp add: spec_def put_upd)
    have ag': "agrees ((snd A ?n)(dmsgId m := keep (info ?m))) s' a"
      by (rule change) (use m1 mt q(1) in \<open>simp_all add: s' set_pc_def queued_def msg_text_def\<close>)
    have un': "fset (unacked (info ?m)) = fset (unacked (info m)) - {fst r}" unfolding im by (auto simp: unacked_def ack_msg_def)
    have "fst r \<notin> fst ` set rs" "distinct (map fst rs)" using dl(1) by simp_all
    then have dl': "delivery_ok (DSettling ?m pol rs rem)" unfolding delivery_ok.simps un' using dl(2,3) by (simp; blast)
    have "agrees (snd (spec ?op A) l) s' b" if l: "fmlookup (dqueues s) l = Some b" for l b
    proof (cases "b = a")
      case True
      have "l = ?n" using l q(2) True tab_inv_queue [OF live_invD(5) [OF inv]] by (metis option.inject)
      then show ?thesis using ag' True sp A by simp
    next
      case False
      have "l \<noteq> ?n" using l q(2) False by auto
      have "agrees (p l) s' b = agrees (p l) s b"
        by (rule agrees_cong) (use False in \<open>auto simp: queued_def arriving_def s' set_pc_def\<close>)
      then show ?thesis using live_invD(6) [OF inv l] sp A \<open>l \<noteq> ?n\<close> by simp
    qed
    moreover have "after ?e s A = spec ?op A" using op by (simp add: after_def needs_def)
    moreover have "delivery_ok w" if "fmlookup (dqueues s) l = Some b" "fmlookup (dworkers s') b = Some w" for l b w
    proof (cases "b = a")
      case True
      then show ?thesis using that(2) dl' by (auto simp: s' set_pc_def simp del: delivery_ok.simps)
    next
      case False
      then show ?thesis using that live_invD(7) [OF inv, of l b w] by (simp add: s' set_pc_def)
    qed
    ultimately show ?thesis using inv k wc(3,4) nl by (simp add: live_inv_def keeps_inv_def s' set_pc_def)
  qed
qed

text \<open>A worker whose queue was deleted, while it logs nothing, touches nothing but that queue.\<close>

lemma worker_frame:
  assumes "dur_worker flt http ord pick a s = Some s'" "op_of (DurWork flt http ord pick a) s = None"
  shows "dqueues s' = dqueues s \<and> denqs s' = denqs s \<and> dfs s' = dfs s \<and> dcord s' = dcord s \<and>
    (\<forall>b. b \<noteq> a \<longrightarrow> fmlookup (dheap s') b = fmlookup (dheap s) b \<and> fmlookup (dworkers s') b = fmlookup (dworkers s) b)"
proof (cases "fmlookup (dheap s) a")
  case None
  then show ?thesis using assms(1) by (simp add: dur_worker_def)
next
  case (Some q)
  show ?thesis
  proof (cases "fmlookup (dworkers s) a")
    case None
    then show ?thesis using assms(1) Some by (simp add: dur_worker_def)
  next
    case w: (Some w)
    show ?thesis
    proof (cases w)
      case (DSettling m pol rs rem)
      then show ?thesis using assms Some w
        by (cases rs; cases "dur_judge pol (hd rs) m")
          (auto simp: dur_worker_def op_of_def dur_settle_one_def add_to_heap_def set_pc_def split: bind_splits if_splits)
    qed (use assms(1) Some w in \<open>auto simp: dur_worker_def set_pc_def split: bind_splits if_splits\<close>)
  qed
qed

lemma live_worker_closed:
  assumes inv: "live_inv cfg U A s" and q: "fmlookup (dheap s) a = Some q" "isClosed q"
    and op: "op_of (DurWork flt http ord pick a) s = None" and st: "dur_step (DurWork flt http ord pick a) s = Some s'"
  shows "live_inv cfg U A s'"
proof -
  let ?e = "DurWork flt http ord pick a"
  have k: "keeps_inv s s'" using dur_step_inv [OF live_invD(2) [OF inv], of ?e] st by simp
  have f: "dqueues s' = dqueues s" "denqs s' = denqs s" "dfs s' = dfs s" "dcord s' = dcord s"
    "\<And>b. b \<noteq> a \<Longrightarrow> fmlookup (dheap s') b = fmlookup (dheap s) b \<and> fmlookup (dworkers s') b = fmlookup (dworkers s) b"
    using worker_frame [of flt http ord pick a s s'] st op by (simp_all add: dur_step_def)
  have ne: "b \<noteq> a" if "fmlookup (dqueues s) l = Some b" for l b
    using tab_inv_queue [OF live_invD(5) [OF inv] that] q by (metis option.inject)
  have "agrees p s' b = agrees p s b" if "fmlookup (dqueues s) l = Some b" for p l b
    by (rule agrees_cong) (use f(2) f(5) [OF ne [OF that]] in \<open>simp_all add: queued_def arriving_def\<close>)
  moreover have "delivery_ok w" if "fmlookup (dqueues s) l = Some b" "fmlookup (dworkers s') b = Some w" for l b w
    using that f(5) [OF ne [OF that(1)]] live_invD(7) [OF inv that(1)] by simp
  ultimately show ?thesis using inv k live_invD(6) [OF inv] by (simp add: live_inv_def keeps_inv_def f(1-4))
qed

lemma live_worker_open:
  assumes inv: "live_inv cfg U A s" and mode: "cfgMode cfg \<noteq> ModeOff" and al: "allowed cfg U A (DurWork flt http ord pick a) s"
    and st: "dur_step (DurWork flt http ord pick a) s = Some s'" and Some: "fmlookup (dheap s) a = Some q" and live: "\<not> isClosed q"
  shows "live_inv cfg U (after (DurWork flt http ord pick a) s A) s'"
proof -
  let ?e = "DurWork flt http ord pick a"
  have ord: "visits_all ord" "\<not> isClosed q" using al Some live by (simp_all add: allowed_def)
  obtain w where w: "fmlookup (dworkers s) a = Some w" "dcell_ok q w" by (rule tab_inv_cell [OF live_invD(5) [OF inv] Some])
  have n: "fmlookup (dqueues s) (dname q) = Some a"
  proof -
    have "dheap_ok s a" using live_invD(5) [OF inv] by (simp add: tab_inv_def)
    then show ?thesis using Some w(1) ord(2) by (simp add: dheap_ok_def)
  qed
  have k: "keeps_inv s s'" using dur_step_inv [OF live_invD(2) [OF inv], of ?e] st by simp
  have ag: "agrees (snd A (dname q)) s a" by (rule live_invD(6) [OF inv n])
  note dok = live_invD(7) [OF inv n w(1)]
  have loc: "live_inv cfg U A s'" if "s' = set_pc a w' (s\<lparr>dheap := h'\<rparr>)" "\<And>b. b \<noteq> a \<Longrightarrow> fmlookup h' b = fmlookup (dheap s) b"
    "agrees (snd A (dname q)) s' a" "delivery_ok w'" for w' h'
    by (rule live_worker_local [where w' = w', OF inv n k]) (use that in \<open>simp_all add: set_pc_def\<close>)
  have loc0: "live_inv cfg U A s'" if "s' = set_pc a w' s" "agrees (snd A (dname q)) s' a" "delivery_ok w'" for w'
    by (rule live_worker_local [where w' = w', OF inv n k]) (use that in \<open>simp_all add: set_pc_def\<close>)
  have arr: "arriving (set_pc a w' s1) a h m = arriving s a h m" if "denqs s1 = denqs s" for w' s1 h m
    using that by (simp add: arriving_def set_pc_def)
  show ?thesis
  proof (cases w)
    case DPopping
    have "ring_inv q" using w(2) by (simp add: dcell_ok_def)
    then obtain r q' where q': "Pop q = Some (r, q')" "ring_contents q' = tl (ring_contents q)"
      "r = (case ring_contents q of [] \<Rightarrow> None | m # _ \<Rightarrow> Some m)"
      by (rule Pop_wqueue)
    let ?w = "case r of None \<Rightarrow> DSelecting | Some m \<Rightarrow>
      let policyByName = dur_pending m in if maplen policyByName = 0 then DPopping else DSending m policyByName"
    have s': "s' = set_pc a ?w (s\<lparr>dheap := fmupd a q' (dheap s)\<rparr>)"
      using st Some w(1) DPopping q'(1) by (simp add: dur_step_def dur_worker_def)
    have qd: "queued s a = ring_contents q" using Some w(1) DPopping by (simp add: queued_def)
    have qd': "queued s' a = tl (ring_contents q) @ in_hand ?w" using q'(2) by (simp add: queued_def s' set_pc_def)
    have "agrees (snd A (dname q)) s' a"
    proof (cases "ring_contents q")
      case Nil
      then have "queued s' a = queued s a" using qd qd' q'(3) by simp
      then show ?thesis using agrees_cong [of s' a s] arr s' ag by simp
    next
      case (Cons m ms)
      show ?thesis
      proof (cases "maplen (dur_pending m) = 0")
        case True
        then have "unacked (info m) = {||}" using fmdom_dur_pending [of m] by (simp add: maplen_def fcard_0_eq)
        then show ?thesis
          by (intro agrees_drop [OF ag, of m]) (use qd qd' q'(3) Cons True arr s' in simp_all)
      next
        case False
        then have "mset (queued s' a) = mset (queued s a)" using qd qd' q'(3) Cons by simp
        then show ?thesis using agrees_queued [of s' a s] arr s' ag by simp
      qed
    qed
    then have "live_inv cfg U A s'"
      by (intro loc [OF s']) (simp_all add: Let_def split: option.split)
    then show ?thesis using Some w(1) DPopping by (simp add: after_def op_of_def)
  next
    case (DSending m pol)
    let ?w = "DSettling m pol (dur_results http ord pol m) False"
    have s': "s' = set_pc a ?w s" using st Some w(1) DSending by (simp add: dur_step_def dur_worker_def)
    have "queued s' a = queued s a" using Some w(1) DSending by (simp add: queued_def s' set_pc_def)
    then have ag': "agrees (snd A (dname q)) s' a" using agrees_cong [of s' a s] arr s' ag by simp
    have "holds s a m" using Some w(1) DSending by (simp add: holds_def queued_def)
    then have "keyed (SubPolicySnapshot m)" using ag by (simp add: agrees_def msg_text_def)
    moreover have "pol = dur_pending m" using dok DSending by simp
    ultimately have "map fst (dur_results http ord pol m) = ord (unacked (info m))" using dur_results_names [OF _ ord(1)] by simp
    then have "delivery_ok ?w" using visits_allD [OF ord(1), of "unacked (info m)"] by (simp flip: set_map)
    from loc0 [OF s' ag' this] show ?thesis using Some w(1) DSending by (simp add: after_def op_of_def)
  next
    case (DSettling m pol rs rem)
    show ?thesis
    proof (cases rs)
      case (Cons r rs')
      then show ?thesis using live_settle [OF inv mode al st Some n] w(1) DSettling by simp
    next
      case Nil
      have a: "after ?e s A = A" using Some w(1) DSettling Nil by (simp add: after_def op_of_def)
      have qd: "queued s a = ring_contents q @ [m]" using Some w(1) DSettling by (simp add: queued_def)
      show ?thesis
      proof (cases rem)
        case True
        obtain q' where q': "AddWake m q = Some q'" "ring_contents q' = ring_contents q @ [m]" by (rule dcell_ok_AddWake [OF w(2)])
        have s': "s' = set_pc a DPopping (s\<lparr>dheap := fmupd a q' (dheap s)\<rparr>)"
          using st Some w(1) DSettling Nil True q'(1) by (simp add: dur_step_def dur_worker_def add_to_heap_def)
        have "queued s' a = queued s a" using qd q'(2) by (simp add: queued_def s' set_pc_def)
        then have "agrees (snd A (dname q)) s' a" using agrees_cong [of s' a s] arr s' ag by simp
        from loc [OF s' _ this] show ?thesis by (simp add: a)
      next
        case False
        have s': "s' = set_pc a DPopping s"
          using st Some w(1) DSettling Nil False by (simp add: dur_step_def dur_worker_def)
        have "queued s' a = ring_contents q" using Some by (simp add: queued_def s' set_pc_def)
        moreover have "unacked (info m) = {||}" using dok DSettling Nil False by auto
        ultimately have "agrees (snd A (dname q)) s' a"
          by (intro agrees_drop [OF ag, of m]) (use qd arr s' in simp_all)
        from loc0 [OF s' this] show ?thesis by (simp add: a)
      qed
    qed
  next
    case DSelecting
    have a: "after ?e s A = A" using Some w(1) DSelecting by (simp add: after_def op_of_def)
    show ?thesis
    proof (cases "hasWork q")
      case True
      have s': "s' = set_pc a DPopping (s\<lparr>dheap := fmupd a (q\<lparr>hasWork := False\<rparr>) (dheap s)\<rparr>)"
        using st Some w(1) DSelecting True ord(2) by (simp add: dur_step_def dur_worker_def)
      have "queued s' a = queued s a" using Some w(1) DSelecting by (simp add: queued_def s' set_pc_def)
      then have "agrees (snd A (dname q)) s' a" using agrees_cong [of s' a s] arr s' ag by simp
      from loc [OF s' _ this] show ?thesis by (simp add: a)
    next
      case False
      then have "s' = s" using st Some w(1) DSelecting ord(2) by (simp add: dur_step_def dur_worker_def)
      then show ?thesis using inv a by simp
    qed
  next
    case DExited
    then show ?thesis using w(2) ord(2) by (simp add: dcell_ok_def)
  qed
qed

lemma live_worker:
  assumes inv: "live_inv cfg U A s" and mode: "cfgMode cfg \<noteq> ModeOff" and al: "allowed cfg U A (DurWork flt http ord pick a) s"
    and st: "dur_step (DurWork flt http ord pick a) s = Some s'"
  shows "live_inv cfg U (after (DurWork flt http ord pick a) s A) s'"
proof (cases "fmlookup (dheap s) a")
  case None
  then show ?thesis using st inv by (simp add: dur_step_def dur_worker_def after_def op_of_def)
next
  case (Some q)
  let ?e = "DurWork flt http ord pick a"
  show ?thesis
  proof (cases "isClosed q")
    case True
    have "\<forall>q. fmlookup (dheap s) a = Some q \<longrightarrow> isClosed q \<longrightarrow> op_of ?e s = None"
      using al unfolding allowed_def dur_event.case by (elim conjE)
    then have "op_of ?e s = None" using Some True by blast
    then show ?thesis using live_worker_closed [OF inv Some True _ st] by (simp add: after_def)
  next
    case False
    then show ?thesis by (rule live_worker_open [OF inv mode al st Some])
  qed
qed

section \<open>Runs\<close>

lemma live_handlers:
  assumes inv: "live_inv cfg U A s" and mode: "cfgMode cfg \<noteq> ModeOff" and al: "allowed cfg U A e s" and st: "dur_step e s = Some s'"
    and e: "e = DurSubscribe flt n body \<or> e = DurResubscribe flt n sub body \<or> e = DurUnsubscribe flt n sub"
  shows "live_inv cfg U (after e s A) s'"
proof -
  have [simp]: "flt = no_faults" using al e by (auto simp: allowed_def)
  have upd: "live_inv cfg U (after e s A) s''"
    if "op_of e s = Some (UpdateOp n pol)" "lift_cord (with_cord (coord_UpdateSubPolicy no_faults n pol) s) = Some (s'', x)" for pol s'' x
  proof -
    have ok: "legal (UpdateOp n pol) A" "room cfg (dcord s) (record_of (UpdateOp n pol) (cat (dcord s)))"
      using al that(1) by (simp_all add: allowed_def)
    have "snd (spec (UpdateOp n pol) A) = snd A" by (cases A) (simp add: spec_def)
    from live_subscriber [where f = "coord_UpdateSubPolicy no_faults n pol", OF inv mode ok exec_ops(3) cord_ops(3) this] that(2)
    have "live_inv cfg U (if (\<exists>q. needs (UpdateOp n pol) = Some q \<and> q |\<notin>| fmdom (fst A)) then A else spec (UpdateOp n pol) A) s''"
      by auto
    then show ?thesis using that(1) by (simp add: after_def)
  qed
  from e show ?thesis
  proof (elim disjE)
    assume e: "e = DurSubscribe flt n body"
    show ?thesis
    proof (cases "Option.bind body DecodeSubPolicy")
      case None
      then show ?thesis using st inv e
        by (auto simp: dur_step_def HandleSubPolicyCreation_def after_def op_of_def split: option.splits)
    next
      case (Some pol)
      then show ?thesis using st upd [of pol] e
        by (auto simp: dur_step_def HandleSubPolicyCreation_def op_of_def answer_def dur_AddSubscriber_def split: option.splits bind_splits)
    qed
  next
    assume e: "e = DurResubscribe flt n sub body"
    show ?thesis
    proof (cases "Option.bind body DecodeSubPolicy")
      case None
      then show ?thesis using st inv e
        by (auto simp: dur_step_def HandleSubPolicyUpdate_def after_def op_of_def split: option.splits)
    next
      case (Some pol)
      then show ?thesis using st upd [of "pol\<lparr>SubName := sub\<rparr>"] e
        by (auto simp: dur_step_def HandleSubPolicyUpdate_def op_of_def answer_def dur_UpdateSubscriber_def split: option.splits bind_splits)
    qed
  next
    assume e: "e = DurUnsubscribe flt n sub"
    have op: "op_of e s = Some (UnsubOp n sub)" using e by (simp add: op_of_def)
    then have ok: "legal (UnsubOp n sub) A" "room cfg (dcord s) (record_of (UnsubOp n sub) (cat (dcord s)))"
      using al by (simp_all add: allowed_def)
    have "snd (spec (UnsubOp n sub) A) = snd A" by (cases A) (simp add: spec_def)
    from live_subscriber [where f = "coord_DeleteSubPolicy no_faults n sub", OF inv mode ok exec_ops(4) cord_ops(4) this]
    obtain s2 x where s2: "lift_cord (with_cord (coord_DeleteSubPolicy no_faults n sub) s) = Some (s2, x)"
      "live_inv cfg U (if (\<exists>q. needs (UnsubOp n sub) = Some q \<and> q |\<notin>| fmdom (fst A)) then A else spec (UnsubOp n sub) A) s2"
      by blast
    have "s2 = s'" using st s2(1) e by (simp add: dur_step_def HandleSubPolicyDeletion_def answer_def dur_RemoveSubscriber_def)
    then show ?thesis using s2(2) op by (simp add: after_def)
  qed
qed

text \<open>The identifiers that checkpoints have used, after an event.\<close>

definition used :: "dur_event \<Rightarrow> string set \<Rightarrow> string set" where
  "used e U = (case e of DurCheckpoint _ _ uid \<Rightarrow> U \<union> set_option uid | _ \<Rightarrow> U)"

lemma live_checkpoint:
  assumes inv: "live_inv cfg U A s" and mode: "cfgMode cfg \<noteq> ModeOff" and al: "allowed cfg U A (DurCheckpoint flt ord uid) s"
    and st: "dur_step (DurCheckpoint flt ord uid) s = Some s'"
  shows "live_inv cfg (U \<union> set_option uid) A s'"
proof -
  have ok: "flt = no_faults" "\<forall>t. visits_all (ord t)" "new_uid U uid" "ckpt_room cfg (dcord s)" using al by (simp_all add: allowed_def)
  have run: "durable_run cfg U A (dfs s) (dcord s)" by (rule live_invD(1) [OF inv])
  obtain H where H: "coord_inv U (coord_options cfg) H (dfs s) (dcord s)" "meaning H log_init = A"
    using durable_run_inv [OF run mode] by blast
  obtain fs' c' where c': "runCheckpoint no_faults ord uid (dfs s) (dcord s) = Some (fs', c')"
    using checkpoint_step [OF H(1) ok(2-4)] by blast
  have s': "s' = s\<lparr>dfs := fs', dcord := c'\<rparr>" using st c' ok(1) by (simp add: dur_step_def)
  have k: "keeps_inv s s'" using dur_step_inv [OF live_invD(2) [OF inv], of "DurCheckpoint flt ord uid"] st by simp
  have co: "cord_ok (dcord s)" using live_invD(2) [OF inv] by (simp add: dur_inv_def)
  have "durable_run cfg (U \<union> set_option uid) A fs' c'" by (rule durable_run.checkpoint [OF run ok(2-4) c'])
  moreover have "cat c' = fst A" using runCheckpoint_cord(2) [OF c' co] live_invD(4) [OF inv] by simp
  ultimately show ?thesis unfolding s' by (rule live_log_step [OF inv _ _ refl k [unfolded s']])
qed

lemma live_step:
  assumes "live_inv cfg U A s" "cfgMode cfg \<noteq> ModeOff" "allowed cfg U A e s" "dur_step e s = Some s'"
  shows "live_inv cfg (used e U) (after e s A) s'"
proof (cases e)
  case (DurCheckpoint flt ord uid)
  then show ?thesis using live_checkpoint [OF assms(1,2)] assms(3,4) by (simp add: used_def after_def op_of_def)
next
  case (DurPost h n body)
  then show ?thesis using live_post [OF assms(1)] assms(3,4) by (simp add: used_def)
next
  case (DurSubscribe flt n body)
  then show ?thesis using live_handlers [OF assms, of flt n body] by (simp add: used_def)
next
  case (DurResubscribe flt n sub body)
  then show ?thesis using live_handlers [OF assms, of flt n body sub] by (simp add: used_def)
next
  case (DurUnsubscribe flt n sub)
  then show ?thesis using live_handlers [OF assms, of flt n _ sub] by (simp add: used_def)
qed (use assms live_create live_delete live_enqueue live_worker in \<open>simp_all add: used_def\<close>)

text \<open>
  A life of the broker, with the abstract state its log stands for: it starts on a directory
  without a log or after a crash, and takes allowed steps.
\<close>

inductive live_run :: "Config \<Rightarrow> string set \<Rightarrow> log_state \<Rightarrow> dur_state \<Rightarrow> bool" for cfg where
  first: "with_suffix ''.wal'' fs = [] \<Longrightarrow> NewBrokerWithConfig no_faults cfg fs = Some s0 \<Longrightarrow> \<forall>t. visits_all (ord t) \<Longrightarrow>
    RestoreWAL no_faults ord s0 = Some (s, Inr ()) \<Longrightarrow> live_run cfg {} log_init s"
| restart: "durable_run cfg U A fs c \<Longrightarrow> maplen (fst A) \<le> 128 \<Longrightarrow> crash cfg c fs fs' \<Longrightarrow>
    NewBrokerWithConfig no_faults cfg fs' = Some s0 \<Longrightarrow> \<forall>t. visits_all (ord t) \<Longrightarrow>
    RestoreWAL no_faults ord s0 = Some (s, Inr ()) \<Longrightarrow> live_run cfg U A s"
| step: "live_run cfg U A s \<Longrightarrow> allowed cfg U A e s \<Longrightarrow> dur_step e s = Some s' \<Longrightarrow> live_run cfg (used e U) (after e s A) s'"

lemma live_from_log:
  assumes new: "NewCoordinatorWithConfig no_faults cfg fs' = Done (fs1, c1)"
    and log: "ReplayLog no_faults (ord ''catalog'') fs1 c1 = Some ((fs2, c2), Inr (ord ''catalog'' (fmdom (fst A)), d))" "pending d = snd A"
    and few: "maplen (fst A) \<le> 128" and ord: "\<forall>t. visits_all (ord t)" and run: "durable_run cfg U A fs2 c2" and mode: "cfgMode cfg \<noteq> ModeOff"
    and st: "NewBrokerWithConfig no_faults cfg fs' = Some s0" "RestoreWAL no_faults ord s0 = Some (s, Inr ())"
  shows "live_inv cfg U A s"
proof -
  have ord': "\<And>t. visits_all (ord t)" using ord by blast
  have s: "restore_inv s" "dfs s = fs2" "dcord s = c2" "fmdom (dqueues s) = fmdom (fst A)"
    "\<forall>n a. fmlookup (dqueues s) n = Some a \<longrightarrow>
       (\<exists>q. fmlookup (dheap s) a = Some q \<and> dname q = n \<and> (ring_contents q \<noteq> [] \<longrightarrow> hasWork q) \<and>
          distinct (map dmsgId (ring_contents q)) \<and>
          set (ring_contents q) =
            {dur_NewQueueMsg m (Content mi) (dSubList mi) (Some (dAckedSubs mi)) |m mi. snd A n m = Some mi})"
    using broker_from_log [where ord = ord, OF new log few ord'] st by simp_all
  obtain H where "coord_inv U (coord_options cfg) H fs2 c2" "meaning H log_init = A" using durable_run_inv [OF run mode] by blast
  then have cat: "cat c2 = fst A" by (simp add: coord_inv_def)
  have start: "dur_start cfg s" by (rule dur_startI [OF st(1) ord st(2)])
  have inv: "dur_inv s" "dur_sync s" using dur_start_inv [OF start] cat few s(3) by simp_all
  have rest: "denqs s = fmempty" "\<And>a w. fmlookup (dworkers s) a = Some w \<Longrightarrow> w = DPopping" using s(1) by (auto simp: restore_inv_def)
  have "agrees (snd A n) s a" if a: "fmlookup (dqueues s) n = Some a" for n a
  proof -
    obtain q where q: "fmlookup (dheap s) a = Some q" "distinct (map dmsgId (ring_contents q))"
      "set (ring_contents q) = {dur_NewQueueMsg m (Content mi) (dSubList mi) (Some (dAckedSubs mi)) |m mi. snd A n m = Some mi}"
      using s(5) a by blast
    have qd: "queued s a = ring_contents q" using q(1) rest(2) [of a] by (auto simp: queued_def split: option.split)
    have h: "holds s a x \<longleftrightarrow> (\<exists>m mi. snd A n m = Some mi \<and> x = dur_NewQueueMsg m (Content mi) (dSubList mi) (Some (dAckedSubs mi)))" for x
      using q(3) rest(1) by (auto simp: holds_def qd arriving_def)
    have p: "dmsgId (dur_NewQueueMsg m (Content mi) (dSubList mi) (Some (dAckedSubs mi))) = m"
      "info (dur_NewQueueMsg m (Content mi) (dSubList mi) (Some (dAckedSubs mi))) = mi" for m mi
      by (simp_all add: dur_NewQueueMsg_def info_def)
    have "msg_text (dur_NewQueueMsg m (Content mi) (dSubList mi) (Some (dAckedSubs mi)))" "keep mi = Some mi"
      if "snd A n m = Some mi" for m mi
    proof -
      show "msg_text (dur_NewQueueMsg m (Content mi) (dSubList mi) (Some (dAckedSubs mi)))"
        using durable_run_text(2) [OF run mode] that by (auto simp: msg_text_def pending_text_def dur_NewQueueMsg_def)
      show "keep mi = Some mi" using that log(2) pending_Some [of d n m mi] by (simp add: keep_def)
    qed
    then have "\<forall>x. holds s a x \<longrightarrow> msg_text x \<and> snd A n (dmsgId x) = keep (info x)" unfolding h using p by auto
    moreover have "\<forall>k. snd A n k \<noteq> None \<longrightarrow> (\<exists>x. holds s a x \<and> dmsgId x = k)" unfolding h using p(1) by blast
    moreover have "single s a" using q(2) rest(1) by (simp add: single_def qd arriving_def)
    ultimately show ?thesis unfolding agrees_def by blast
  qed
  moreover have "delivery_ok w" if "fmlookup (dworkers s) a = Some w" for a w using rest(2) [OF that] by simp
  ultimately show ?thesis using run inv cat s(2,3) rest(1) by (simp add: live_inv_def)
qed

lemma live_run_inv:
  assumes "live_run cfg U A s" "cfgMode cfg \<noteq> ModeOff"
  shows "live_inv cfg U A s"
  using assms(1)
proof (induction rule: live_run.induct)
  case (first fs s0 ord s)
  have dk: "disk [] fs" "names_in {} []" using first(1) by (simp_all add: disk_def names_in_def)
  obtain fs1 c1 fs2 c2 d where r: "NewCoordinatorWithConfig no_faults cfg fs = Done (fs1, c1)"
    "ReplayLog no_faults (ord ''catalog'') fs1 c1 = Some ((fs2, c2), Inr (ord ''catalog'' (fmdom (cat c2)), d))"
    "(cat c2, pending d) = meaning [] log_init"
    by (rule restart_ok [OF dk(1) assms(2) dk(2)])
  have e: "cat c2 = fst log_init" "pending d = snd log_init" using r(3) by (simp_all add: log_init_def)
  have "maplen (fst log_init) \<le> 128" by (simp add: log_init_def maplen_def fcard.rep_eq)
  from live_from_log [where ord = ord and A = log_init, OF r(1) r(2) [unfolded e(1)] e(2) this first(3)
      durable_run.first [OF first(1) r(1,2)] assms(2) first(2,4)]
  show ?case .
next
  case (restart U A fs c fs' s0 ord s)
  obtain fs1 c1 fs2 c2 d where r: "NewCoordinatorWithConfig no_faults cfg fs' = Done (fs1, c1)"
    "ReplayLog no_faults (ord ''catalog'') fs1 c1 = Some ((fs2, c2), Inr (ord ''catalog'' (fmdom (fst A)), d))" "pending d = snd A"
    using crash_restart [OF restart(1) assms(2) restart(3), of "ord ''catalog''"] by blast
  from live_from_log [where ord = ord, OF r restart(2,5) durable_run.restart [OF restart(1,3) r(1,2)] assms(2) restart(4,6)]
  show ?case .
next
  case (step U A s e s')
  then show ?case using live_step assms(2) by blast
qed

lemma live_few:
  assumes "live_inv cfg U A s"
  shows "maplen (fst A) \<le> 128"
proof -
  have "dnumQueues s = maplen (dqueues s)" "dnumQueues s \<le> 128"
    using live_invD(5) [OF assms] by (simp_all add: tab_inv_def)
  then show ?thesis using live_invD(8) [OF assms] by (simp add: maplen_def)
qed

text \<open>
  What a kill leaves of a broker that stands for \<open>A\<close>: the directory is one of \<open>crash\<close>, before or
  after the log record of the event the broker was in.
\<close>

definition dies :: "Config \<Rightarrow> string set \<Rightarrow> log_state \<Rightarrow> dur_state \<Rightarrow> log_state \<Rightarrow> fs \<Rightarrow> bool" where
  "dies cfg U A s A' fs' \<longleftrightarrow> A' = A \<and> crash cfg (dcord s) (dfs s) fs' \<or>
     (\<exists>e s1. allowed cfg U A e s \<and> dur_step e s = Some s1 \<and> A' = after e s A \<and> crash cfg (dcord s1) (dfs s1) fs')"

lemma dies_run:
  assumes "live_run cfg U A s" "dies cfg U A s A' fs'"
  obtains U' s1 where "live_run cfg U' A' s1" "crash cfg (dcord s1) (dfs s1) fs'"
proof (cases "A' = A \<and> crash cfg (dcord s) (dfs s) fs'")
  case True
  then show ?thesis using that assms(1) by blast
next
  case False
  then obtain e s1 where "allowed cfg U A e s" "dur_step e s = Some s1" "A' = after e s A" "crash cfg (dcord s1) (dfs s1) fs'"
    using assms(2) unfolding dies_def by blast
  then show ?thesis using that live_run.step [OF assms(1)] by blast
qed

lemma sample_live:
  obtains s where "live_run sample_cfg {} sample_abstract s"
proof -
  obtain fs c where run: "durable_run sample_cfg {} sample_abstract fs c"
    using sample_run unfolding sample_state_def by blast
  have cr: "crash sample_cfg c fs fs" by (rule crash_same)
  let ?ord = "\<lambda>_ :: string. sorted_list_of_fset :: string fset \<Rightarrow> string list"
  have ord: "\<forall>t. visits_all (?ord t)" by (simp add: visits_all_sorted)
  obtain s0 s where s: "NewBrokerWithConfig no_faults sample_cfg fs = Some s0" "RestoreWAL no_faults ?ord s0 = Some (s, Inr ())"
    using broker_restarts [OF run sample_mode cr sample_orders(3), of ?ord] visits_all_sorted by blast
  show ?thesis by (rule that [OF live_run.restart [OF run sample_orders(3) cr s(1) ord s(2)]])
qed

section \<open>Properties\<close>

text \<open>
  C2. Take any life of the durable broker that meets the conditions of \<open>allowed\<close>, with the log on,
  and kill the process anywhere, and the start-ups that follow any number of times. A restart on
  what is left succeeds, with a queue for every name of the catalog, and each queue holds every
  undelivered message of that name exactly once, with the acknowledgements it already has and a
  wake-up pending. The catalog and the messages are those of the requests and deliveries logged
  before the kill, and of the one it interrupted if its record was wholly written. The broker then
  goes on as any other.
\<close>

theorem broker_restart_exact:
  assumes "live_run cfg U A s" "cfgMode cfg \<noteq> ModeOff" "dies cfg U A s A' fs'" "\<And>t. visits_all (ord t)"
  shows "(A' = A \<or> (\<exists>e. allowed cfg U A e s \<and> A' = after e s A)) \<and>
    (\<exists>s0 s' U'. NewBrokerWithConfig no_faults cfg fs' = Some s0 \<and> RestoreWAL no_faults ord s0 = Some (s', Inr ()) \<and>
      live_run cfg U' A' s' \<and> fmdom (dqueues s') = fmdom (fst A') \<and>
      (\<forall>n a. fmlookup (dqueues s') n = Some a \<longrightarrow>
         (\<exists>q. fmlookup (dheap s') a = Some q \<and> dname q = n \<and> (ring_contents q \<noteq> [] \<longrightarrow> hasWork q) \<and>
            distinct (map dmsgId (ring_contents q)) \<and>
            set (ring_contents q) =
              {dur_NewQueueMsg m (Content mi) (dSubList mi) (Some (dAckedSubs mi)) |m mi. snd A' n m = Some mi})))"
proof -
  obtain U' s1 where r: "live_run cfg U' A' s1" "crash cfg (dcord s1) (dfs s1) fs'" by (rule dies_run [OF assms(1,3)])
  have inv: "live_inv cfg U' A' s1" by (rule live_run_inv [OF r(1) assms(2)])
  note restart = broker_restarts [OF live_invD(1) [OF inv] assms(2) r(2) live_few [OF inv], of ord, OF assms(4)]
  have ord: "\<forall>t. visits_all (ord t)" using assms(4) by blast
  have "A' = A \<or> (\<exists>e. allowed cfg U A e s \<and> A' = after e s A)" using assms(3) by (auto simp: dies_def)
  then show ?thesis
    using restart live_run.restart [OF live_invD(1) [OF inv] live_few [OF inv] r(2) _ ord] by blast
qed

theorem broker_restart_exact_witness:
  "\<exists>s s0 s' a q. live_run sample_cfg {} sample_abstract s \<and> dies sample_cfg {} sample_abstract s sample_abstract (dfs s) \<and>
     NewBrokerWithConfig no_faults sample_cfg (dfs s) = Some s0 \<and>
     RestoreWAL no_faults (\<lambda>_. sorted_list_of_fset) s0 = Some (s', Inr ()) \<and>
     fmlookup (dqueues s') ''orders'' = Some a \<and> fmlookup (dheap s') a = Some q \<and> length (ring_contents q) = 1"
proof -
  obtain s where live: "live_run sample_cfg {} sample_abstract s" by (rule sample_live)
  have cr: "crash sample_cfg (dcord s) (dfs s) (dfs s)" by (rule crash_same)
  then have d: "dies sample_cfg {} sample_abstract s sample_abstract (dfs s)" by (simp add: dies_def)
  obtain s0 s' where s: "NewBrokerWithConfig no_faults sample_cfg (dfs s) = Some s0"
    "RestoreWAL no_faults (\<lambda>_. sorted_list_of_fset) s0 = Some (s', Inr ())" "fmdom (dqueues s') = fmdom (fst sample_abstract)"
    "\<forall>n a. fmlookup (dqueues s') n = Some a \<longrightarrow>
       (\<exists>q. fmlookup (dheap s') a = Some q \<and> dname q = n \<and> (ring_contents q \<noteq> [] \<longrightarrow> hasWork q) \<and>
          distinct (map dmsgId (ring_contents q)) \<and>
          set (ring_contents q) =
            {dur_NewQueueMsg m (Content mi) (dSubList mi) (Some (dAckedSubs mi)) |m mi. snd sample_abstract n m = Some mi})"
    using broker_restart_exact [OF live sample_mode d, of "\<lambda>_. sorted_list_of_fset"] visits_all_sorted by blast
  have "''orders'' |\<in>| fmdom (dqueues s')" unfolding s(3) sample_orders(1) by simp
  then obtain a where a: "fmlookup (dqueues s') ''orders'' = Some a" by (rule fmdomE)
  then obtain q where q: "fmlookup (dheap s') a = Some q" "distinct (map dmsgId (ring_contents q))"
    "set (ring_contents q) =
      {dur_NewQueueMsg m (Content mi) (dSubList mi) (Some (dAckedSubs mi)) |m mi. snd sample_abstract ''orders'' m = Some mi}"
    using s(4) by blast
  have one: "set (ring_contents q) = {dur_NewQueueMsg ''orders-1'' ''hello'' (fmupd ''audit'' sample_policy fmempty) (Some {||})}"
    unfolding q(3) sample_orders(2) by auto
  have "distinct (ring_contents q)" using q(2) by (simp add: distinct_map)
  then have "length (ring_contents q) = 1" using one by (metis distinct_card is_singletonI is_singleton_altdef)
  then show ?thesis using live d s(1,2) a q(1) by blast
qed

text \<open>
  C5. In a life of durable-mq that meets the conditions of \<open>allowed\<close>, with the log on, memory and
  log agree: for every queue of the broker, the messages the log says are still owed to a
  subscriber are exactly the ones the process holds for it and that are not fully acknowledged,
  each held once, with the same content, subscribers and acknowledgements. The conditions are that
  files do not fail, records have room, texts are UTF-8, identifiers are new, a message is not
  logged for a queue that was deleted and created again since the request looked it up, and a
  worker acknowledges nothing after its queue was deleted.
\<close>

theorem durable_memory_matches_log:
  assumes "live_run cfg U A s" "cfgMode cfg \<noteq> ModeOff"
  shows "durable_run cfg U A (dfs s) (dcord s) \<and> fmdom (dqueues s) = fmdom (fst A) \<and>
    (\<forall>n a. fmlookup (dqueues s) n = Some a \<longrightarrow> single s a \<and>
       (\<forall>k mi. snd A n k = Some mi \<longleftrightarrow> (\<exists>m. holds s a m \<and> dmsgId m = k \<and> info m = mi \<and> unacked mi \<noteq> {||})))"
proof -
  have inv: "live_inv cfg U A s" by (rule live_run_inv [OF assms])
  have "snd A n k = Some mi \<longleftrightarrow> (\<exists>m. holds s a m \<and> dmsgId m = k \<and> info m = mi \<and> unacked mi \<noteq> {||})"
    if a: "fmlookup (dqueues s) n = Some a" for n a k mi
  proof -
    have ag: "\<And>m. holds s a m \<Longrightarrow> snd A n (dmsgId m) = keep (info m)" "\<And>k. snd A n k \<noteq> None \<Longrightarrow> \<exists>m. holds s a m \<and> dmsgId m = k"
      using live_invD(6) [OF inv a] unfolding agrees_def by blast+
    show ?thesis
    proof
      assume k: "snd A n k = Some mi"
      then obtain m where "holds s a m" "dmsgId m = k" using ag(2) by blast
      then show "\<exists>m. holds s a m \<and> dmsgId m = k \<and> info m = mi \<and> unacked mi \<noteq> {||}" using ag(1) k keep_Some by metis
    next
      assume "\<exists>m. holds s a m \<and> dmsgId m = k \<and> info m = mi \<and> unacked mi \<noteq> {||}"
      then show "snd A n k = Some mi" using ag(1) keep_Some by metis
    qed
  qed
  moreover have "single s a" if "fmlookup (dqueues s) n = Some a" for n a using live_invD(6) [OF inv that] by (simp add: agrees_def)
  ultimately show ?thesis using live_invD(1,8) [OF inv] by blast
qed

theorem durable_memory_matches_log_witness:
  "\<exists>s a m. live_run sample_cfg {} sample_abstract s \<and> fmlookup (dqueues s) ''orders'' = Some a \<and> holds s a m \<and>
     dmsgId m = ''orders-1'' \<and> dpayload m = ''hello''"
proof -
  obtain s where live: "live_run sample_cfg {} sample_abstract s" by (rule sample_live)
  let ?mi = "\<lparr>Content = ''hello'', dSubList = fmupd ''audit'' sample_policy fmempty, dAckedSubs = {||}\<rparr>"
  note m = durable_memory_matches_log [OF live sample_mode]
  then obtain a where a: "fmlookup (dqueues s) ''orders'' = Some a" using sample_orders(1) by (metis finsertI1 fmdomE)
  have k: "\<forall>k mi. snd sample_abstract ''orders'' k = Some mi \<longleftrightarrow>
      (\<exists>m. holds s a m \<and> dmsgId m = k \<and> info m = mi \<and> unacked mi \<noteq> {||})"
    using m a by blast
  have "snd sample_abstract ''orders'' ''orders-1'' = Some ?mi" by (simp add: sample_orders(2))
  from k [rule_format, THEN iffD1, OF this]
  obtain x where "holds s a x" "dmsgId x = ''orders-1''" "info x = ?mi" by blast
  then show ?thesis using live a by (auto simp: info_def)
qed

end
