(* ===== verification/Spec2Isabelle.thy ===== *)
theory Spec2Isabelle
  imports Simple_MQ Push_Server Durable_MQ Dist_Term Delivery_Verdict Durable_Live
begin

text \<open>
  simonMQ is a family of message brokers in Go, each a step beyond the one before. \<open>simple-mq\<close> and
  \<open>simple-mq-2\<close> let clients poll in-memory queues. \<open>push-mq\<close> pushes messages to subscribers, with one
  worker goroutine per queue. \<open>durable-mq\<close> does the same over a segmented write-ahead log with
  checkpoints and survives the death of its process. \<open>dist-mq\<close> replicates its queues with
  \<open>hashicorp/raft\<close> and delivers from the leader. The end-to-end tests of \<open>dist-mq\<close> have a
  cluster-aware client, a recording sink and a verifier.

  \<^bold>\<open>Conventions\<close> (\<open>Prelude\<close>, \<open>Model\<close>). A slice is a list, a map a finite map, a string or a byte
  slice a list of characters. An operation that can panic returns an option with \<open>None\<close> for the
  panic; an error is a value of a sum type. The order in which Go visits a map is a parameter
  \<open>ord\<close> with \<open>visits_all ord\<close>: every key once. What subscribers answer is a function from URL and
  payload to a status. A mutex makes the code it guards one step; where the code releases a lock
  between two parts of an operation, the parts are steps of their own (\<open>denqs\<close> for
  \<open>durable-mq\<close>'s \<open>Enqueue\<close>, the control points of the workers and of the checkpoint goroutine).
  Widths are kept where they matter: fields of records and commands, CRC-32, sequence numbers,
  sizes read from strings, backoff and counters of the client.

  \<^bold>\<open>The standard library.\<close> \<open>Strconv\<close> has the number formats, CRC-32 and UTF-8 validity, \<open>Json\<close> the
  text that \<open>json.Marshal\<close> writes and a parser for it, \<open>Codec\<close> \<open>json.Unmarshal\<close> into structs and
  maps (case-insensitive keys, unknown fields, \<open>null\<close>), each with its round trip.

  \<^bold>\<open>simple-mq, simple-mq-2.\<close> \<open>Ring_Buffer\<close> is \<open>simple-mq-2/queue.go\<close> with its index arithmetic; the locale
  \<open>fifo\<close> states what a queue promises, and is interpreted for it, for the queues of the workers and
  for those of \<open>dist-mq\<close>. \<open>Simple_MQ\<close> has both brokers and their handlers. Shown: the ring behaves
  as an unbounded list and never panics, both brokers answer every sequence of requests alike, and
  what is handed out is a prefix of what was accepted, in order.

  \<^bold>\<open>push-mq.\<close> \<open>Worker\<close> is the part of a queue its worker sees, \<open>Push_MQ\<close> the fan-out
  (\<open>push_collect\<close>, \<open>push_settle\<close>), the broker and the steps of the workers, \<open>Push_Server\<close> the
  handlers. \<open>push_reachable\<close> are the states of any interleaving of requests and worker steps. Shown:
  no panic, the limit of 128 queues, no lost wake-up, exact accounting of a fan-out, bounded
  retries, and that a queue drains.

  \<^bold>\<open>durable-mq, the log.\<close> \<open>Log_Record\<close> is \<open>record\<close>; \<open>Segments\<close> and \<open>Wal\<close> are \<open>wal\<close>: the directory is a
  map from file names to contents, a system call fails where the parameter \<open>faults\<close> says so, a
  handle is a name with a position. \<open>Catalog\<close>, \<open>Delivery\<close>, \<open>Replay\<close> and \<open>Compaction\<close> are the packages
  \<open>catalog\<close> and \<open>delivery\<close>, the replay loop and \<open>CompactRecords\<close>; \<open>Coordinator\<close> puts them together, with a
  checkpoint as a goroutine of six steps (\<open>runCheckpoint\<close>). \<open>Replay\<close> also gives a log its meaning, a
  catalog and the outstanding messages (\<open>log_state\<close>). Shown in \<open>Compaction_Correct\<close>: replay arrives at
  the meaning, compaction is invisible and never grows. \<open>Wal_Log\<close>, \<open>Wal_Read\<close>, \<open>History\<close> and \<open>Wal_Correct\<close>
  relate directories to lists of records, with what checkpoints have removed;
  \<open>Coordinator_Correct\<close> shows that every operation and every checkpoint step refines the abstract
  one (\<open>spec\<close>).

  \<^bold>\<open>durable-mq, death and restart\<close> (\<open>Durability\<close>). A run (\<open>durable_run\<close>) is one without file
  failures and with the log on, of operations that are \<open>legal\<close> (texts are UTF-8, message
  identifiers new, acknowledgements for outstanding messages and subscribers that owe one) and
  have \<open>room\<close> (the record fits a segment, sequence numbers do not run out), checkpoint steps, kills
  and restarts. A kill is the death of the process, not of the machine: what was written stays.
  \<open>crash\<close> covers an append cut anywhere, with or without a new segment, any step of a checkpoint cut
  anywhere, and start-ups that are cut off after it (\<open>torn_start\<close>); \<open>killed\<close> adds the operation whose
  record is complete but which has not answered. Shown:
  a restart comes back with the acknowledged operations and at most the one in progress,
  operations refine their specification, a checkpoint ends. What happens with failing files, oversize
  records or an acknowledgement after \<open>DeleteQueue\<close> is not claimed there; that last case is a defect
  of the code, and \<open>Compaction_Correct\<close> shows it.

  \<^bold>\<open>durable-mq, the broker.\<close> \<open>Durable_MQ\<close> has the broker, its workers, \<open>RestoreWAL\<close> and the handlers;
  \<open>Durable_Restore\<close> the start-up; \<open>Durable_Broker\<close> any interleaving of requests, workers and
  checkpoints under arbitrary file failures (\<open>dur_steps\<close>): no panic, the table follows the catalog,
  no lost wake-up, and a request that is overtaken by deletion and re-creation of its queue.
  \<open>Durable_Live\<close> follows the broker without failures (\<open>live_run\<close>, under the conditions of \<open>allowed\<close>)
  and shows that memory and log agree at every moment and that a killed broker restarts with every
  undelivered message once. \<open>RestoreWAL\<close> is one step; in the code workers may start while
  other queues are still being filled.

  \<^bold>\<open>dist-mq.\<close> \<open>Dist_Command\<close> is \<open>command\<close>, \<open>Dist_Storage\<close> \<open>storage\<close>, \<open>model\<close> and \<open>fsm\<close>, \<open>Dist_Node\<close> the proposals of \<open>node\<close>,
  \<open>Dist_Delivery\<close> \<open>delivery\<close>, \<open>Dist_Server\<close> \<open>server\<close> and the \<open>peers\<close> flag. Raft is a function from an entry
  and a store to a store and an answer; \<open>raft_commits\<close>, the documented promise that an entry whose
  future succeeds has been applied at its place in the log, is a named hypothesis. Shown in
  \<open>Dist_Replica\<close>: the store's invariant under any bytes, snapshots that catch a replica up, and how
  acknowledgements complete; in \<open>Dist_Manager\<close>: no panic and no lost wake-up under any interleaving
  (promotions in one step or in pieces); in \<open>Dist_Term\<close>: the set of messages in flight is exact, and a new leader
  rebuilds its queues (the locale \<open>kept\<close> carries an invariant of the manager through every event,
  and is interpreted twice); in \<open>Dist_Service\<close>: what each status code says. Message identifiers, made
  with \<open>google/uuid\<close>, are taken to be unique where a theorem says so (\<open>unique_ids\<close>).

  \<^bold>\<open>The end-to-end tools of dist-mq.\<close> \<open>Cluster_Client\<close> is \<open>client\<close>: the locale \<open>write_path\<close> states what a
  network has to keep apart, and is interpreted on the modelled nodes (\<open>cluster_send\<close>); shown are
  what an outcome means, that a write ends within its attempts, and a rejection that was committed.
  \<open>Delivery_Verdict\<close> is \<open>payload\<close>, \<open>sink\<close> and \<open>verify\<close>: the verdict of a run is exact.

  \<^bold>\<open>Bounds and fuel.\<close> Reading the log (\<open>readNext\<close>, \<open>readLoop\<close>) may not end on a damaged
  directory and is a partial function to an option, with \<open>None\<close> for a read that does not end; the
  theorems that use it show that it ends. All other functions are total. The client's loop runs on its attempts. A
  checkpoint has at most six steps to go (\<open>ckpt_rank\<close>).

  \<^bold>\<open>Not modelled.\<close> The entry points, routing tables and \<open>net/http\<close> itself; sockets, timers and sleeps; raft,
  its transport and its stores, and the set-up of them in \<open>node.New\<close>; the read path of the client;
  the wording of messages; load generators, benchmarks, harnesses and aggregators of the end-to-end
  tests. A repeated key that decodes into the same slice twice is decoded afresh, where
  \<open>encoding/json\<close> reuses the old elements; the encoders never write one.
\<close>

end
